(* ===== verification/Prelude.thy ===== *)
theory Prelude
  imports Main "HOL-Library.Word"
begin

text \<open>
  Shared vocabulary of the development: the collections of rewrite rules the component
  proofs draw on, the names of the model's basic types, Go's 64-bit signed wrap-around,
  and the generic facts on lists, maps and modular indices that several components use.
\<close>

named_theorems go_defs "definitions of the Go library functions the sources call"
named_theorems store_defs "definitions of the storage operations"
named_theorems store_simps "rewrite rules for lookups after storage updates"

type_synonym key = string
type_synonym time = int
type_synonym go_error = string

subsection \<open>Signed 64-bit integers\<close>

text \<open>
  \<open>int64\<close> values are modelled as \<^typ>\<open>int\<close>; \<open>wrap64\<close> is the two's complement
  reduction that Go applies to the result of an \<open>int64\<close> operation.
\<close>

definition wrap64 :: "int \<Rightarrow> int" where
  "wrap64 x = (x + 2 ^ 63) mod 2 ^ 64 - 2 ^ 63"

definition in_int64 :: "int \<Rightarrow> bool" where
  "in_int64 x \<longleftrightarrow> - (2 ^ 63) \<le> x \<and> x < 2 ^ 63"

lemma wrap64_id [simp]: "in_int64 x \<Longrightarrow> wrap64 x = x"
  by (auto simp: wrap64_def in_int64_def)

lemma wrap64_in_int64 [simp]: "in_int64 (wrap64 x)"
  by (auto simp: wrap64_def in_int64_def)

lemma wrap64_add_left [simp]: "wrap64 (wrap64 a + b) = wrap64 (a + b)"
proof -
  let ?M = "(2::int) ^ 64"
  have "(wrap64 a + b + 2 ^ 63) mod ?M = ((a + 2 ^ 63) mod ?M + b) mod ?M"
    by (simp add: wrap64_def algebra_simps)
  also have "\<dots> = (a + 2 ^ 63 + b) mod ?M"
    by (rule mod_add_left_eq)
  also have "\<dots> = (a + b + 2 ^ 63) mod ?M"
    by (simp only: ac_simps)
  finally show ?thesis by (simp add: wrap64_def)
qed

subsection \<open>Lists and modular indices\<close>

lemma mod_add_cancel_less:
  fixes h i j n :: nat
  assumes "i < n" "j < n"
  shows "(h + i) mod n = (h + j) mod n \<longleftrightarrow> i = j"
proof -
  have *: "i = j" if "(h + i) mod n = (h + j) mod n" "j \<le> i" "i < n" for i j
  proof -
    from that have "n dvd i - j"
      using mod_eq_dvd_iff_nat[of "h + j" "h + i" n] by simp
    with that show ?thesis by (auto dest: dvd_imp_le)
  qed
  from assms *[of i j] *[of j i] show ?thesis by (metis nat_le_linear)
qed

lemma sum_list_update_length:
  fixes f :: "'a \<Rightarrow> int"
  assumes "i < length xs"
  shows "sum_list (map f (xs[i := y])) = sum_list (map f xs) - f (xs ! i) + f y"
  using assms by (induction xs arbitrary: i) (auto split: nat.splits)

lemma sum_list_remove_nth:
  fixes f :: "'a \<Rightarrow> int"
  assumes "i < length xs"
  shows "sum_list (map f (take i xs @ drop (Suc i) xs)) = sum_list (map f xs) - f (xs ! i)"
  using assms
proof (induction xs arbitrary: i)
  case (Cons x xs)
  then show ?case by (cases i) auto
qed simp

lemma sum_list_hd_tl:
  "xs \<noteq> [] \<Longrightarrow> sum_list (map f xs) = f (hd xs) + sum_list (map f (tl xs))"
  by (cases xs) auto

lemma sum_list_butlast_last:
  fixes f :: "'a \<Rightarrow> int"
  shows "xs \<noteq> [] \<Longrightarrow> sum_list (map f xs) = sum_list (map f (butlast xs)) + f (last xs)"
  by (induction xs rule: rev_induct) auto

lemma sum_list_insert_at:
  fixes f :: "'a \<Rightarrow> int"
  shows "sum_list (map f (take k xs @ v # drop k xs)) = sum_list (map f xs) + f v"
proof -
  have "sum_list (map f (take k xs @ drop k xs)) = sum_list (map f xs)" by simp
  then show ?thesis by (simp only: map_append sum_list_append list.map sum_list.Cons)
qed

lemma sum_fun_upd:
  fixes f :: "'b \<Rightarrow> int"
  assumes "finite A" "j \<in> A"
  shows "(\<Sum>i\<in>A. f ((g(j := x)) i)) = (\<Sum>i\<in>A. f (g i)) - f (g j) + f x"
proof -
  have "(\<Sum>i\<in>A. f ((g(j := x)) i)) = f x + (\<Sum>i\<in>A - {j}. f (g i))"
    using assms by (simp add: sum.remove[where x = j])
  also have "(\<Sum>i\<in>A - {j}. f (g i)) = (\<Sum>i\<in>A. f (g i)) - f (g j)"
    using assms by (simp add: sum_diff1)
  finally show ?thesis by simp
qed

lemma sum_map_update:
  fixes f :: "'a \<Rightarrow> 'b \<Rightarrow> int"
  assumes "finite (dom m)"
  shows "(\<Sum>q\<in>dom (m(k \<mapsto> x)). f q (the ((m(k \<mapsto> x)) q))) =
    (\<Sum>q\<in>dom m. f q (the (m q))) - (case m k of None \<Rightarrow> 0 | Some y \<Rightarrow> f k y) + f k x"
proof -
  have "(\<Sum>q\<in>dom (m(k \<mapsto> x)). f q (the ((m(k \<mapsto> x)) q))) = f k x + (\<Sum>q\<in>dom m - {k}. f q (the (m q)))"
    using assms by (simp add: sum.insert_remove)
  also have "(\<Sum>q\<in>dom m - {k}. f q (the (m q))) =
      (\<Sum>q\<in>dom m. f q (the (m q))) - (case m k of None \<Rightarrow> 0 | Some y \<Rightarrow> f k y)"
    using assms by (cases "m k") (auto simp: sum_diff1 domI)
  finally show ?thesis by linarith
qed

lemma sum_map_delete:
  fixes f :: "'a \<Rightarrow> 'b \<Rightarrow> int"
  assumes "finite (dom m)" "m k = Some y"
  shows "(\<Sum>q\<in>dom (m(k := None)). f q (the ((m(k := None)) q))) = (\<Sum>q\<in>dom m. f q (the (m q))) - f k y"
  using assms by (auto simp: sum_diff1 domI intro!: sum.cong)

lemma strict_prefix_appendE:
  assumes "p @ q = a @ b"
  obtains (inside) r where "a = p @ r" "q = r @ b"
  | (beyond) r where "p = a @ r" "b = r @ q"
  using assms unfolding append_eq_append_conv2 by auto

lemma length_map_upt_take:
  "n \<le> length xs \<Longrightarrow> map (\<lambda>i. xs ! i) [0..<n] = take n xs"
  by (simp add: list_eq_iff_nth_eq)

end
