(* ===== verification/GoStd.thy ===== *)
theory GoStd
  imports Prelude "HOL-Library.Log_Nat"
begin

text \<open>
  The parts of the Go standard library the sources call, as pure functions: decimal
  formatting and parsing of \<open>int64\<close> (\<open>strconv.FormatInt\<close>, \<open>strconv.ParseInt\<close>,
  \<open>strconv.Atoi\<close>, \<open>%d\<close>), case mapping and field splitting of strings
  (\<open>strings.ToUpper\<close>, \<open>ToLower\<close>, \<open>EqualFold\<close>, \<open>Fields\<close>), and the
  operations of \<open>time.Time\<close>. A Go string is a sequence of bytes, here a
  \<^typ>\<open>string\<close>. On strings with a byte outside ASCII the case mapping and the
  white-space classes come from the Unicode tables, which the model takes as the
  parameter record \<open>unicode\<close>. The main result is that parsing inverts formatting.
\<close>

subsection \<open>Decimal integers\<close>

definition digit_char :: "nat \<Rightarrow> char" where
  "digit_char d = char_of (48 + d)"

fun format_nat :: "nat \<Rightarrow> string" where
  "format_nat n = (if n < 10 then [digit_char n] else format_nat (n div 10) @ [digit_char (n mod 10)])"

declare format_nat.simps [simp del]

text \<open>\<open>strconv.FormatInt(i, 10)\<close> and the verb \<open>%d\<close>.\<close>

definition format_int :: "int \<Rightarrow> string" where
  "format_int i = (if i < 0 then CHR ''-'' # format_nat (nat (- i)) else format_nat (nat i))"

definition is_digit :: "char \<Rightarrow> bool" where
  "is_digit c \<longleftrightarrow> 48 \<le> (of_char c :: nat) \<and> (of_char c :: nat) \<le> 57"

definition digits_value :: "string \<Rightarrow> nat" where
  "digits_value s = foldl (\<lambda>n c. 10 * n + (of_char c - 48)) 0 s"

definition parse_uint :: "string \<Rightarrow> nat option" where
  "parse_uint s = (if s = [] \<or> \<not> list_all is_digit s then None else Some (digits_value s))"

text \<open>
  \<open>strconv.ParseInt(s, 10, 64)\<close>; \<open>None\<close> is a non-nil error. On a 64-bit platform
  \<open>strconv.Atoi\<close> accepts the same strings with the same values.
\<close>

definition ParseInt :: "string \<Rightarrow> int option" where
  "ParseInt s =
     (let (neg, ds) = (case s of [] \<Rightarrow> (False, [])
                        | c # cs \<Rightarrow> if c = CHR ''+'' then (False, cs)
                                    else if c = CHR ''-'' then (True, cs) else (False, s))
      in case parse_uint ds of
           None \<Rightarrow> None
         | Some n \<Rightarrow> if \<not> neg \<and> n \<ge> 2 ^ 63 then None
                     else if neg \<and> n > 2 ^ 63 then None
                     else Some (if neg then - int n else int n))"

lemma of_char_digit [simp]: "d < 10 \<Longrightarrow> (of_char (digit_char d) :: nat) = 48 + d"
  by (simp add: digit_char_def)

lemma is_digit_digit_char [simp]: "d < 10 \<Longrightarrow> is_digit (digit_char d)"
  by (simp add: is_digit_def)

lemma format_nat_digits: "list_all is_digit (format_nat n)"
proof (induction n rule: format_nat.induct)
  case (1 n)
  then show ?case by (cases "n < 10") (simp_all add: format_nat.simps[of n])
qed

lemma format_nat_nonempty [simp]: "format_nat n \<noteq> []"
  by (subst format_nat.simps) simp

lemma digits_value_snoc [simp]: "digits_value (s @ [c]) = 10 * digits_value s + (of_char c - 48)"
  by (simp add: digits_value_def)

lemma digits_value_format_nat [simp]: "digits_value (format_nat n) = n"
proof (induction n rule: format_nat.induct)
  case (1 n)
  show ?case
  proof (cases "n < 10")
    case True
    then show ?thesis by (simp add: format_nat.simps[of n] digits_value_def)
  next
    case False
    with 1 show ?thesis by (simp add: format_nat.simps[of n])
  qed
qed

lemma parse_uint_format_nat [simp]: "parse_uint (format_nat n) = Some n"
  by (simp add: parse_uint_def format_nat_digits)

lemma sign_not_digit: "\<not> is_digit (CHR ''+'')" "\<not> is_digit (CHR ''-'')"
  by (simp_all add: is_digit_def)

lemma format_nat_ConsE:
  obtains c cs where "format_nat n = c # cs" "c \<noteq> CHR ''+''" "c \<noteq> CHR ''-''"
proof -
  obtain c cs where "format_nat n = c # cs" by (cases "format_nat n") auto
  then show ?thesis using that format_nat_digits[of n] sign_not_digit by auto
qed

lemma ParseInt_format_int [simp]:
  assumes "in_int64 i"
  shows "ParseInt (format_int i) = Some i"
proof (cases "i < 0")
  case True
  with assms show ?thesis by (auto simp: ParseInt_def format_int_def in_int64_def Let_def)
next
  case False
  obtain c cs where f: "format_nat (nat i) = c # cs" "c \<noteq> CHR ''+''" "c \<noteq> CHR ''-''"
    by (rule format_nat_ConsE)
  have "parse_uint (c # cs) = Some (nat i)"
    using parse_uint_format_nat[of "nat i"] f(1) by simp
  with False assms f show ?thesis
    by (auto simp: ParseInt_def format_int_def in_int64_def Let_def nat_less_iff)
qed

lemma ParseInt_int64: "ParseInt s = Some i \<Longrightarrow> in_int64 i"
  by (auto simp: ParseInt_def in_int64_def Let_def split: list.splits option.splits if_splits prod.splits)

lemma length_format_nat: "n < 10 ^ k \<Longrightarrow> 0 < k \<Longrightarrow> length (format_nat n) \<le> k"
proof (induction n arbitrary: k rule: format_nat.induct)
  case (1 n)
  show ?case
  proof (cases "n < 10")
    case True
    with 1 show ?thesis by (simp add: format_nat.simps[of n])
  next
    case False
    with 1 obtain j where j: "k = Suc j" "0 < j" by (cases k; cases "k - 1") auto
    with 1 False have "n div 10 < 10 ^ j" by auto
    with 1 False j have "length (format_nat (n div 10)) \<le> j" by blast
    with False j show ?thesis by (simp add: format_nat.simps[of n])
  qed
qed

lemma format_int_chars: "c \<in> set (format_int i) \<Longrightarrow> is_digit c \<or> c = CHR ''-''"
  using format_nat_digits by (fastforce simp: format_int_def list_all_iff split: if_splits)

lemma length_format_int:
  assumes "in_int64 i"
  shows "length (format_int i) \<le> 20"
proof -
  have "nat (- i) < 10 ^ 19" "nat i < 10 ^ 19"
    using assms by (auto simp: in_int64_def nat_less_iff)
  then have "length (format_nat (nat (- i))) \<le> 19" "length (format_nat (nat i)) \<le> 19"
    by (auto intro: length_format_nat)
  then show ?thesis by (simp add: format_int_def)
qed

subsection \<open>Strings\<close>

record unicode =
  uc_upper :: "string \<Rightarrow> string"
  uc_lower :: "string \<Rightarrow> string"
  uc_fold :: "string \<Rightarrow> string \<Rightarrow> bool"
  uc_fields :: "string \<Rightarrow> string list"
  uc_quote :: "string \<Rightarrow> string"
  uc_trim :: "string \<Rightarrow> string"

definition is_ascii :: "string \<Rightarrow> bool" where
  "is_ascii s \<longleftrightarrow> list_all (\<lambda>c. (of_char c :: nat) < 128) s"

definition upper_char :: "char \<Rightarrow> char" where
  "upper_char c = (if 97 \<le> (of_char c :: nat) \<and> (of_char c :: nat) \<le> 122
                   then char_of ((of_char c :: nat) - 32) else c)"

definition lower_char :: "char \<Rightarrow> char" where
  "lower_char c = (if 65 \<le> (of_char c :: nat) \<and> (of_char c :: nat) \<le> 90
                   then char_of ((of_char c :: nat) + 32) else c)"

definition ToUpper :: "unicode \<Rightarrow> string \<Rightarrow> string" where
  "ToUpper U s = (if is_ascii s then map upper_char s else uc_upper U s)"

definition ToLower :: "unicode \<Rightarrow> string \<Rightarrow> string" where
  "ToLower U s = (if is_ascii s then map lower_char s else uc_lower U s)"

definition EqualFold :: "unicode \<Rightarrow> string \<Rightarrow> string \<Rightarrow> bool" where
  "EqualFold U s t = (if is_ascii s \<and> is_ascii t then map lower_char s = map lower_char t
                      else uc_fold U s t)"

definition is_space :: "char \<Rightarrow> bool" where
  "is_space c \<longleftrightarrow> c \<in> {CHR 0x09, CHR 0x0A, CHR 0x0B, CHR 0x0C, CHR 0x0D, CHR '' ''}"

fun split_space :: "string \<Rightarrow> string list" where
  "split_space [] = [[]]"
| "split_space (c # cs) =
     (if is_space c then [] # split_space cs
      else (case split_space cs of [] \<Rightarrow> [[c]] | w # ws \<Rightarrow> (c # w) # ws))"

definition Fields :: "unicode \<Rightarrow> string \<Rightarrow> string list" where
  "Fields U s = (if is_ascii s then filter (\<lambda>w. w \<noteq> []) (split_space s) else uc_fields U s)"

definition TrimSpace :: "unicode \<Rightarrow> string \<Rightarrow> string" where
  "TrimSpace U s =
     (if is_ascii s then rev (dropWhile is_space (rev (dropWhile is_space s))) else uc_trim U s)"

definition HasSuffix :: "string \<Rightarrow> string \<Rightarrow> bool" where
  "HasSuffix s t \<longleftrightarrow> length t \<le> length s \<and> drop (length s - length t) s = t"

definition TrimSuffix :: "string \<Rightarrow> string \<Rightarrow> string" where
  "TrimSuffix s t = (if HasSuffix s t then take (length s - length t) s else s)"

fun Split :: "char \<Rightarrow> string \<Rightarrow> string list" where
  "Split sep [] = [[]]"
| "Split sep (c # cs) =
     (if c = sep then [] # Split sep cs
      else (case Split sep cs of [] \<Rightarrow> [[c]] | w # ws \<Rightarrow> (c # w) # ws))"

text \<open>The verb \<open>%q\<close>: a double-quoted Go string literal.\<close>

definition hex_digit :: "nat \<Rightarrow> char" where
  "hex_digit n = (if n < 10 then char_of (48 + n) else char_of (87 + n))"

definition quote_char :: "char \<Rightarrow> string" where
  "quote_char c =
     (let n = (of_char c :: nat)
      in if c = CHR 0x22 then [CHR 0x5C, CHR 0x22] else if c = CHR 0x5C then [CHR 0x5C, CHR 0x5C]
         else if n = 7 then [CHR 0x5C, CHR ''a''] else if n = 8 then [CHR 0x5C, CHR ''b'']
         else if n = 12 then [CHR 0x5C, CHR ''f''] else if n = 10 then [CHR 0x5C, CHR ''n'']
         else if n = 13 then [CHR 0x5C, CHR ''r''] else if n = 9 then [CHR 0x5C, CHR ''t'']
         else if n = 11 then [CHR 0x5C, CHR ''v'']
         else if n < 32 \<or> n = 127 then [CHR 0x5C, CHR ''x'', hex_digit (n div 16), hex_digit (n mod 16)]
         else [c])"

definition Quote :: "unicode \<Rightarrow> string \<Rightarrow> string" where
  "Quote U s = (if is_ascii s then CHR 0x22 # concat (map quote_char s) @ [CHR 0x22] else uc_quote U s)"

text \<open>The Unicode record that leaves non-ASCII text alone, used in concrete runs.\<close>

definition plain_unicode :: unicode where
  "plain_unicode = \<lparr>uc_upper = id, uc_lower = id, uc_fold = (=), uc_fields = (\<lambda>s. [s]), uc_quote = id, uc_trim = id\<rparr>"

subsection \<open>Instants and durations\<close>

text \<open>
  An instant is its distance in nanoseconds from the Unix epoch; the zero
  \<open>time.Time\<close>, which means "no expiration", is 1 January of year 1. Durations are
  nanoseconds. \<open>Sub\<close> saturates at the bounds of \<open>int64\<close>.
\<close>

definition zero_time :: time where
  "zero_time = - 62135596800 * 10 ^ 9"

definition IsZero :: "time \<Rightarrow> bool" where
  "IsZero t \<longleftrightarrow> t = zero_time"

abbreviation Second :: int where
  "Second \<equiv> 10 ^ 9"

abbreviation Millisecond :: int where
  "Millisecond \<equiv> 10 ^ 6"

definition maxSeconds :: int where
  "maxSeconds = (2 ^ 63 - 1) div Second"

definition maxMilliseconds :: int where
  "maxMilliseconds = (2 ^ 63 - 1) div Millisecond"

definition Sub :: "time \<Rightarrow> time \<Rightarrow> int" where
  "Sub t u = max (- (2 ^ 63)) (min (2 ^ 63 - 1) (t - u))"

definition UnixMilli :: "int \<Rightarrow> time" where
  "UnixMilli ms = ms * Millisecond"

definition unixMilli :: "time \<Rightarrow> int" where
  "unixMilli t = t div Millisecond"

lemma unixMilli_UnixMilli [simp]: "unixMilli (UnixMilli ms) = ms"
  by (simp add: unixMilli_def UnixMilli_def)

lemma UnixMilli_unixMilli_le: "UnixMilli (unixMilli t) \<le> t"
  and less_UnixMilli_unixMilli: "t < UnixMilli (unixMilli t) + Millisecond"
  by (simp_all add: unixMilli_def UnixMilli_def)

lemmas std_time_defs [go_defs] = zero_time_def IsZero_def Sub_def UnixMilli_def unixMilli_def
  maxSeconds_def maxMilliseconds_def

subsection \<open>Durations as floating-point seconds\<close>

text \<open>
  \<open>Duration.Seconds\<close> is the \<open>float64\<close> sum of the whole seconds and of the remaining
  nanoseconds divided by \<open>1e9\<close>; \<open>f64\<close> rounds a positive rational to 53 significant
  bits, ties to even.
\<close>

definition round_even :: "rat \<Rightarrow> int" where
  "round_even x =
     (let n = \<lfloor>x\<rfloor>; r = x - of_int n
      in if r < 1 / 2 then n else if r > 1 / 2 then n + 1 else if even n then n else n + 1)"

definition f64_shift :: "rat \<Rightarrow> int" where
  "f64_shift x =
     (let (a, b) = quotient_of x;
          e = 53 - (bitlen a - bitlen b)
      in if x * 2 powi e < 2 ^ 53 then e else e - 1)"

definition f64 :: "rat \<Rightarrow> rat" where
  "f64 x = (if x \<le> 0 then 0 else of_int (round_even (x * 2 powi f64_shift x)) / 2 powi f64_shift x)"

definition Seconds :: "int \<Rightarrow> rat" where
  "Seconds d =
     (let whole = \<bar>d\<bar> div Second; nsec = \<bar>d\<bar> mod Second;
          sum = f64 (of_int whole + f64 (of_int nsec / of_int Second))
      in if d < 0 then - sum else sum)"

lemma round_even_bounds: "of_int a \<le> x \<Longrightarrow> x \<le> of_int b \<Longrightarrow> a \<le> round_even x \<and> round_even x \<le> b"
proof -
  assume a: "of_int a \<le> x" and b: "x \<le> of_int b"
  have "a \<le> \<lfloor>x\<rfloor>" "\<lfloor>x\<rfloor> \<le> b" using a b by (simp_all add: le_floor_iff floor_le_iff)
  moreover have "\<lfloor>x\<rfloor> < b" if "x - of_int \<lfloor>x\<rfloor> > 0"
    using b that by (simp add: floor_less_iff) (metis diff_gt_0_iff_gt floor_of_int order_le_less)
  ultimately show ?thesis by (auto simp: round_even_def Let_def)
qed

lemma f64_shift_nonneg:
  assumes "0 < x" "x < 2 ^ 53"
  shows "0 \<le> f64_shift x"
proof -
  obtain a b where q: "quotient_of x = (a, b)" by fastforce
  then have x: "x = of_int a / of_int b" and b: "0 < b"
    by (simp_all add: quotient_of_div quotient_of_denom_pos)
  from assms b have a: "0 < a" by (simp add: x zero_less_divide_iff)
  from assms b have "a < 2 ^ 53 * b"
    by (simp add: x divide_less_eq mult.commute)
  also have "\<dots> < 2 ^ 53 * 2 ^ nat (bitlen b)"
    using b bitlen_bounds[of b] by simp
  also have "\<dots> = 2 ^ (53 + nat (bitlen b))" by (simp add: power_add)
  finally have "bitlen a \<le> 53 + bitlen b"
    using bitlen_le_iff_power[of a "53 + bitlen b"] by (simp add: bitlen_nonneg nat_add_distrib)
  then show ?thesis
    using assms(2) q by (auto simp: f64_shift_def Let_def) (cases "53 - (bitlen a - bitlen b) = 0"; simp)
qed

lemma f64_between:
  assumes "of_int n \<le> x" "x \<le> of_int (n + 1)" "0 \<le> n" "n + 1 < 2 ^ 53"
  shows "of_int n \<le> f64 x \<and> f64 x \<le> of_int (n + 1)"
proof (cases "x \<le> 0")
  case True
  with assms show ?thesis by (simp add: f64_def)
next
  case False
  have "x < 2 ^ 53" using assms(2,4) by (metis le_less_trans of_int_less_iff of_int_numeral of_int_power)
  with False have "0 \<le> f64_shift x" by (simp add: f64_shift_nonneg)
  then obtain e where e: "f64_shift x = int e" by (metis nonneg_int_cases)
  have "of_int (n * 2 ^ e) \<le> x * 2 ^ e" "x * 2 ^ e \<le> of_int ((n + 1) * 2 ^ e)"
    using assms(1,2) by simp_all
  from round_even_bounds[OF this]
  have "n * 2 ^ e \<le> round_even (x * 2 ^ e)" "round_even (x * 2 ^ e) \<le> (n + 1) * 2 ^ e" by simp_all
  then have "(of_int (n * 2 ^ e) :: rat) \<le> of_int (round_even (x * 2 ^ e))"
    "(of_int (round_even (x * 2 ^ e)) :: rat) \<le> of_int ((n + 1) * 2 ^ e)"
    by (simp_all only: of_int_le_iff)
  with False show ?thesis by (simp add: f64_def e field_simps)
qed

lemma Seconds_floor:
  assumes "0 \<le> d" "d < 2 ^ 63"
  shows "d div Second \<le> \<lfloor>Seconds d\<rfloor> \<and> \<lfloor>Seconds d\<rfloor> \<le> d div Second + 1" "0 \<le> Seconds d"
proof -
  let ?n = "d div Second" and ?f = "f64 (of_int (d mod Second) / of_int Second)"
  have f: "0 \<le> ?f \<and> ?f \<le> 1"
    using f64_between[of 0 "of_int (d mod Second) / of_int Second"] by simp
  have n: "0 \<le> ?n" "?n + 1 < 2 ^ 53" using assms by simp_all
  have "of_int ?n \<le> Seconds d \<and> Seconds d \<le> of_int (?n + 1)"
    using f64_between[of ?n "of_int ?n + ?f"] f n assms(1) by (simp add: Seconds_def Let_def)
  then show "d div Second \<le> \<lfloor>Seconds d\<rfloor> \<and> \<lfloor>Seconds d\<rfloor> \<le> d div Second + 1" "0 \<le> Seconds d"
    using n(1) by (auto simp: le_floor_iff floor_le_iff)
qed

end
