(* ===== verification/ListValue.thy ===== *)
theory ListValue
  imports GoStd
begin

text \<open>
  The list values of \<open>internal/storage/list.go\<close>: a growable circular buffer with a
  byte counter. The record and one definition per method of \<open>listValue\<close>, the invariant
  \<open>lv_inv\<close> (the head is inside the buffer, the live elements fit, free slots hold
  the empty string, the byte counter is exact), and the abstraction \<open>contents\<close> to the
  list of live elements. The locale \<open>deque\<close> states what the storage layer relies on;
  the circular buffer is shown to provide it.
\<close>

record listValue =
  lv_buffer :: "string list"
  lv_head :: nat
  lv_size :: nat
  lv_bytes :: int

definition empty_list :: listValue where
  "empty_list = \<lparr>lv_buffer = [], lv_head = 0, lv_size = 0, lv_bytes = 0\<rparr>"

definition lv_Len :: "listValue \<Rightarrow> nat" where
  "lv_Len l = lv_size l"

text \<open>
  \<open>at\<close> and \<open>set\<close> reduce the index modulo the capacity, so they are in range whenever
  the buffer is not empty; Go panics on an empty buffer, a case the callers exclude
  (\<open>lv_slot_in_range\<close> below).
\<close>

definition lv_slot :: "listValue \<Rightarrow> nat \<Rightarrow> nat" where
  "lv_slot l index = (lv_head l + index) mod length (lv_buffer l)"

definition lv_at :: "listValue \<Rightarrow> nat \<Rightarrow> string" where
  "lv_at l index = lv_buffer l ! lv_slot l index"

definition lv_set :: "nat \<Rightarrow> string \<Rightarrow> listValue \<Rightarrow> listValue" where
  "lv_set index value l = l\<lparr>lv_buffer := (lv_buffer l)[lv_slot l index := value]\<rparr>"

definition grow :: "listValue \<Rightarrow> listValue" where
  "grow l =
     (if lv_size l < length (lv_buffer l) then l
      else let capacity = length (lv_buffer l) * 2;
               capacity = (if capacity = 0 then 8 else capacity);
               buffer = fold (\<lambda>i b. b[i := lv_at l i]) [0..<lv_size l] (replicate capacity [])
           in l\<lparr>lv_buffer := buffer, lv_head := 0\<rparr>)"

definition head_left :: "listValue \<Rightarrow> listValue" where
  "head_left l = l\<lparr>lv_head := (lv_head l + length (lv_buffer l) - 1) mod length (lv_buffer l)\<rparr>"

definition head_right :: "listValue \<Rightarrow> listValue" where
  "head_right l = l\<lparr>lv_head := (lv_head l + 1) mod length (lv_buffer l)\<rparr>"

definition push :: "string \<Rightarrow> bool \<Rightarrow> listValue \<Rightarrow> listValue" where
  "push value left l =
     (let l = grow l;
          l = l\<lparr>lv_bytes := lv_bytes l + int (length value)\<rparr>;
          l = (if left then head_left l else lv_set (lv_size l) value l);
          l = (if left then l\<lparr>lv_buffer := (lv_buffer l)[lv_head l := value]\<rparr> else l)
      in l\<lparr>lv_size := lv_size l + 1\<rparr>)"

definition pop :: "bool \<Rightarrow> listValue \<Rightarrow> (string \<times> bool) \<times> listValue" where
  "pop left l =
     (if lv_size l = 0 then (([], False), l)
      else if left then
        let value = lv_at l 0;
            l = l\<lparr>lv_bytes := lv_bytes l - int (length value)\<rparr>;
            l = l\<lparr>lv_buffer := (lv_buffer l)[lv_head l := []]\<rparr>;
            l = head_right l
        in ((value, True), l\<lparr>lv_size := lv_size l - 1\<rparr>)
      else
        let last = lv_size l - 1;
            value = lv_at l last;
            l = l\<lparr>lv_bytes := lv_bytes l - int (length value)\<rparr>;
            l = lv_set last [] l
        in ((value, True), l\<lparr>lv_size := lv_size l - 1\<rparr>))"

text \<open>The two shift loops of \<open>insert\<close> and \<open>removeAt\<close>, over the indices they visit.\<close>

definition shift_down :: "nat list \<Rightarrow> listValue \<Rightarrow> listValue" where
  "shift_down is l = fold (\<lambda>i l. lv_set i (lv_at l (i + 1)) l) is l"

definition shift_up :: "nat list \<Rightarrow> listValue \<Rightarrow> listValue" where
  "shift_up is l = fold (\<lambda>i l. lv_set i (lv_at l (i - 1)) l) is l"

definition lv_insert :: "nat \<Rightarrow> string \<Rightarrow> listValue \<Rightarrow> listValue" where
  "lv_insert index value l =
     (let l = grow l;
          l = l\<lparr>lv_bytes := lv_bytes l + int (length value)\<rparr>;
          l = (if index < lv_size l - index
               then shift_down [0..<index] (head_left l)
               else shift_up (rev [Suc index..<Suc (lv_size l)]) l);
          l = lv_set index value l
      in l\<lparr>lv_size := lv_size l + 1\<rparr>)"

definition removeAt :: "nat \<Rightarrow> listValue \<Rightarrow> listValue" where
  "removeAt index l =
     (let l = l\<lparr>lv_bytes := lv_bytes l - int (length (lv_at l index))\<rparr>;
          l = (if index < lv_size l - index - 1
               then let l = shift_up (rev [1..<Suc index]) l;
                        l = l\<lparr>lv_buffer := (lv_buffer l)[lv_head l := []]\<rparr>
                    in head_right l
               else let l = shift_down [index..<lv_size l - 1] l
                    in lv_set (lv_size l - 1) [] l)
      in l\<lparr>lv_size := lv_size l - 1\<rparr>)"

definition rangeCopy :: "nat \<Rightarrow> nat \<Rightarrow> listValue \<Rightarrow> string list" where
  "rangeCopy start end l = map (lv_at l) [start..<end]"

definition lv_replace :: "string list \<Rightarrow> listValue" where
  "lv_replace items = \<lparr>lv_buffer = items, lv_head = 0, lv_size = length items,
     lv_bytes = fold (\<lambda>item b. b + int (length item)) items 0\<rparr>"

definition assign :: "nat \<Rightarrow> string \<Rightarrow> listValue \<Rightarrow> listValue" where
  "assign index value l =
     (let l = l\<lparr>lv_bytes := lv_bytes l + (int (length value) - int (length (lv_at l index)))\<rparr>
      in lv_set index value l)"

text \<open>\<open>index\<close> resolves a possibly negative \<open>int64\<close> index; \<open>None\<close> is out of range.\<close>

definition lv_index :: "int \<Rightarrow> listValue \<Rightarrow> nat option" where
  "lv_index index l =
     (let length = int (lv_size l);
          index = (if index < 0 then index + length else index)
      in if index < 0 \<or> index \<ge> length then None else Some (nat index))"

definition lv_memorySize :: "listValue \<Rightarrow> int" where
  "lv_memorySize l = int (length (lv_buffer l)) * 16 + lv_bytes l"

subsection \<open>Abstraction and invariant\<close>

abbreviation total_length :: "string list \<Rightarrow> int" where
  "total_length xs \<equiv> sum_list (map (\<lambda>s. int (length s)) xs)"

definition contents :: "listValue \<Rightarrow> string list" where
  "contents l = map (lv_at l) [0..<lv_size l]"

definition lv_inv :: "listValue \<Rightarrow> bool" where
  "lv_inv l \<longleftrightarrow>
     lv_size l \<le> length (lv_buffer l) \<and>
     (if lv_buffer l = [] then lv_head l = 0 else lv_head l < length (lv_buffer l)) \<and>
     lv_bytes l = total_length (contents l) \<and>
     (\<forall>i. lv_size l \<le> i \<and> i < length (lv_buffer l) \<longrightarrow> lv_at l i = [])"


lemma lv_slot_in_range: "lv_buffer l \<noteq> [] \<Longrightarrow> lv_slot l i < length (lv_buffer l)"
  by (simp add: lv_slot_def)

lemma lv_invI:
  assumes "lv_head l < length (lv_buffer l)" "lv_size l \<le> length (lv_buffer l)"
    "length xs = lv_size l" "\<And>i. i < lv_size l \<Longrightarrow> lv_at l i = xs ! i"
    "lv_bytes l = total_length xs"
    "\<And>i. lv_size l \<le> i \<Longrightarrow> i < length (lv_buffer l) \<Longrightarrow> lv_at l i = []"
  shows "lv_inv l \<and> contents l = xs"
proof -
  have "contents l = xs"
    using assms(3,4) by (auto simp: contents_def list_eq_iff_nth_eq)
  with assms show ?thesis by (auto simp: lv_inv_def)
qed

lemma contents_nth: "i < lv_size l \<Longrightarrow> contents l ! i = lv_at l i"
  by (simp add: contents_def)

lemma length_contents [simp]: "length (contents l) = lv_size l"
  by (simp add: contents_def)

lemma lv_at_updates [simp]:
  "lv_at (l\<lparr>lv_bytes := b\<rparr>) i = lv_at l i" "lv_at (l\<lparr>lv_size := n\<rparr>) i = lv_at l i"
  by (simp_all add: lv_at_def lv_slot_def)

lemma lv_set_fields [simp]:
  "length (lv_buffer (lv_set j v l)) = length (lv_buffer l)"
  "lv_head (lv_set j v l) = lv_head l" "lv_size (lv_set j v l) = lv_size l"
  "lv_bytes (lv_set j v l) = lv_bytes l" "lv_buffer (lv_set j v l) = [] \<longleftrightarrow> lv_buffer l = []"
  by (simp_all add: lv_set_def)

lemma lv_at_set:
  assumes "i < length (lv_buffer l)" "j < length (lv_buffer l)"
  shows "lv_at (lv_set j v l) i = (if i = j then v else lv_at l i)"
proof -
  have s: "lv_slot l i < length (lv_buffer l)" "lv_slot l j < length (lv_buffer l)"
    using assms by (auto intro!: lv_slot_in_range)
  have "lv_slot l j = lv_slot l i \<longleftrightarrow> i = j"
    using mod_add_cancel_less[OF assms(2,1)] by (auto simp: lv_slot_def)
  with s show ?thesis
    by (auto simp: lv_at_def lv_set_def lv_slot_def nth_list_update)
qed

lemma head_slot_eq_set:
  "lv_head l < length (lv_buffer l) \<Longrightarrow>
    l\<lparr>lv_buffer := (lv_buffer l)[lv_head l := v]\<rparr> = lv_set 0 v l"
  by (simp add: lv_set_def lv_slot_def)

lemma head_moves_fields [simp]:
  "lv_buffer (head_left l) = lv_buffer l" "lv_size (head_left l) = lv_size l"
  "lv_bytes (head_left l) = lv_bytes l" "lv_buffer (head_right l) = lv_buffer l"
  "lv_size (head_right l) = lv_size l" "lv_bytes (head_right l) = lv_bytes l"
  by (simp_all add: head_left_def head_right_def)

lemma head_moves_in_range [simp]:
  "n = length (lv_buffer l) \<Longrightarrow> 0 < n \<Longrightarrow> lv_head (head_left l) < n"
  "n = length (lv_buffer l) \<Longrightarrow> 0 < n \<Longrightarrow> lv_head (head_right l) < n"
  by (simp_all add: head_left_def head_right_def)

lemma lv_at_head_left:
  assumes "i < length (lv_buffer l)"
  shows "lv_at (head_left l) i = (if i = 0 then lv_at l (length (lv_buffer l) - 1) else lv_at l (i - 1))"
proof -
  let ?n = "length (lv_buffer l)"
  have "lv_slot (head_left l) i = (lv_head l + ?n - 1 + i) mod ?n"
    by (simp add: lv_slot_def head_left_def mod_add_left_eq)
  also have "\<dots> = lv_slot l (if i = 0 then ?n - 1 else i - 1)"
  proof (cases i)
    case 0
    have "0 < ?n" using assms by (rule le_less_trans[OF le0])
    with 0 have "lv_head l + ?n - 1 + i = lv_head l + (?n - 1)" by linarith
    with 0 show ?thesis by (simp add: lv_slot_def)
  next
    case (Suc k)
    with assms have "lv_head l + ?n - 1 + i = (lv_head l + k) + ?n" by simp
    then have *: "(lv_head l + ?n - 1 + i) mod ?n = (lv_head l + k) mod ?n"
      by (simp only: mod_add_self2)
    show ?thesis by (simp only: * lv_slot_def) (simp add: Suc)
  qed
  finally show ?thesis by (simp add: lv_at_def)
qed

lemma lv_at_head_right:
  assumes "i < length (lv_buffer l)"
  shows "lv_at (head_right l) i = (if i = length (lv_buffer l) - 1 then lv_at l 0 else lv_at l (i + 1))"
proof -
  let ?n = "length (lv_buffer l)"
  have "lv_slot (head_right l) i = (lv_head l + (i + 1)) mod ?n"
    by (simp add: lv_slot_def head_right_def mod_add_left_eq mod_Suc_eq)
  also have "\<dots> = lv_slot l (if i = ?n - 1 then 0 else i + 1)"
  proof (cases "i = ?n - 1")
    case True
    with assms have "lv_head l + (i + 1) = lv_head l + ?n" by simp
    with True show ?thesis by (simp add: lv_slot_def)
  next
    case False
    with assms show ?thesis by (simp add: lv_slot_def)
  qed
  finally show ?thesis by (simp add: lv_at_def)
qed

subsection \<open>The shift loops\<close>

lemma shift_fields [simp]:
  "length (lv_buffer (shift_down is l)) = length (lv_buffer l)"
  "lv_head (shift_down is l) = lv_head l" "lv_size (shift_down is l) = lv_size l"
  "lv_bytes (shift_down is l) = lv_bytes l"
  "length (lv_buffer (shift_up is l)) = length (lv_buffer l)"
  "lv_head (shift_up is l) = lv_head l" "lv_size (shift_up is l) = lv_size l"
  "lv_bytes (shift_up is l) = lv_bytes l"
  unfolding shift_down_def shift_up_def by (induction "is" arbitrary: l) auto

lemma lv_at_shift_down:
  assumes "b < length (lv_buffer l)" "i < length (lv_buffer l)"
  shows "lv_at (shift_down [a..<b] l) i = (if a \<le> i \<and> i < b then lv_at l (i + 1) else lv_at l i)"
  using assms
proof (induction b arbitrary: i)
  case 0
  then show ?case by (simp add: shift_down_def)
next
  case (Suc b)
  show ?case
  proof (cases "a \<le> b")
    case True
    let ?m = "shift_down [a..<b] l"
    have "shift_down [a..<Suc b] l = lv_set b (lv_at ?m (b + 1)) ?m"
      using True by (simp add: shift_down_def)
    moreover have "lv_at ?m (b + 1) = lv_at l (b + 1)" "lv_at ?m i = (if a \<le> i \<and> i < b then lv_at l (i + 1) else lv_at l i)"
      using Suc by simp_all
    ultimately show ?thesis
      using Suc.prems True by (auto simp: lv_at_set)
  next
    case False
    then show ?thesis by (auto simp: shift_down_def)
  qed
qed

lemma lv_at_shift_up:
  assumes "b \<le> length (lv_buffer l)" "i < length (lv_buffer l)" "0 < a"
  shows "lv_at (shift_up (rev [a..<b]) l) i = (if a \<le> i \<and> i < b then lv_at l (i - 1) else lv_at l i)"
  using assms
proof (induction b arbitrary: l)
  case 0
  then show ?case by (simp add: shift_up_def)
next
  case (Suc b)
  show ?case
  proof (cases "a \<le> b")
    case True
    let ?m = "lv_set b (lv_at l (b - 1)) l"
    have "shift_up (rev [a..<Suc b]) l = shift_up (rev [a..<b]) ?m"
      using True by (simp add: shift_up_def)
    with Suc True show ?thesis by (auto simp: lv_at_set)
  next
    case False
    then show ?thesis by (auto simp: shift_up_def)
  qed
qed


subsection \<open>Each method on the live elements\<close>

lemma fill_prefix:
  "m \<le> length b \<Longrightarrow> fold (\<lambda>i b. b[i := f i]) [0..<m] b = map f [0..<m] @ drop m b"
proof (induction m)
  case (Suc m)
  then have "fold (\<lambda>i b. b[i := f i]) [0..<Suc m] b = (map f [0..<m] @ drop m b)[m := f m]"
    by simp
  also have "drop m b = b ! m # drop (Suc m) b"
    using Suc.prems by (simp add: Cons_nth_drop_Suc)
  finally show ?case by (simp add: list_update_append)
qed simp

lemma empty_list_inv: "lv_inv empty_list" "contents empty_list = []"
  by (simp_all add: lv_inv_def contents_def empty_list_def)

lemma grow_correct:
  assumes "lv_inv l"
  shows "lv_inv (grow l) \<and> contents (grow l) = contents l"
    and "lv_size (grow l) = lv_size l" "lv_bytes (grow l) = lv_bytes l"
    and "lv_size l < length (lv_buffer (grow l))"
proof -
  show f: "lv_size (grow l) = lv_size l" "lv_bytes (grow l) = lv_bytes l"
    by (simp_all add: grow_def Let_def)
  define c where "c = (if length (lv_buffer l) * 2 = 0 then 8 else length (lv_buffer l) * 2)"
  have g: "grow l = l\<lparr>lv_buffer := map (lv_at l) [0..<lv_size l] @ replicate (c - lv_size l) [], lv_head := 0\<rparr>"
    if "\<not> lv_size l < length (lv_buffer l)"
  proof -
    from assms that have "lv_size l \<le> length (replicate c ([]::string))"
      by (auto simp: lv_inv_def c_def)
    from fill_prefix[OF this, of "lv_at l"] that show ?thesis
      by (simp add: grow_def c_def Let_def)
  qed
  have c: "lv_size l < c" if "\<not> lv_size l < length (lv_buffer l)"
    using assms that by (auto simp: lv_inv_def c_def)
  show "lv_size l < length (lv_buffer (grow l))"
    using c by (cases "lv_size l < length (lv_buffer l)") (simp_all add: g, simp add: grow_def)
  show "lv_inv (grow l) \<and> contents (grow l) = contents l"
  proof (cases "lv_size l < length (lv_buffer l)")
    case True
    with assms show ?thesis by (simp add: grow_def)
  next
    case False
    show ?thesis
      by (rule lv_invI) (use assms c[OF False] in
        \<open>auto simp: g[OF False] contents_nth lv_inv_def nth_append\<close>,
        simp_all add: lv_at_def lv_slot_def nth_append)
  qed
qed

lemma push_correct:
  assumes "lv_inv l"
  shows "lv_inv (push v left l) \<and>
    contents (push v left l) = (if left then v # contents l else contents l @ [v])"
proof -
  let ?g = "grow l"
  note g = grow_correct[OF assms]
  let ?b = "?g\<lparr>lv_bytes := lv_bytes ?g + int (length v)\<rparr>"
  have ne: "lv_buffer ?g \<noteq> []" "lv_head ?g < length (lv_buffer ?g)"
    using g by (auto simp: lv_inv_def split: if_splits)
  have free: "lv_at ?g i = []" if "lv_size l \<le> i" "i < length (lv_buffer ?g)" for i
    using g that by (auto simp: lv_inv_def)
  have at: "lv_at ?g i = contents l ! i" if "i < lv_size l" for i
    using g(1,2) that contents_nth[of i ?g] by simp
  have bytes: "lv_bytes l = total_length (contents l)"
    using assms by (simp add: lv_inv_def)
  show ?thesis
  proof (cases left)
    case True
    then have p: "push v left l = (lv_set 0 v (head_left ?b))\<lparr>lv_size := lv_size l + 1\<rparr>"
      using ne g(2) by (simp add: push_def Let_def lv_set_def lv_slot_def)
    have "lv_inv (push v left l) \<and> contents (push v left l) = v # contents l"
      unfolding p using g ne bytes
      by (intro lv_invI) (auto simp: lv_at_set lv_at_head_left at free nth_Cons')
    with True show ?thesis by simp
  next
    case False
    then have p: "push v left l = (lv_set (lv_size l) v ?b)\<lparr>lv_size := lv_size l + 1\<rparr>"
      using g(2) by (simp add: push_def Let_def)
    have "lv_inv (push v left l) \<and> contents (push v left l) = contents l @ [v]"
      unfolding p using g ne bytes
      by (intro lv_invI) (auto simp: lv_at_set at free nth_append)
    with False show ?thesis by simp
  qed
qed


lemma lv_invD:
  assumes "lv_inv l"
  shows "lv_size l \<le> length (lv_buffer l)" "lv_bytes l = total_length (contents l)"
    and "lv_size l \<le> i \<Longrightarrow> i < length (lv_buffer l) \<Longrightarrow> lv_at l i = []"
    and "lv_size l \<noteq> 0 \<Longrightarrow> lv_buffer l \<noteq> []"
    and "lv_buffer l \<noteq> [] \<Longrightarrow> lv_head l < length (lv_buffer l)"
  using assms by (auto simp: lv_inv_def split: if_splits)

lemma contents_Nil_iff: "contents l = [] \<longleftrightarrow> lv_size l = 0"
  by (metis length_contents length_0_conv)

lemma lv_at_hd: "lv_size l \<noteq> 0 \<Longrightarrow> lv_at l 0 = hd (contents l)"
  and lv_at_last: "lv_size l \<noteq> 0 \<Longrightarrow> lv_at l (lv_size l - 1) = last (contents l)"
  using contents_nth[of 0 l] contents_nth[of "lv_size l - 1" l] contents_Nil_iff[of l]
  by (simp_all add: hd_conv_nth last_conv_nth)

lemma pop_left_correct:
  assumes "lv_inv l" "lv_size l \<noteq> 0"
  shows "lv_inv (snd (pop True l)) \<and> contents (snd (pop True l)) = tl (contents l)"
proof -
  let ?b = "l\<lparr>lv_bytes := lv_bytes l - int (length (lv_at l 0))\<rparr>"
  note d = lv_invD[OF assms(1)]
  have p: "snd (pop True l) = (head_right (lv_set 0 [] ?b))\<lparr>lv_size := lv_size l - 1\<rparr>"
    using assms d(4,5) by (simp add: pop_def Let_def lv_set_def lv_slot_def)
  have b: "total_length (contents l) = int (length (lv_at l 0)) + total_length (tl (contents l))"
    using assms(2) by (simp add: lv_at_hd sum_list_hd_tl contents_Nil_iff)
  show ?thesis
    unfolding p using assms(2) d(1,2,4) b
    by (intro lv_invI) (auto simp: lv_at_set lv_at_head_right d(3) nth_tl contents_nth)
qed

lemma pop_right_correct:
  assumes "lv_inv l" "lv_size l \<noteq> 0"
  shows "lv_inv (snd (pop False l)) \<and> contents (snd (pop False l)) = butlast (contents l)"
proof -
  let ?k = "lv_size l - 1"
  let ?b = "l\<lparr>lv_bytes := lv_bytes l - int (length (lv_at l ?k))\<rparr>"
  note d = lv_invD[OF assms(1)]
  have p: "snd (pop False l) = (lv_set ?k [] ?b)\<lparr>lv_size := ?k\<rparr>"
    using assms by (simp add: pop_def Let_def)
  have b: "total_length (contents l) = total_length (butlast (contents l)) + int (length (lv_at l ?k))"
    using assms(2) by (simp add: lv_at_last sum_list_butlast_last contents_Nil_iff del: One_nat_def)
  show ?thesis
    unfolding p using assms(2) d(1,2,4,5) b
    by (intro lv_invI) (auto simp: lv_at_set d(3) nth_butlast contents_nth)
qed

lemma pop_correct:
  assumes "lv_inv l"
  shows "fst (pop left l) = (case contents l of [] \<Rightarrow> ([], False)
      | x # xs \<Rightarrow> (if left then x else last (x # xs), True))"
    and "lv_inv (snd (pop left l)) \<and>
      contents (snd (pop left l)) = (if left then tl (contents l) else butlast (contents l))"
proof -
  show "fst (pop left l) = (case contents l of [] \<Rightarrow> ([], False)
      | x # xs \<Rightarrow> (if left then x else last (x # xs), True))"
    using lv_at_hd[of l] lv_at_last[of l] contents_Nil_iff[of l]
    by (cases "contents l") (simp_all add: pop_def Let_def)
  show "lv_inv (snd (pop left l)) \<and>
      contents (snd (pop left l)) = (if left then tl (contents l) else butlast (contents l))"
  proof (cases "lv_size l = 0")
    case True
    with assms contents_Nil_iff[of l] show ?thesis by (simp add: pop_def)
  next
    case False
    with assms pop_left_correct[of l] pop_right_correct[of l] show ?thesis by (cases left) simp_all
  qed
qed


lemma nth_insert_at:
  assumes "k \<le> length xs" "i \<le> length xs"
  shows "(take k xs @ v # drop k xs) ! i = (if i < k then xs ! i else if i = k then v else xs ! (i - 1))"
  using assms by (auto simp: nth_append nth_Cons')

lemma insert_correct:
  assumes "lv_inv l" "k \<le> lv_size l"
  shows "lv_inv (lv_insert k v l) \<and>
    contents (lv_insert k v l) = take k (contents l) @ v # drop k (contents l)"
proof -
  let ?g = "grow l"
  note g = grow_correct[OF assms(1)]
  note d = lv_invD[OF conjunct1[OF g(1)]]
  let ?b = "?g\<lparr>lv_bytes := lv_bytes ?g + int (length v)\<rparr>"
  have at: "lv_at ?g i = contents l ! i" if "i < lv_size l" for i
    using g(1,2) that contents_nth[of i ?g] by simp
  have ne: "lv_buffer ?g \<noteq> []" using g(4) by auto
  have bytes: "total_length (take k (contents l) @ v # drop k (contents l))
      = total_length (contents l) + int (length v)"
    by (rule sum_list_insert_at)
  show ?thesis
  proof (cases "k < lv_size l - k")
    case True
    then have p: "lv_insert k v l = (lv_set k v (shift_down [0..<k] (head_left ?b)))\<lparr>lv_size := lv_size l + 1\<rparr>"
      using g(2) by (simp add: lv_insert_def Let_def)
    show ?thesis
      unfolding p using assms(2) g(2-4) d(2,5) g(1) ne bytes True
      by (intro lv_invI)
        (auto simp: lv_at_set lv_at_shift_down lv_at_head_left at d(3) nth_insert_at)
  next
    case False
    then have p: "lv_insert k v l = (lv_set k v (shift_up (rev [Suc k..<Suc (lv_size l)]) ?b))\<lparr>lv_size := lv_size l + 1\<rparr>"
      using g(2) by (simp add: lv_insert_def Let_def)
    show ?thesis
      unfolding p using assms(2) g(2-4) d(2,5) g(1) ne bytes
      by (intro lv_invI)
        (auto simp: lv_at_set lv_at_shift_up at d(3) nth_insert_at simp del: upt_Suc)
  qed
qed


lemma nth_remove_at:
  "k < length xs \<Longrightarrow> i < length xs - 1 \<Longrightarrow>
    (take k xs @ drop (Suc k) xs) ! i = (if i < k then xs ! i else xs ! (i + 1))"
  by (auto simp: nth_append)

lemma removeAt_correct:
  assumes "lv_inv l" "k < lv_size l"
  shows "lv_inv (removeAt k l) \<and>
    contents (removeAt k l) = take k (contents l) @ drop (Suc k) (contents l)"
proof -
  note d = lv_invD[OF assms(1)]
  let ?b = "l\<lparr>lv_bytes := lv_bytes l - int (length (lv_at l k))\<rparr>"
  have ne: "lv_buffer l \<noteq> []" using d(4) assms(2) by auto
  have bytes: "total_length (take k (contents l) @ drop (Suc k) (contents l))
      = total_length (contents l) - int (length (lv_at l k))"
    using assms(2) by (simp only: sum_list_remove_nth length_contents contents_nth)
  show ?thesis
  proof (cases "k < lv_size l - k - 1")
    case True
    then have p: "removeAt k l = (head_right (lv_set 0 [] (shift_up (rev [1..<Suc k]) ?b)))\<lparr>lv_size := lv_size l - 1\<rparr>"
      using d(5) ne by (simp add: removeAt_def Let_def lv_set_def lv_slot_def del: upt_Suc)
    show ?thesis
      unfolding p using assms(2) d(1,2,5) ne bytes
      by (intro lv_invI)
        (auto simp: lv_at_set lv_at_shift_up lv_at_head_right d(3) nth_remove_at contents_nth
          simp del: upt_Suc)
  next
    case False
    then have p: "removeAt k l = (lv_set (lv_size l - 1) [] (shift_down [k..<lv_size l - 1] ?b))\<lparr>lv_size := lv_size l - 1\<rparr>"
      by (simp add: removeAt_def Let_def)
    show ?thesis
      unfolding p using assms(2) d(1,2,5) ne bytes
      by (intro lv_invI)
        (auto simp: lv_at_set lv_at_shift_down d(3) nth_remove_at contents_nth)
  qed
qed

lemma rangeCopy_correct:
  "e \<le> lv_size l \<Longrightarrow> rangeCopy s e l = take (e - s) (drop s (contents l))"
  by (auto simp: rangeCopy_def list_eq_iff_nth_eq contents_nth)

lemma fold_total_length: "fold (\<lambda>item b. b + int (length item)) items c = c + total_length items"
  by (induction items arbitrary: c) auto

lemma replace_correct:
  "lv_inv (lv_replace items) \<and> contents (lv_replace items) = items"
proof -
  have c: "contents (lv_replace items) = items"
    unfolding contents_def by (rule nth_equalityI) (simp_all add: lv_replace_def lv_at_def lv_slot_def)
  show ?thesis
    unfolding lv_inv_def c by (auto simp: lv_replace_def fold_total_length)
qed

lemma assign_correct:
  assumes "lv_inv l" "k < lv_size l"
  shows "lv_inv (assign k v l) \<and> contents (assign k v l) = (contents l)[k := v]"
proof -
  note d = lv_invD[OF assms(1)]
  have "total_length ((contents l)[k := v]) = total_length (contents l) - int (length (lv_at l k)) + int (length v)"
    using assms(2) by (simp only: sum_list_update_length length_contents contents_nth)
  with assms(2) d(1,2,5) d(4) show ?thesis
    by (intro lv_invI) (auto simp: assign_def Let_def lv_at_set d(3) nth_list_update contents_nth)
qed

lemma lv_index_Some:
  "lv_index i l = Some k \<longleftrightarrow>
    k < lv_size l \<and> (int k = i \<or> (i < 0 \<and> int k = i + int (lv_size l)))"
  by (auto simp: lv_index_def Let_def)

subsection \<open>The interface the storage layer relies on\<close>

text \<open>The loop of \<open>ListPop\<close>: \<open>n\<close> pops, the values collected in order.\<close>

fun pop_loop :: "('l \<Rightarrow> (string \<times> bool) \<times> 'l) \<Rightarrow> nat \<Rightarrow> 'l \<Rightarrow> string list \<times> 'l" where
  "pop_loop p 0 l = ([], l)"
| "pop_loop p (Suc n) l =
     (let ((v, _), l1) = p l; (vs, l2) = pop_loop p n l1 in (v # vs, l2))"

lemma pop_loop_Suc:
  "fst (pop_loop p (Suc n) l) = fst (fst (p l)) # fst (pop_loop p n (snd (p l)))"
  "snd (pop_loop p (Suc n) l) = snd (pop_loop p n (snd (p l)))"
  by (simp_all add: split_beta Let_def)

lemma tl_rev_take: "tl (rev xs) = rev (take (length xs - 1) xs)"
  by (cases xs rule: rev_cases) auto

locale deque =
  fixes inv :: "'l \<Rightarrow> bool"
    and elems :: "'l \<Rightarrow> string list"
    and empty :: 'l
    and len :: "'l \<Rightarrow> nat"
    and get :: "'l \<Rightarrow> nat \<Rightarrow> string"
    and push_end :: "string \<Rightarrow> bool \<Rightarrow> 'l \<Rightarrow> 'l"
    and pop_end :: "bool \<Rightarrow> 'l \<Rightarrow> (string \<times> bool) \<times> 'l"
    and ins :: "nat \<Rightarrow> string \<Rightarrow> 'l \<Rightarrow> 'l"
    and del :: "nat \<Rightarrow> 'l \<Rightarrow> 'l"
    and upd :: "nat \<Rightarrow> string \<Rightarrow> 'l \<Rightarrow> 'l"
  assumes inv_empty: "inv empty" and elems_empty: "elems empty = []"
    and len_elems: "len l = length (elems l)"
    and get_elems: "inv l \<Longrightarrow> i < len l \<Longrightarrow> get l i = elems l ! i"
    and inv_push: "inv l \<Longrightarrow> inv (push_end v left l)"
    and elems_push: "inv l \<Longrightarrow> elems (push_end v left l) = (if left then v # elems l else elems l @ [v])"
    and pop_value: "inv l \<Longrightarrow> elems l \<noteq> [] \<Longrightarrow>
      fst (pop_end left l) = (if left then hd (elems l) else last (elems l), True)"
    and inv_pop: "inv l \<Longrightarrow> inv (snd (pop_end left l))"
    and elems_pop: "inv l \<Longrightarrow>
      elems (snd (pop_end left l)) = (if left then tl (elems l) else butlast (elems l))"
    and inv_ins: "inv l \<Longrightarrow> k \<le> len l \<Longrightarrow> inv (ins k v l)"
    and elems_ins: "inv l \<Longrightarrow> k \<le> len l \<Longrightarrow> elems (ins k v l) = take k (elems l) @ v # drop k (elems l)"
    and inv_del: "inv l \<Longrightarrow> k < len l \<Longrightarrow> inv (del k l)"
    and elems_del: "inv l \<Longrightarrow> k < len l \<Longrightarrow> elems (del k l) = take k (elems l) @ drop (Suc k) (elems l)"
    and inv_upd: "inv l \<Longrightarrow> k < len l \<Longrightarrow> inv (upd k v l)"
    and elems_upd: "inv l \<Longrightarrow> k < len l \<Longrightarrow> elems (upd k v l) = (elems l)[k := v]"
begin

lemma push_all:
  assumes "inv l"
  shows "inv (fold (\<lambda>v. push_end v left) vs l) \<and>
    elems (fold (\<lambda>v. push_end v left) vs l) = (if left then rev vs @ elems l else elems l @ vs)"
  using assms by (induction vs arbitrary: l) (auto simp: inv_push elems_push)

lemma pop_many:
  assumes "inv l" "n \<le> len l"
  shows "fst (pop_loop (pop_end left) n l) = take n (if left then elems l else rev (elems l)) \<and>
    inv (snd (pop_loop (pop_end left) n l)) \<and>
    elems (snd (pop_loop (pop_end left) n l)) =
      (if left then drop n (elems l) else take (len l - n) (elems l))"
  using assms
proof (induction n arbitrary: l)
  case 0
  then show ?case by (simp add: len_elems)
next
  case (Suc n)
  let ?l = "snd (pop_end left l)"
  have ne: "elems l \<noteq> []" and step: "inv ?l" "n \<le> len ?l"
    using Suc.prems by (auto simp: inv_pop len_elems elems_pop)
  from Suc.IH[OF step] pop_value[OF Suc.prems(1) ne, of left] Suc.prems ne show ?case
    by (cases left)
      (simp_all add: pop_loop_Suc take_Suc elems_pop len_elems drop_Suc butlast_conv_take
        tl_rev_take hd_rev
        del: pop_loop.simps)
qed

end

interpretation dq: deque lv_inv contents empty_list lv_Len lv_at push pop lv_insert removeAt assign
proof unfold_locales
  fix l left
  assume "lv_inv l" "contents l \<noteq> []"
  then show "fst (pop left l) = (if left then hd (contents l) else last (contents l), True)"
    using pop_correct(1)[of l left] by (cases "contents l") auto
qed (simp_all add: empty_list_inv push_correct pop_correct insert_correct removeAt_correct
    assign_correct lv_Len_def contents_nth)

end
