(* ===== verification/KeyIndex.thy ===== *)
theory KeyIndex
  imports Prelude
begin

text \<open>
  The key indexes of \<open>internal/storage/memory.go\<close>: a slice of keys with a position
  map, so that adding, removing and picking the key at a random position are constant
  time. A nil \<open>pos\<close> map reads like an empty one and is the empty map here. The
  invariant says that \<open>pos\<close> is exactly the inverse of the slice; the locale
  \<open>key_set\<close> is the set-like contract the shards rely on.
\<close>

record keyIndex =
  ix_keys :: "key list"
  ix_pos :: "key \<rightharpoonup> nat"

definition empty_index :: keyIndex where
  "empty_index = \<lparr>ix_keys = [], ix_pos = Map.empty\<rparr>"

definition ix_size :: "keyIndex \<Rightarrow> nat" where
  "ix_size ix = length (ix_keys ix)"

definition ix_at :: "keyIndex \<Rightarrow> nat \<Rightarrow> key" where
  "ix_at ix i = ix_keys ix ! i"

definition ix_add :: "key \<Rightarrow> keyIndex \<Rightarrow> keyIndex" where
  "ix_add key ix =
     (case ix_pos ix key of
        Some _ \<Rightarrow> ix
      | None \<Rightarrow> ix\<lparr>ix_pos := (ix_pos ix)(key \<mapsto> length (ix_keys ix)), ix_keys := ix_keys ix @ [key]\<rparr>)"

definition ix_remove :: "key \<Rightarrow> keyIndex \<Rightarrow> keyIndex" where
  "ix_remove key ix =
     (case ix_pos ix key of
        None \<Rightarrow> ix
      | Some i \<Rightarrow>
          let last = length (ix_keys ix) - 1;
              moved = ix_keys ix ! last;
              keys = (ix_keys ix)[i := moved];
              pos = (ix_pos ix)(moved \<mapsto> i)
          in ix\<lparr>ix_keys := take last keys, ix_pos := pos(key := None)\<rparr>)"

definition ix_inv :: "keyIndex \<Rightarrow> bool" where
  "ix_inv ix \<longleftrightarrow> (\<forall>k i. ix_pos ix k = Some i \<longleftrightarrow> i < length (ix_keys ix) \<and> ix_keys ix ! i = k)"

definition ix_members :: "keyIndex \<Rightarrow> key set" where
  "ix_members ix = set (ix_keys ix)"

lemma ix_pos_Some: "ix_inv ix \<Longrightarrow> ix_pos ix k = Some i \<longleftrightarrow> i < length (ix_keys ix) \<and> ix_keys ix ! i = k"
  by (simp add: ix_inv_def)

lemma ix_pos_None: "ix_inv ix \<Longrightarrow> ix_pos ix k = None \<longleftrightarrow> k \<notin> set (ix_keys ix)"
  by (metis in_set_conv_nth ix_pos_Some not_None_eq)

lemma ix_distinct:
  assumes "ix_inv ix"
  shows "distinct (ix_keys ix)"
  unfolding distinct_conv_nth
proof (intro allI impI)
  fix i j
  assume ij: "i < length (ix_keys ix)" "j < length (ix_keys ix)" "i \<noteq> j"
  then have "ix_pos ix (ix_keys ix ! i) = Some i" "ix_pos ix (ix_keys ix ! j) = Some j"
    using ix_pos_Some[OF assms] by auto
  with ij(3) show "ix_keys ix ! i \<noteq> ix_keys ix ! j" by auto
qed

lemma ix_add_correct:
  assumes "ix_inv ix"
  shows "ix_inv (ix_add k ix)" "set (ix_keys (ix_add k ix)) = insert k (set (ix_keys ix))"
proof -
  show "set (ix_keys (ix_add k ix)) = insert k (set (ix_keys ix))"
    using ix_pos_None[OF assms, of k] by (auto simp: ix_add_def split: option.splits)
  show "ix_inv (ix_add k ix)"
  proof (cases "ix_pos ix k")
    case None
    then have "k \<notin> set (ix_keys ix)" using ix_pos_None[OF assms] by simp
    with None assms show ?thesis
      by (auto simp: ix_add_def ix_inv_def nth_append less_Suc_eq)
  next
    case Some
    with assms show ?thesis by (simp add: ix_add_def)
  qed
qed

lemma ix_remove_correct:
  assumes "ix_inv ix"
  shows "ix_inv (ix_remove k ix)" "set (ix_keys (ix_remove k ix)) = set (ix_keys ix) - {k}"
proof -
  let ?ks = "ix_keys ix"
  have *: "ix_inv (ix_remove k ix) \<and> set (ix_keys (ix_remove k ix)) = set ?ks - {k}"
  proof (cases "ix_pos ix k")
    case None
    then have "k \<notin> set ?ks" using ix_pos_None[OF assms] by simp
    with None assms show ?thesis by (simp add: ix_remove_def)
  next
    case (Some i)
    then have i: "i < length ?ks" "?ks ! i = k" using ix_pos_Some[OF assms] by auto
    then obtain ys y where ks: "?ks = ys @ [y]" by (cases ?ks rule: rev_cases) auto
    have r: "ix_remove k ix = ix\<lparr>ix_keys := ys[i := y], ix_pos := (ix_pos ix)(y \<mapsto> i, k := None)\<rparr>"
      using Some i by (simp add: ix_remove_def ks Let_def list_update_append list_update_beyond split: nat.splits)
    have d: "distinct ys" "y \<notin> set ys" using ix_distinct[OF assms] ks by auto
    have p: "ix_pos ix q = Some j \<longleftrightarrow> j < length ys \<and> ys ! j = q \<or> j = length ys \<and> y = q" for q j
      using ix_pos_Some[OF assms] by (auto simp: ks nth_append)
    show ?thesis
    proof (cases "i = length ys")
      case True
      with i d have "y = k" by (simp add: ks)
      with True d show ?thesis
        by (auto simp: r ix_inv_def p ks list_update_beyond)
    next
      case False
      with i have i': "i < length ys" "ys ! i = k" by (auto simp: ks nth_append)
      then have "set (ys[i := y]) = insert y (set ys - {k})"
        using d set_update_distinct[of ys i y] by simp
      moreover have "y \<noteq> k" using i' d by auto
      moreover have "ix_inv (ix_remove k ix)"
        unfolding ix_inv_def r
        using i' d \<open>y \<noteq> k\<close> nth_eq_iff_index_eq[OF d(1)]
        by (auto simp: p nth_list_update)
      ultimately show ?thesis using i' by (auto simp: r ks)
    qed
  qed
  then show "ix_inv (ix_remove k ix)" "set (ix_keys (ix_remove k ix)) = set ?ks - {k}" by auto
qed

locale key_set =
  fixes inv :: "'ix \<Rightarrow> bool"
    and members :: "'ix \<Rightarrow> key set"
    and size_of :: "'ix \<Rightarrow> nat"
    and pick :: "'ix \<Rightarrow> nat \<Rightarrow> key"
    and add :: "key \<Rightarrow> 'ix \<Rightarrow> 'ix"
    and remove :: "key \<Rightarrow> 'ix \<Rightarrow> 'ix"
  assumes inv_add: "inv ix \<Longrightarrow> inv (add k ix)"
    and inv_remove: "inv ix \<Longrightarrow> inv (remove k ix)"
    and members_add: "inv ix \<Longrightarrow> members (add k ix) = insert k (members ix)"
    and members_remove: "inv ix \<Longrightarrow> members (remove k ix) = members ix - {k}"
    and members_pick: "inv ix \<Longrightarrow> members ix = pick ix ` {..<size_of ix}"
    and size_members: "inv ix \<Longrightarrow> size_of ix = card (members ix)"
begin

lemma remove_all:
  "inv ix \<Longrightarrow> inv (fold remove ks ix) \<and> members (fold remove ks ix) = members ix - set ks"
  by (induction ks arbitrary: ix) (auto simp: inv_remove members_remove)

lemma pick_member: "inv ix \<Longrightarrow> i < size_of ix \<Longrightarrow> pick ix i \<in> members ix"
  by (simp add: members_pick)

lemma pick_reaches: "inv ix \<Longrightarrow> k \<in> members ix \<Longrightarrow> \<exists>i < size_of ix. pick ix i = k"
  by (auto simp: members_pick)

lemma size_zero_iff: "inv ix \<Longrightarrow> size_of ix = 0 \<longleftrightarrow> members ix = {}"
  by (auto simp: members_pick)

end

interpretation ks: key_set ix_inv ix_members ix_size ix_at ix_add ix_remove
proof unfold_locales
  fix ix
  assume "ix_inv ix"
  then show "ix_size ix = card (ix_members ix)"
    by (simp add: ix_size_def ix_members_def distinct_card ix_distinct)
next
  fix ix
  show "ix_members ix = ix_at ix ` {..<ix_size ix}"
    by (auto simp: ix_members_def ix_at_def ix_size_def set_conv_nth)
qed (simp_all add: ix_members_def ix_add_correct ix_remove_correct)

lemma empty_index_inv [simp]: "ix_inv empty_index" "ix_members empty_index = {}" "ix_size empty_index = 0"
  by (simp_all add: ix_inv_def ix_members_def ix_size_def empty_index_def)

end
