(* ===== verification/KvSpec.thy ===== *)
theory KvSpec
  imports GoStd
begin

text \<open>
  The abstract specification of the store: a finite map from keys to a string or a list
  of strings with an optional deadline. Each function says what one storage operation
  returns and how it changes the map, without shards, circular buffers, indexes,
  access stamps or memory accounting. A key whose deadline has passed is gone: an
  operation first purges the key it works on at the time it reads. The storage theories
  show that the implementation refines these functions.
\<close>

datatype store_error = ErrWrongType | ErrNoSuchKey | ErrListIndexRange | ErrInvalidRank

datatype aval = AStr string | AList "string list"

type_synonym aentry = "aval \<times> time option"
type_synonym amap = "key \<rightharpoonup> aentry"

definition expired :: "time \<Rightarrow> aentry \<Rightarrow> bool" where
  "expired now e = (case snd e of None \<Rightarrow> False | Some d \<Rightarrow> d \<le> now)"

definition purge :: "time \<Rightarrow> key \<Rightarrow> amap \<Rightarrow> amap" where
  "purge now k m = (case m k of None \<Rightarrow> m | Some e \<Rightarrow> if expired now e then m(k := None) else m)"

definition store_list :: "key \<Rightarrow> string list \<Rightarrow> time option \<Rightarrow> amap \<Rightarrow> amap" where
  "store_list k xs d m = m(k := if xs = [] then None else Some (AList xs, d))"

subsection \<open>Strings and expiration\<close>

definition spec_set :: "key \<Rightarrow> string \<Rightarrow> time option \<Rightarrow> amap \<Rightarrow> amap" where
  "spec_set k v d m = m(k \<mapsto> (AStr v, d))"

definition spec_setAt :: "time \<Rightarrow> key \<Rightarrow> string \<Rightarrow> time \<Rightarrow> amap \<Rightarrow> amap" where
  "spec_setAt now k v d m = (if d \<le> now then m(k := None) else m(k \<mapsto> (AStr v, Some d)))"

definition spec_get :: "time \<Rightarrow> key \<Rightarrow> amap \<Rightarrow> (store_error + string option) \<times> amap" where
  "spec_get now k m =
     (let m = purge now k m
      in (case m k of
            None \<Rightarrow> Inr None
          | Some (AStr v, _) \<Rightarrow> Inr (Some v)
          | Some (AList _, _) \<Rightarrow> Inl ErrWrongType, m))"

definition spec_del :: "time \<Rightarrow> key \<Rightarrow> amap \<Rightarrow> bool \<times> amap" where
  "spec_del now k m = (purge now k m k \<noteq> None, m(k := None))"

definition spec_expireAt :: "time \<Rightarrow> key \<Rightarrow> time \<Rightarrow> amap \<Rightarrow> bool \<times> amap" where
  "spec_expireAt now k d m =
     (let m = purge now k m
      in case m k of
           None \<Rightarrow> (False, m)
         | Some (v, _) \<Rightarrow> (True, if d \<le> now then m(k := None) else m(k \<mapsto> (v, Some d))))"

text \<open>The remaining lifetime in seconds; -1 without a deadline, -2 without a key.\<close>

definition spec_ttl :: "time \<Rightarrow> key \<Rightarrow> amap \<Rightarrow> int \<times> amap" where
  "spec_ttl now k m =
     (let m = purge now k m
      in (case m k of
            None \<Rightarrow> -2
          | Some (_, None) \<Rightarrow> -1
          | Some (_, Some d) \<Rightarrow> \<lfloor>Seconds (Sub d now)\<rfloor>, m))"

subsection \<open>Lists\<close>

text \<open>An operation on an existing list; missing keys and strings are the other two cases.\<close>

definition on_list ::
  "time \<Rightarrow> key \<Rightarrow> 'a \<Rightarrow> (string list \<Rightarrow> time option \<Rightarrow> amap \<Rightarrow> 'a \<times> amap) \<Rightarrow> amap \<Rightarrow> (store_error + 'a) \<times> amap"
where
  "on_list now k missing f m =
     (let m = purge now k m
      in case m k of
           None \<Rightarrow> (Inr missing, m)
         | Some (AStr _, _) \<Rightarrow> (Inl ErrWrongType, m)
         | Some (AList xs, d) \<Rightarrow> let (r, m) = f xs d m in (Inr r, m))"

definition add_ends :: "string list \<Rightarrow> bool \<Rightarrow> string list \<Rightarrow> string list" where
  "add_ends vs left xs = (if left then rev vs @ xs else xs @ vs)"

definition spec_push :: "time \<Rightarrow> key \<Rightarrow> string list \<Rightarrow> bool \<Rightarrow> bool \<Rightarrow> amap \<Rightarrow> (store_error + int) \<times> amap" where
  "spec_push now k vs left onlyExisting m =
     (if purge now k m k = None \<and> \<not> onlyExisting
      then (Inr (int (length vs)), (purge now k m)(k \<mapsto> (AList (add_ends vs left []), None)))
      else on_list now k 0
        (\<lambda>xs d m. (int (length xs + length vs), store_list k (add_ends vs left xs) d m)) m)"

definition spec_pop :: "time \<Rightarrow> key \<Rightarrow> bool \<Rightarrow> nat \<Rightarrow> amap \<Rightarrow> (store_error + string list) \<times> amap" where
  "spec_pop now k left n m =
     on_list now k []
       (\<lambda>xs d m. (take n (if left then xs else rev xs),
          store_list k (if left then drop n xs else take (length xs - n) xs) d m)) m"

definition spec_len :: "time \<Rightarrow> key \<Rightarrow> amap \<Rightarrow> (store_error + int) \<times> amap" where
  "spec_len now k m = on_list now k 0 (\<lambda>xs d m. (int (length xs), m)) m"

text \<open>The elements whose positions lie between two possibly negative bounds.\<close>

definition from_end :: "int \<Rightarrow> nat \<Rightarrow> int" where
  "from_end i n = (if i < 0 then i + int n else i)"

definition slice :: "int \<Rightarrow> int \<Rightarrow> string list \<Rightarrow> string list" where
  "slice start stop xs =
     nths xs {i. from_end start (length xs) \<le> int i \<and> int i \<le> from_end stop (length xs)}"

definition spec_range :: "time \<Rightarrow> key \<Rightarrow> int \<Rightarrow> int \<Rightarrow> amap \<Rightarrow> (store_error + string list) \<times> amap" where
  "spec_range now k start stop m = on_list now k [] (\<lambda>xs d m. (slice start stop xs, m)) m"

definition spec_trim :: "time \<Rightarrow> key \<Rightarrow> int \<Rightarrow> int \<Rightarrow> amap \<Rightarrow> (store_error + unit) \<times> amap" where
  "spec_trim now k start stop m =
     on_list now k () (\<lambda>xs d m. ((), store_list k (slice start stop xs) d m)) m"

definition position :: "int \<Rightarrow> string list \<Rightarrow> nat option" where
  "position i xs =
     (let j = from_end i (length xs) in if 0 \<le> j \<and> j < int (length xs) then Some (nat j) else None)"

definition spec_index :: "time \<Rightarrow> key \<Rightarrow> int \<Rightarrow> amap \<Rightarrow> (store_error + string option) \<times> amap" where
  "spec_index now k i m =
     on_list now k None (\<lambda>xs d m. (map_option ((!) xs) (position i xs), m)) m"

definition spec_lset :: "time \<Rightarrow> key \<Rightarrow> int \<Rightarrow> string \<Rightarrow> amap \<Rightarrow> store_error option \<times> amap" where
  "spec_lset now k i v m =
     (let m = purge now k m
      in case m k of
           None \<Rightarrow> (Some ErrNoSuchKey, m)
         | Some (AStr _, _) \<Rightarrow> (Some ErrWrongType, m)
         | Some (AList xs, d) \<Rightarrow>
             (case position i xs of
                None \<Rightarrow> (Some ErrListIndexRange, m)
              | Some j \<Rightarrow> (None, m(k \<mapsto> (AList (xs[j := v]), d)))))"

text \<open>Removing the first \<open>n\<close> occurrences of a value.\<close>

fun remove_n :: "nat \<Rightarrow> string \<Rightarrow> string list \<Rightarrow> string list" where
  "remove_n 0 v xs = xs"
| "remove_n (Suc n) v [] = []"
| "remove_n (Suc n) v (x # xs) = (if x = v then remove_n n v xs else x # remove_n (Suc n) v xs)"

definition rem_limit :: "int \<Rightarrow> nat" where
  "rem_limit count = (if count = - (2 ^ 63) then 2 ^ 63 - 1 else nat \<bar>count\<bar>)"

definition remove_occurrences :: "int \<Rightarrow> string \<Rightarrow> string list \<Rightarrow> string list" where
  "remove_occurrences count v xs =
     (if count = 0 then filter (\<lambda>x. x \<noteq> v) xs
      else if count > 0 then remove_n (rem_limit count) v xs
      else rev (remove_n (rem_limit count) v (rev xs)))"

definition spec_rem :: "time \<Rightarrow> key \<Rightarrow> int \<Rightarrow> string \<Rightarrow> amap \<Rightarrow> (store_error + int) \<times> amap" where
  "spec_rem now k count v m =
     on_list now k 0 (\<lambda>xs d m.
       let ys = remove_occurrences count v xs
       in (int (length xs) - int (length ys), store_list k ys d m)) m"

definition spec_insert :: "time \<Rightarrow> key \<Rightarrow> string \<Rightarrow> string \<Rightarrow> bool \<Rightarrow> amap \<Rightarrow> (store_error + int) \<times> amap" where
  "spec_insert now k pivot v before m =
     on_list now k 0 (\<lambda>xs d m.
       if pivot \<notin> set xs then (-1, m)
       else let i = length (takeWhile (\<lambda>x. x \<noteq> pivot) xs);
                j = (if before then i else i + 1)
            in (int (length xs) + 1, m(k \<mapsto> (AList (take j xs @ v # drop j xs), d)))) m"

text \<open>
  The positions of a value: scan from the left (positive rank) or from the right
  (negative rank), look at no more than \<open>maxLen\<close> elements, skip the first
  \<open>|rank| - 1\<close> matches, report no more than \<open>count\<close>; a bound of 0 is no bound.
\<close>

definition bounded :: "int \<Rightarrow> 'a list \<Rightarrow> 'a list" where
  "bounded n xs = (if n > 0 then take (nat n) xs else xs)"

definition positions :: "string \<Rightarrow> int \<Rightarrow> int \<Rightarrow> int \<Rightarrow> string list \<Rightarrow> nat list" where
  "positions v rank count maxLen xs =
     (let is = (if rank < 0 then rev [0..<length xs] else [0..<length xs]);
          matches = filter (\<lambda>i. xs ! i = v) (bounded maxLen is)
      in bounded count (drop (nat \<bar>rank\<bar> - 1) matches))"

definition spec_position ::
  "time \<Rightarrow> key \<Rightarrow> string \<Rightarrow> int \<Rightarrow> int \<Rightarrow> int \<Rightarrow> amap \<Rightarrow> (store_error + int list) \<times> amap"
where
  "spec_position now k v rank count maxLen m =
     (if rank = - (2 ^ 63) then (Inl ErrInvalidRank, m)
      else on_list now k [] (\<lambda>xs d m. (map int (positions v rank count maxLen xs), m)) m)"

definition end_value :: "bool \<Rightarrow> string list \<Rightarrow> string" where
  "end_value left xs = (if left then hd xs else last xs)"

definition drop_end :: "bool \<Rightarrow> string list \<Rightarrow> string list" where
  "drop_end left xs = (if left then tl xs else butlast xs)"

definition spec_move ::
  "time \<Rightarrow> time \<Rightarrow> key \<Rightarrow> key \<Rightarrow> bool \<Rightarrow> bool \<Rightarrow> amap \<Rightarrow> (store_error + string option) \<times> amap"
where
  "spec_move now1 now2 src dst fromLeft toLeft m =
     (let m = purge now1 src m
      in case m src of
           None \<Rightarrow> (Inr None, m)
         | Some (AStr _, _) \<Rightarrow> (Inl ErrWrongType, m)
         | Some (AList xs, d) \<Rightarrow>
             let v = end_value fromLeft xs; rest = drop_end fromLeft xs
             in if src = dst then (Inr (Some v), m(src \<mapsto> (AList (add_ends [v] toLeft rest), d)))
                else let m = purge now2 dst m
                     in (case m dst of
                           Some (AStr _, _) \<Rightarrow> (Inl ErrWrongType, m)
                         | None \<Rightarrow> (Inr (Some v), (store_list src rest d m)(dst \<mapsto> (AList [v], None)))
                         | Some (AList ys, e) \<Rightarrow>
                             (Inr (Some v), (store_list src rest d m)(dst \<mapsto> (AList (add_ends [v] toLeft ys), e)))))"

subsection \<open>Facts about the specification\<close>

lemma purge_simps [simp]:
  "m k = None \<Longrightarrow> purge now k m = m"
  "m k = Some e \<Longrightarrow> expired now e \<Longrightarrow> purge now k m = m(k := None)"
  "m k = Some e \<Longrightarrow> \<not> expired now e \<Longrightarrow> purge now k m = m"
  by (simp_all add: purge_def)

lemma purge_other: "q \<noteq> k \<Longrightarrow> purge now k m q = m q"
  by (simp add: purge_def split: option.splits)

lemma purge_same: "purge now k m k = (case m k of None \<Rightarrow> None | Some e \<Rightarrow> if expired now e then None else Some e)"
  by (simp add: purge_def split: option.splits)

lemma length_remove_n: "length (remove_n n v xs) = length xs - min n (count_list xs v)"
proof (induction n v xs rule: remove_n.induct)
  case (3 n v x xs)
  with count_le_length[of xs v] show ?case by (auto simp: min_def)
qed auto

lemma count_remove_n: "count_list (remove_n n v xs) v = count_list xs v - n"
  by (induction n v xs rule: remove_n.induct) auto

lemma remove_n_all: "length xs \<le> n \<Longrightarrow> remove_n n v xs = filter (\<lambda>x. x \<noteq> v) xs"
  by (induction n v xs rule: remove_n.induct) auto

end
