(* ===== verification/Store.thy ===== *)
theory Store
  imports ListValue KeyIndex KvSpec
begin

unbundle bit_operations_syntax

text \<open>
  The sharded store of \<open>internal/storage/storage.go\<close> and the memory estimate of
  \<open>memory.go\<close>: objects, the 256 shards with their two key indexes, the choke points
  \<open>put\<close>, \<open>touch\<close> and \<open>remove\<close>, and the string and expiration operations.

  A \<open>*shard\<close> is the index of the shard in the store, and the counter \<open>used\<close> that all
  shards share is the field \<open>usedBytes\<close>. An operation takes the readings of
  \<open>time.Now()\<close> it makes as a function \<open>clk\<close>: the call that the source makes at the
  n-th site reads \<open>clk n\<close>. Every operation of the source holds the shard's lock from its
  first access to its last, so it is one atomic function here.
\<close>

subsection \<open>Objects and shards\<close>

datatype ValueKind = StringKind | ListKind

record Obj =
  o_value :: string
  o_expires :: time
  o_kind :: ValueKind
  o_list :: listValue
  o_access :: int

definition IsExpired :: "Obj \<Rightarrow> time \<Rightarrow> bool" where
  "IsExpired obj now \<longleftrightarrow> \<not> IsZero (o_expires obj) \<and> \<not> now < o_expires obj"

definition memorySize :: "Obj \<Rightarrow> key \<Rightarrow> int" where
  "memorySize obj key = 192 + int (length key + length (o_value obj)) + lv_memorySize (o_list obj)"

record shard =
  sh_data :: "key \<rightharpoonup> Obj"
  sh_all :: keyIndex
  sh_volatile :: keyIndex

record Store =
  shards :: "nat \<Rightarrow> shard"
  usedBytes :: int
  lastExpirationLog :: time
  pendingExpired :: int

definition numShards :: nat where
  "numShards = 256"

lemma numShards_pos [simp]: "0 < numShards"
  by (simp add: numShards_def)

definition fnv32a :: "key \<Rightarrow> 32 word" where
  "fnv32a key = fold (\<lambda>c hash. (hash XOR of_nat (of_char c)) * 16777619) key 2166136261"

definition getShardIndex :: "key \<Rightarrow> nat" where
  "getShardIndex key = unat (fnv32a key) mod numShards"

definition NewStore :: Store where
  "NewStore = \<lparr>shards = (\<lambda>_. \<lparr>sh_data = Map.empty, sh_all = empty_index, sh_volatile = empty_index\<rparr>),
     usedBytes = 0, lastExpirationLog = zero_time, pendingExpired = 0\<rparr>"

definition UsedMemory :: "Store \<Rightarrow> int" where
  "UsedMemory s = usedBytes s"

abbreviation set_shard :: "nat \<Rightarrow> shard \<Rightarrow> Store \<Rightarrow> Store" where
  "set_shard i sh s \<equiv> s\<lparr>shards := (shards s)(i := sh)\<rparr>"

definition put :: "nat \<Rightarrow> key \<Rightarrow> Obj \<Rightarrow> time \<Rightarrow> Store \<Rightarrow> Store" where
  "put i key obj now s =
     (let sh = shards s i;
          obj = obj\<lparr>o_access := wrap64 now\<rparr>;
          delta = memorySize obj key;
          (delta, sh) = (case sh_data sh key of
             Some old \<Rightarrow> (delta - memorySize old key, sh)
           | None \<Rightarrow> (delta, sh\<lparr>sh_all := ix_add key (sh_all sh)\<rparr>));
          sh = sh\<lparr>sh_data := (sh_data sh)(key \<mapsto> obj)\<rparr>
      in (set_shard i sh s)\<lparr>usedBytes := wrap64 (usedBytes s + delta)\<rparr>)"

definition touch :: "nat \<Rightarrow> key \<Rightarrow> Obj \<Rightarrow> time \<Rightarrow> Store \<Rightarrow> Obj \<times> Store" where
  "touch i key obj now s =
     (let sh = shards s i;
          obj = obj\<lparr>o_access := wrap64 now\<rparr>
      in (obj, set_shard i (sh\<lparr>sh_data := (sh_data sh)(key \<mapsto> obj)\<rparr>) s))"

definition remove :: "nat \<Rightarrow> key \<Rightarrow> Store \<Rightarrow> Store" where
  "remove i key s =
     (let sh = shards s i;
          (used, sh) = (case sh_data sh key of
             Some old \<Rightarrow> (wrap64 (usedBytes s + - memorySize old key),
               sh\<lparr>sh_data := (sh_data sh)(key := None), sh_all := ix_remove key (sh_all sh)\<rparr>)
           | None \<Rightarrow> (usedBytes s, sh));
          sh = sh\<lparr>sh_volatile := ix_remove key (sh_volatile sh)\<rparr>
      in (set_shard i sh s)\<lparr>usedBytes := used\<rparr>)"

definition volatile_add :: "nat \<Rightarrow> key \<Rightarrow> Store \<Rightarrow> Store" where
  "volatile_add i key s = set_shard i ((shards s i)\<lparr>sh_volatile := ix_add key (sh_volatile (shards s i))\<rparr>) s"

definition volatile_remove :: "nat \<Rightarrow> key \<Rightarrow> Store \<Rightarrow> Store" where
  "volatile_remove i key s = set_shard i ((shards s i)\<lparr>sh_volatile := ix_remove key (sh_volatile (shards s i))\<rparr>) s"

subsection \<open>String and expiration operations\<close>

definition string_obj :: "string \<Rightarrow> time \<Rightarrow> Obj" where
  "string_obj value expiresAt = \<lparr>o_value = value, o_expires = expiresAt, o_kind = StringKind,
     o_list = empty_list, o_access = 0\<rparr>"

definition Set :: "(nat \<Rightarrow> time) \<Rightarrow> key \<Rightarrow> string \<Rightarrow> int \<Rightarrow> Store \<Rightarrow> Store" where
  "Set clk key value ttl s =
     (let i = getShardIndex key;
          expiresAt = (if ttl > 0 then clk 0 + ttl else zero_time);
          s = put i key (string_obj value expiresAt) (clk 1) s
      in if IsZero expiresAt then volatile_remove i key s else volatile_add i key s)"

definition SetAt :: "(nat \<Rightarrow> time) \<Rightarrow> key \<Rightarrow> string \<Rightarrow> time \<Rightarrow> Store \<Rightarrow> Store" where
  "SetAt clk key value expiresAt s =
     (let i = getShardIndex key
      in if \<not> clk 0 < expiresAt then remove i key s
         else volatile_add i key (put i key (string_obj value expiresAt) (clk 1) s))"

definition liveObjectLocked :: "time \<Rightarrow> nat \<Rightarrow> key \<Rightarrow> Store \<Rightarrow> Obj option \<times> Store" where
  "liveObjectLocked now i key s =
     (case sh_data (shards s i) key of
        None \<Rightarrow> (None, s)
      | Some obj \<Rightarrow>
          if IsExpired obj now then (None, remove i key s)
          else let (obj, s) = touch i key obj now s in (Some obj, s))"

definition GetString :: "(nat \<Rightarrow> time) \<Rightarrow> key \<Rightarrow> Store \<Rightarrow> (store_error + string option) \<times> Store" where
  "GetString clk key s =
     (let (obj, s) = liveObjectLocked (clk 0) (getShardIndex key) key s
      in case obj of
           None \<Rightarrow> (Inr None, s)
         | Some obj \<Rightarrow> if o_kind obj \<noteq> StringKind then (Inl ErrWrongType, s)
                        else (Inr (Some (o_value obj)), s))"

definition Get :: "(nat \<Rightarrow> time) \<Rightarrow> key \<Rightarrow> Store \<Rightarrow> string option \<times> Store" where
  "Get clk key s =
     (case GetString clk key s of
        (Inr v, s) \<Rightarrow> (v, s)
      | (Inl _, s) \<Rightarrow> (None, s))"

definition TTL :: "(nat \<Rightarrow> time) \<Rightarrow> key \<Rightarrow> Store \<Rightarrow> int \<times> Store" where
  "TTL clk key s =
     (let i = getShardIndex key
      in case sh_data (shards s i) key of
           None \<Rightarrow> (-2, s)
         | Some obj \<Rightarrow>
             let now = clk 0
             in if IsExpired obj now then (-2, remove i key s)
                else if IsZero (o_expires obj) then (-1, s)
                else let remaining = Seconds (Sub (o_expires obj) now)
                     in if remaining < 0 then (-2, remove i key s) else (\<lfloor>remaining\<rfloor>, s))"

definition Del :: "(nat \<Rightarrow> time) \<Rightarrow> key \<Rightarrow> Store \<Rightarrow> bool \<times> Store" where
  "Del clk key s =
     (let i = getShardIndex key
      in case sh_data (shards s i) key of
           None \<Rightarrow> (False, s)
         | Some obj \<Rightarrow> if IsExpired obj (clk 0) then (False, remove i key s) else (True, remove i key s))"

definition ExpireAt :: "(nat \<Rightarrow> time) \<Rightarrow> key \<Rightarrow> time \<Rightarrow> Store \<Rightarrow> bool \<times> Store" where
  "ExpireAt clk key expiresAt s =
     (let i = getShardIndex key
      in case sh_data (shards s i) key of
           None \<Rightarrow> (False, s)
         | Some obj \<Rightarrow>
             let now = clk 0
             in if IsExpired obj now then (False, remove i key s)
                else if \<not> now < expiresAt then (True, remove i key s)
                else (True, volatile_add i key (put i key (obj\<lparr>o_expires := expiresAt\<rparr>) (clk 1) s)))"

definition Expire :: "(nat \<Rightarrow> time) \<Rightarrow> key \<Rightarrow> int \<Rightarrow> Store \<Rightarrow> bool \<times> Store" where
  "Expire clk key seconds s =
     (let deadline = clk 0;
          deadline = (if seconds > 0 then deadline + wrap64 (seconds * Second) else deadline)
      in ExpireAt (\<lambda>n. clk (n + 1)) key deadline s)"


subsection \<open>Lookups after the choke points\<close>

definition lookup :: "Store \<Rightarrow> key \<Rightarrow> Obj option" where
  "lookup s key = sh_data (shards s (getShardIndex key)) key"

definition vol :: "Store \<Rightarrow> key \<Rightarrow> bool" where
  "vol s key \<longleftrightarrow> key \<in> ix_members (sh_volatile (shards s (getShardIndex key)))"

lemma getShardIndex_less [simp]: "getShardIndex key < numShards"
  by (simp add: getShardIndex_def)

lemma lookup_put [simp]:
  "lookup (put (getShardIndex k) k obj now s) = (lookup s)(k \<mapsto> obj\<lparr>o_access := wrap64 now\<rparr>)"
  by (auto simp: lookup_def put_def Let_def fun_eq_iff split: option.splits)

lemma lookup_touch [simp]:
  "lookup (snd (touch (getShardIndex k) k obj now s)) = (lookup s)(k \<mapsto> obj\<lparr>o_access := wrap64 now\<rparr>)"
  "fst (touch i k obj now s) = obj\<lparr>o_access := wrap64 now\<rparr>"
  by (auto simp: lookup_def touch_def Let_def fun_eq_iff)

lemma lookup_remove [simp]: "lookup (remove (getShardIndex k) k s) = (lookup s)(k := None)"
  by (auto simp: lookup_def remove_def Let_def fun_eq_iff split: option.splits)

lemma lookup_volatile [simp]:
  "lookup (volatile_add i k s) = lookup s" "lookup (volatile_remove i k s) = lookup s"
  by (auto simp: lookup_def volatile_add_def volatile_remove_def fun_eq_iff)

lemma lookup_shard: "sh_data (shards s (getShardIndex k)) k = lookup s k"
  by (simp add: lookup_def)

subsection \<open>The store invariant\<close>

definition obj_inv :: "Obj \<Rightarrow> bool" where
  "obj_inv obj \<longleftrightarrow> lv_inv (o_list obj) \<and>
     (case o_kind obj of
        StringKind \<Rightarrow> o_list obj = empty_list
      | ListKind \<Rightarrow> o_value obj = [] \<and> lv_size (o_list obj) > 0)"

definition homed :: "nat \<Rightarrow> key \<Rightarrow> bool" where
  "homed i key \<longleftrightarrow> getShardIndex key = i"

definition shard_inv :: "nat \<Rightarrow> shard \<Rightarrow> bool" where
  "shard_inv i sh \<longleftrightarrow>
     finite (dom (sh_data sh)) \<and> (\<forall>k \<in> dom (sh_data sh). homed i k) \<and>
     ix_inv (sh_all sh) \<and> ix_members (sh_all sh) = dom (sh_data sh) \<and>
     ix_inv (sh_volatile sh) \<and> (\<forall>k \<in> ix_members (sh_volatile sh). homed i k) \<and>
     (\<forall>obj \<in> ran (sh_data sh). obj_inv obj)"

definition data_memory :: "(key \<rightharpoonup> Obj) \<Rightarrow> int" where
  "data_memory m = (\<Sum>k \<in> dom m. memorySize (the (m k)) k)"

definition shard_memory :: "shard \<Rightarrow> int" where
  "shard_memory sh = data_memory (sh_data sh)"

definition total_memory :: "Store \<Rightarrow> int" where
  "total_memory s = (\<Sum>i < numShards. shard_memory (shards s i))"

definition base_inv :: "Store \<Rightarrow> bool" where
  "base_inv s \<longleftrightarrow> (\<forall>i < numShards. shard_inv i (shards s i)) \<and> usedBytes s = wrap64 (total_memory s)"

definition has_deadline :: "Obj option \<Rightarrow> bool" where
  "has_deadline r = (case r of None \<Rightarrow> False | Some obj \<Rightarrow> \<not> IsZero (o_expires obj))"

definition vol_inv :: "Store \<Rightarrow> bool" where
  "vol_inv s \<longleftrightarrow> (\<forall>k. vol s k \<longleftrightarrow> has_deadline (lookup s k))"

definition store_inv :: "Store \<Rightarrow> bool" where
  "store_inv s \<longleftrightarrow> base_inv s \<and> vol_inv s"

lemma memorySize_access [simp]: "memorySize (obj\<lparr>o_access := a\<rparr>) k = memorySize obj k"
  by (simp add: memorySize_def)

lemma obj_inv_access [simp]: "obj_inv (obj\<lparr>o_access := a\<rparr>) = obj_inv obj"
  by (simp add: obj_inv_def split: ValueKind.splits)

lemma obj_inv_expires [simp]: "obj_inv (obj\<lparr>o_expires := a\<rparr>) = obj_inv obj"
  by (simp add: obj_inv_def split: ValueKind.splits)

lemma base_inv_shard: "base_inv s \<Longrightarrow> shard_inv (getShardIndex k) (shards s (getShardIndex k))"
  by (simp add: base_inv_def)

lemma ran_updI: "(\<forall>y \<in> ran m. P y) \<Longrightarrow> P x \<Longrightarrow> \<forall>y \<in> ran (m(k \<mapsto> x)). P y"
  by (auto simp: ran_def split: if_splits)

lemma ran_delI: "(\<forall>y \<in> ran m. P y) \<Longrightarrow> \<forall>y \<in> ran (m(k := None)). P y"
  by (auto simp: ran_def split: if_splits)

lemma shard_inv_obj: "shard_inv i sh \<Longrightarrow> sh_data sh k = Some obj \<Longrightarrow> obj_inv obj"
  unfolding shard_inv_def by (blast intro: ranI)

lemma lookup_obj_inv: "base_inv s \<Longrightarrow> lookup s k = Some obj \<Longrightarrow> obj_inv obj"
  unfolding lookup_def by (rule shard_inv_obj[OF base_inv_shard])

text \<open>Replacing one shard: its invariant, and the change of the total in \<open>usedBytes\<close>.\<close>

lemma base_inv_set_shard:
  assumes "base_inv s" "i < numShards" "shard_inv i sh"
    "used = wrap64 (usedBytes s + (shard_memory sh - shard_memory (shards s i)))"
  shows "base_inv ((set_shard i sh s)\<lparr>usedBytes := used\<rparr>)"
proof -
  have "total_memory ((set_shard i sh s)\<lparr>usedBytes := used\<rparr>)
      = total_memory s + (shard_memory sh - shard_memory (shards s i))"
    using assms(2) sum_fun_upd[of "{..<numShards}" i shard_memory "shards s" sh]
    by (simp add: total_memory_def)
  with assms show ?thesis by (simp add: base_inv_def)
qed


lemma shard_memory_update:
  assumes "shard_inv i sh"
  shows "data_memory ((sh_data sh)(k \<mapsto> obj)) =
    shard_memory sh - (case sh_data sh k of None \<Rightarrow> 0 | Some old \<Rightarrow> memorySize old k) + memorySize obj k"
proof -
  have "finite (dom (sh_data sh))" using assms by (simp add: shard_inv_def)
  then show ?thesis
    unfolding shard_memory_def data_memory_def by (rule sum_map_update)
qed

lemma shard_memory_delete:
  assumes "shard_inv i sh" "sh_data sh k = Some old"
  shows "data_memory ((sh_data sh)(k := None)) = shard_memory sh - memorySize old k"
proof -
  have "finite (dom (sh_data sh))" using assms by (simp add: shard_inv_def)
  then show ?thesis
    unfolding shard_memory_def data_memory_def using assms(2) by (rule sum_map_delete)
qed

lemma shard_memory_volatile [simp]: "shard_memory (sh\<lparr>sh_volatile := ix\<rparr>) = shard_memory sh"
  by (simp add: shard_memory_def)

lemma shard_inv_update:
  assumes "shard_inv i sh" "homed i k" "obj_inv obj"
    "ix_inv ix" "ix_members ix = insert k (dom (sh_data sh))"
  shows "shard_inv i (sh\<lparr>sh_data := (sh_data sh)(k \<mapsto> obj), sh_all := ix\<rparr>)"
  using assms ran_updI[of "sh_data sh" obj_inv obj k] unfolding shard_inv_def by simp

lemma shard_inv_delete:
  assumes "shard_inv i sh"
  shows "shard_inv i (sh\<lparr>sh_data := (sh_data sh)(k := None), sh_all := ix_remove k (sh_all sh),
    sh_volatile := ix_remove k (sh_volatile sh)\<rparr>)"
  using assms ran_delI[of "sh_data sh" obj_inv k] unfolding shard_inv_def
  by (simp add: ks.inv_remove ks.members_remove)

lemma shard_inv_volatile:
  assumes "shard_inv i sh" "ix_inv ix" "ix_members ix \<subseteq> insert k (ix_members (sh_volatile sh))" "homed i k"
  shows "shard_inv i (sh\<lparr>sh_volatile := ix\<rparr>)"
  using assms unfolding shard_inv_def by auto


lemma wrap64_usedBytes: "base_inv s \<Longrightarrow> wrap64 (usedBytes s) = usedBytes s"
  by (simp add: base_inv_def)

lemma shard_update_commute: "sh\<lparr>sh_all := ix, sh_data := m\<rparr> = sh\<lparr>sh_data := m, sh_all := ix\<rparr>"
  by (cases sh) simp

lemma base_inv_put:
  assumes "base_inv s" "obj_inv obj"
  shows "base_inv (put (getShardIndex k) k obj now s)"
proof -
  define i sh where d: "i = getShardIndex k" "sh = shards s i"
  let ?o = "obj\<lparr>o_access := wrap64 now\<rparr>"
  define ix where "ix = (case sh_data sh k of None \<Rightarrow> ix_add k (sh_all sh) | Some _ \<Rightarrow> sh_all sh)"
  define sh' where "sh' = sh\<lparr>sh_data := (sh_data sh)(k \<mapsto> ?o), sh_all := ix\<rparr>"
  have sh: "shard_inv i sh" using base_inv_shard[OF assms(1)] by (simp add: d)
  have "ix_inv ix \<and> ix_members ix = insert k (dom (sh_data sh))"
    using sh by (auto simp: ix_def shard_inv_def ks.inv_add ks.members_add split: option.splits)
  then have "shard_inv i sh'"
    unfolding sh'_def using sh assms(2) d(1) by (auto intro!: shard_inv_update simp: homed_def)
  moreover have "put i k obj now s =
      (set_shard i sh' s)\<lparr>usedBytes := wrap64 (usedBytes s + (shard_memory sh' - shard_memory sh))\<rparr>"
    using shard_memory_update[OF sh, of k ?o]
    by (simp add: put_def Let_def d(2)[symmetric] sh'_def ix_def shard_memory_def
        shard_update_commute split: option.splits)
  ultimately show ?thesis
    using base_inv_set_shard[OF assms(1), of i sh'] by (simp add: d)
qed

lemma base_inv_touch:
  assumes "base_inv s" "lookup s k = Some obj"
  shows "base_inv (snd (touch (getShardIndex k) k obj now s))"
proof -
  define i sh where d: "i = getShardIndex k" "sh = shards s i"
  let ?o = "obj\<lparr>o_access := wrap64 now\<rparr>"
  define sh' where "sh' = sh\<lparr>sh_data := (sh_data sh)(k \<mapsto> ?o), sh_all := sh_all sh\<rparr>"
  have sh: "shard_inv i sh" using base_inv_shard[OF assms(1)] by (simp add: d)
  have k: "sh_data sh k = Some obj" using assms(2) by (simp add: lookup_def d)
  have "ix_inv (sh_all sh) \<and> ix_members (sh_all sh) = insert k (dom (sh_data sh))"
    using sh k by (auto simp: shard_inv_def)
  then have "shard_inv i sh'"
    unfolding sh'_def
    by (intro shard_inv_update) (use sh d(1) lookup_obj_inv[OF assms] in \<open>simp_all add: homed_def\<close>)
  moreover have "shard_memory sh' = shard_memory sh"
    using shard_memory_update[OF sh, of k ?o] k by (simp add: sh'_def shard_memory_def)
  moreover have "snd (touch i k obj now s) = (set_shard i sh' s)\<lparr>usedBytes := usedBytes s\<rparr>"
    by (simp add: touch_def Let_def d(2)[symmetric] sh'_def)
  moreover note wrap64_usedBytes[OF assms(1)]
  ultimately show ?thesis
    using base_inv_set_shard[OF assms(1), of i sh'] by (simp add: d)
qed

lemma base_inv_remove:
  assumes "base_inv s"
  shows "base_inv (remove (getShardIndex k) k s)"
proof -
  define i sh where d: "i = getShardIndex k" "sh = shards s i"
  define sh' where "sh' = sh\<lparr>sh_data := (sh_data sh)(k := None), sh_all := ix_remove k (sh_all sh),
    sh_volatile := ix_remove k (sh_volatile sh)\<rparr>"
  have sh: "shard_inv i sh" using base_inv_shard[OF assms(1)] by (simp add: d)
  show ?thesis
  proof (cases "sh_data sh k")
    case (Some old)
    have "remove i k s = (set_shard i sh' s)\<lparr>usedBytes := wrap64 (usedBytes s + (shard_memory sh' - shard_memory sh))\<rparr>"
      using Some shard_memory_delete[OF sh Some]
      by (simp add: remove_def Let_def d(2)[symmetric] sh'_def shard_memory_def)
    moreover have "shard_inv i sh'" unfolding sh'_def by (rule shard_inv_delete[OF sh])
    ultimately show ?thesis
      using base_inv_set_shard[OF assms(1), of i sh'] by (simp add: d)
  next
    case None
    let ?v = "sh\<lparr>sh_volatile := ix_remove k (sh_volatile sh)\<rparr>"
    have "remove i k s = (set_shard i ?v s)\<lparr>usedBytes := usedBytes s\<rparr>"
      using None by (simp add: remove_def Let_def d(2)[symmetric])
    moreover have "shard_inv i ?v"
    proof (rule shard_inv_volatile[OF sh])
      show "ix_inv (ix_remove k (sh_volatile sh))"
        "ix_members (ix_remove k (sh_volatile sh)) \<subseteq> insert k (ix_members (sh_volatile sh))"
        using sh by (auto simp: shard_inv_def ks.inv_remove ks.members_remove)
    qed (simp add: d homed_def)
    moreover note wrap64_usedBytes[OF assms(1)]
    ultimately show ?thesis
      using base_inv_set_shard[OF assms(1), of i ?v] d by simp
  qed
qed

lemma base_inv_volatile:
  assumes "base_inv s"
  shows "base_inv (volatile_add (getShardIndex k) k s)" "base_inv (volatile_remove (getShardIndex k) k s)"
proof -
  define i sh where d: "i = getShardIndex k" "sh = shards s i"
  have sh: "shard_inv i sh" using base_inv_shard[OF assms(1)] by (simp add: d)
  note u = wrap64_usedBytes[OF assms(1)]
  have *: "base_inv ((set_shard i (sh\<lparr>sh_volatile := ix\<rparr>) s)\<lparr>usedBytes := usedBytes s\<rparr>)"
    if "ix_inv ix" "ix_members ix \<subseteq> insert k (ix_members (sh_volatile sh))" for ix
  proof (rule base_inv_set_shard[OF assms])
    show "shard_inv i (sh\<lparr>sh_volatile := ix\<rparr>)"
      using shard_inv_volatile[OF sh that] d(1) by (simp add: homed_def)
  qed (use u d in simp_all)
  have v: "ix_inv (sh_volatile sh)" using sh by (simp add: shard_inv_def)
  have "ix_members (ix_add k (sh_volatile sh)) \<subseteq> insert k (ix_members (sh_volatile sh))"
    "ix_members (ix_remove k (sh_volatile sh)) \<subseteq> insert k (ix_members (sh_volatile sh))"
    using v by (auto simp: ks.members_add ks.members_remove)
  from *[OF ks.inv_add[OF v] this(1)] *[OF ks.inv_remove[OF v] this(2)]
  show "base_inv (volatile_add (getShardIndex k) k s)" "base_inv (volatile_remove (getShardIndex k) k s)"
    by (simp_all add: volatile_add_def volatile_remove_def d)
qed

lemma vol_put [simp]: "vol (put i k obj now s) = vol s"
  by (auto simp: vol_def put_def Let_def fun_eq_iff split: option.splits)

lemma vol_touch [simp]: "vol (snd (touch i k obj now s)) = vol s"
  by (auto simp: vol_def touch_def Let_def fun_eq_iff)

lemma base_inv_ix_volatile: "base_inv s \<Longrightarrow> ix_inv (sh_volatile (shards s (getShardIndex k)))"
  using base_inv_shard[of s k] by (simp add: shard_inv_def)

lemma vol_remove: "base_inv s \<Longrightarrow> vol (remove (getShardIndex k) k s) = (vol s)(k := False)"
  using base_inv_ix_volatile[of s k]
  by (auto simp: vol_def remove_def Let_def fun_eq_iff ks.members_remove split: option.splits)

lemma vol_volatile:
  "base_inv s \<Longrightarrow> vol (volatile_add (getShardIndex k) k s) = (vol s)(k := True)"
  "base_inv s \<Longrightarrow> vol (volatile_remove (getShardIndex k) k s) = (vol s)(k := False)"
  using base_inv_ix_volatile[of s k]
  by (auto simp: vol_def volatile_add_def volatile_remove_def fun_eq_iff ks.members_add ks.members_remove)


subsection \<open>The store as an abstract map\<close>

definition obj_abs :: "Obj \<Rightarrow> aentry" where
  "obj_abs obj =
     (case o_kind obj of StringKind \<Rightarrow> AStr (o_value obj) | ListKind \<Rightarrow> AList (contents (o_list obj)),
      if IsZero (o_expires obj) then None else Some (o_expires obj))"

definition abs_store :: "Store \<Rightarrow> amap" where
  "abs_store s k = map_option obj_abs (lookup s k)"

text \<open>A concrete result refines an abstract one: the invariant holds, the replies agree, the maps agree.\<close>

definition refines :: "'a \<times> Store \<Rightarrow> 'a \<times> amap \<Rightarrow> bool" where
  "refines r q \<longleftrightarrow> store_inv (snd r) \<and> fst r = fst q \<and> abs_store (snd r) = snd q"

text \<open>Clock readings: later calls never read an earlier instant, and no reading is before year 1.\<close>

definition clock_ok :: "(nat \<Rightarrow> time) \<Rightarrow> bool" where
  "clock_ok clk \<longleftrightarrow> mono clk \<and> zero_time < clk 0"

lemma clock_ok_after_zero: "clock_ok clk \<Longrightarrow> zero_time < clk n"
  unfolding clock_ok_def by (meson le0 less_le_trans monoD)

lemma clock_ok_shift: "clock_ok clk \<Longrightarrow> clock_ok (\<lambda>n. clk (n + j))"
  using clock_ok_after_zero[of clk j] by (auto simp: clock_ok_def mono_def)

lemma obj_abs_access [simp]: "obj_abs (obj\<lparr>o_access := a\<rparr>) = obj_abs obj"
  by (simp add: obj_abs_def split: ValueKind.splits)

lemma IsExpired_abs: "IsExpired obj now \<longleftrightarrow> expired now (obj_abs obj)"
  by (auto simp: IsExpired_def expired_def obj_abs_def)

lemma vol_inv_fields: "vol s' = vol s \<Longrightarrow> (\<forall>k. has_deadline (lookup s' k) = has_deadline (lookup s k)) \<Longrightarrow> vol_inv s \<Longrightarrow> vol_inv s'"
  by (simp add: vol_inv_def)

lemma put_refines:
  assumes "store_inv s" "obj_inv obj"
    "has_deadline (lookup s k) \<longleftrightarrow> \<not> IsZero (o_expires obj)"
  shows "store_inv (put (getShardIndex k) k obj now s)"
    and "abs_store (put (getShardIndex k) k obj now s) = (abs_store s)(k \<mapsto> obj_abs obj)"
proof -
  show "store_inv (put (getShardIndex k) k obj now s)"
    using assms base_inv_put[of s obj k now]
    by (auto simp: store_inv_def vol_inv_def) (auto simp: has_deadline_def)
qed (auto simp: abs_store_def)

lemma remove_refines:
  assumes "store_inv s"
  shows "store_inv (remove (getShardIndex k) k s)"
    and "abs_store (remove (getShardIndex k) k s) = (abs_store s)(k := None)"
proof -
  show "store_inv (remove (getShardIndex k) k s)"
    using assms base_inv_remove[of s k]
    by (auto simp: store_inv_def vol_inv_def vol_remove has_deadline_def)
qed (auto simp: abs_store_def)

lemma touch_refines:
  assumes "store_inv s" "lookup s k = Some obj"
  shows "store_inv (snd (touch (getShardIndex k) k obj now s))"
    and "abs_store (snd (touch (getShardIndex k) k obj now s)) = abs_store s"
proof -
  show "store_inv (snd (touch (getShardIndex k) k obj now s))"
    using assms base_inv_touch[of s k obj now]
    by (auto simp: store_inv_def vol_inv_def has_deadline_def)
qed (use assms(2) in \<open>auto simp: abs_store_def fun_eq_iff\<close>)

text \<open>Storing an object and then fixing the key's membership in the expiry index.\<close>

lemma put_volatile_refines:
  assumes "store_inv s" "obj_inv obj"
  shows "\<not> IsZero (o_expires obj) \<Longrightarrow>
      store_inv (volatile_add (getShardIndex k) k (put (getShardIndex k) k obj now s))"
    and "IsZero (o_expires obj) \<Longrightarrow>
      store_inv (volatile_remove (getShardIndex k) k (put (getShardIndex k) k obj now s))"
    and "abs_store (volatile_add i k (put (getShardIndex k) k obj now s)) = (abs_store s)(k \<mapsto> obj_abs obj)"
    and "abs_store (volatile_remove i k (put (getShardIndex k) k obj now s)) = (abs_store s)(k \<mapsto> obj_abs obj)"
proof -
  have p: "base_inv (put (getShardIndex k) k obj now s)"
    using assms by (simp add: store_inv_def base_inv_put)
  show "store_inv (volatile_add (getShardIndex k) k (put (getShardIndex k) k obj now s))"
    if "\<not> IsZero (o_expires obj)"
    using assms(1) that p by (auto simp: store_inv_def vol_inv_def base_inv_volatile vol_volatile has_deadline_def)
  show "store_inv (volatile_remove (getShardIndex k) k (put (getShardIndex k) k obj now s))"
    if "IsZero (o_expires obj)"
    using assms(1) that p by (auto simp: store_inv_def vol_inv_def base_inv_volatile vol_volatile has_deadline_def)
qed (auto simp: abs_store_def)


subsection \<open>The string and expiration operations refine their specifications\<close>

lemma NewStore_refines: "store_inv NewStore" "abs_store NewStore = Map.empty"
proof -
  have "shard_inv i (shards NewStore i)" for i
    by (simp add: NewStore_def shard_inv_def)
  moreover have "total_memory NewStore = 0"
    by (simp add: total_memory_def shard_memory_def data_memory_def NewStore_def)
  ultimately have "base_inv NewStore"
    by (simp add: base_inv_def) (simp add: NewStore_def in_int64_def)
  then show "store_inv NewStore"
    by (simp add: store_inv_def vol_inv_def) (simp add: vol_def lookup_def has_deadline_def NewStore_def)
qed (simp add: abs_store_def lookup_def NewStore_def fun_eq_iff)

lemma live_refines:
  assumes "store_inv s" "liveObjectLocked now (getShardIndex k) k s = (r, s')"
  shows "store_inv s'" "abs_store s' = purge now k (abs_store s)" "lookup s' k = r"
    "abs_store s' k = map_option obj_abs r"
proof -
  have "store_inv s' \<and> abs_store s' = purge now k (abs_store s) \<and> lookup s' k = r"
  proof (cases "lookup s k")
    case None
    with assms show ?thesis
      by (auto simp: liveObjectLocked_def lookup_shard abs_store_def purge_def)
  next
    case (Some obj)
    then have a: "abs_store s k = Some (obj_abs obj)" by (simp add: abs_store_def)
    show ?thesis
    proof (cases "IsExpired obj now")
      case True
      with assms Some a show ?thesis
        by (auto simp: liveObjectLocked_def lookup_shard remove_refines IsExpired_abs)
    next
      case False
      with assms Some a touch_refines[OF assms(1) Some] show ?thesis
        by (auto simp: liveObjectLocked_def lookup_shard IsExpired_abs split_beta)
    qed
  qed
  then show "store_inv s'" "abs_store s' = purge now k (abs_store s)" and r: "lookup s' k = r"
    by blast+
  show "abs_store s' k = map_option obj_abs r"
    by (simp only: abs_store_def r)
qed

lemma string_obj_inv [simp]: "obj_inv (string_obj v e)" "o_expires (string_obj v e) = e"
  "obj_abs (string_obj v e) = (AStr v, if IsZero e then None else Some e)"
  by (simp_all add: obj_inv_def string_obj_def empty_list_inv obj_abs_def)

lemma GetString_refines:
  assumes "store_inv s"
  shows "refines (GetString clk k s) (spec_get (clk 0) k (abs_store s))"
proof -
  obtain r s' where l: "liveObjectLocked (clk 0) (getShardIndex k) k s = (r, s')"
    by fastforce
  note live = live_refines[OF assms l]
  show ?thesis
  proof (cases r)
    case None
    with l live show ?thesis by (simp add: GetString_def refines_def spec_get_def)
  next
    case (Some obj)
    with l live show ?thesis
      by (cases "o_kind obj") (auto simp: GetString_def refines_def spec_get_def obj_abs_def)
  qed
qed

lemma Set_refines:
  assumes "store_inv s" "clock_ok clk"
  shows "store_inv (Set clk k v ttl s)"
    and "abs_store (Set clk k v ttl s) =
      spec_set k v (if ttl > 0 then Some (clk 0 + ttl) else None) (abs_store s)"
proof -
  have nz: "\<not> IsZero (clk 0 + ttl)" if "ttl > 0"
    using that clock_ok_after_zero[OF assms(2), of 0] by (simp add: IsZero_def)
  have z: "IsZero zero_time" by (simp add: IsZero_def)
  note p = put_volatile_refines[OF assms(1) string_obj_inv(1)]
  show "store_inv (Set clk k v ttl s)"
    using nz z by (auto simp: Set_def Let_def intro!: p(1,2))
  show "abs_store (Set clk k v ttl s) =
      spec_set k v (if ttl > 0 then Some (clk 0 + ttl) else None) (abs_store s)"
    using nz z by (auto simp: Set_def Let_def spec_set_def p(3,4))
qed

lemma SetAt_refines:
  assumes "store_inv s" "clock_ok clk"
  shows "store_inv (SetAt clk k v e s)"
    and "abs_store (SetAt clk k v e s) = spec_setAt (clk 0) k v e (abs_store s)"
proof -
  have nz: "\<not> IsZero e" if "clk 0 < e"
    using that clock_ok_after_zero[OF assms(2), of 0] by (simp add: IsZero_def)
  note p = put_volatile_refines[OF assms(1) string_obj_inv(1)]
  show "store_inv (SetAt clk k v e s)"
    using nz assms by (auto simp: SetAt_def Let_def remove_refines intro!: p(1))
  show "abs_store (SetAt clk k v e s) = spec_setAt (clk 0) k v e (abs_store s)"
    using nz assms by (auto simp: SetAt_def Let_def spec_setAt_def remove_refines p(3))
qed

lemma Del_refines:
  assumes "store_inv s"
  shows "refines (Del clk k s) (spec_del (clk 0) k (abs_store s))"
proof (cases "lookup s k")
  case None
  then have "abs_store s k = None" by (simp add: abs_store_def)
  with None assms show ?thesis
    by (simp add: Del_def lookup_shard refines_def spec_del_def fun_upd_idem)
next
  case (Some obj)
  then have "abs_store s k = Some (obj_abs obj)" by (simp add: abs_store_def)
  with Some assms show ?thesis
    by (simp add: Del_def lookup_shard refines_def spec_del_def remove_refines IsExpired_abs purge_same)
qed

lemma ExpireAt_refines:
  assumes "store_inv s" "clock_ok clk"
  shows "refines (ExpireAt clk k e s) (spec_expireAt (clk 0) k e (abs_store s))"
proof (cases "lookup s k")
  case None
  then have "abs_store s k = None" by (simp add: abs_store_def)
  with None assms show ?thesis
    by (simp add: ExpireAt_def lookup_shard refines_def spec_expireAt_def Let_def)
next
  case (Some obj)
  then have a: "abs_store s k = Some (obj_abs obj)" by (simp add: abs_store_def)
  have o: "obj_inv (obj\<lparr>o_expires := e\<rparr>)"
    using Some assms(1) lookup_obj_inv[of s k obj] by (simp add: store_inv_def)
  have nz: "\<not> IsZero e" if "clk 0 < e"
    using that clock_ok_after_zero[OF assms(2), of 0] by (simp add: IsZero_def)
  have abs: "obj_abs (obj\<lparr>o_expires := e\<rparr>) = (fst (obj_abs obj), Some e)" if "clk 0 < e"
    using nz[OF that] by (simp add: obj_abs_def split: ValueKind.splits)
  note p = put_volatile_refines[OF assms(1) o]
  show ?thesis
    using Some assms a nz p(1) abs
    by (auto simp: ExpireAt_def lookup_shard refines_def spec_expireAt_def remove_refines IsExpired_abs
        p(3) Let_def split: prod.splits)
qed

lemma Expire_refines:
  assumes "store_inv s" "clock_ok clk"
  shows "refines (Expire clk k seconds s)
    (spec_expireAt (clk 1) k (if seconds > 0 then clk 0 + wrap64 (seconds * Second) else clk 0) (abs_store s))"
  using ExpireAt_refines[OF assms(1) clock_ok_shift[OF assms(2), of 1]]
  by (simp add: Expire_def Let_def)

lemma store_inv_UsedMemory: "store_inv s \<Longrightarrow> UsedMemory s = wrap64 (total_memory s)"
  by (simp add: store_inv_def base_inv_def UsedMemory_def)


lemma TTL_refines:
  assumes "store_inv s"
  shows "refines (TTL clk k s) (spec_ttl (clk 0) k (abs_store s))"
proof (cases "lookup s k")
  case None
  then have "abs_store s k = None" by (simp add: abs_store_def)
  with None assms show ?thesis
    by (simp add: TTL_def lookup_shard refines_def spec_ttl_def Let_def)
next
  case (Some obj)
  then have a: "abs_store s k = Some (obj_abs obj)" by (simp add: abs_store_def)
  show ?thesis
  proof (cases "IsExpired obj (clk 0)")
    case True
    with Some assms a show ?thesis
      by (simp add: TTL_def lookup_shard refines_def spec_ttl_def remove_refines IsExpired_abs)
  next
    case False
    have "0 \<le> Sub (o_expires obj) (clk 0) \<and> Sub (o_expires obj) (clk 0) < 2 ^ 63" if "\<not> IsZero (o_expires obj)"
      using False that by (auto simp: IsExpired_def Sub_def)
    then have "\<not> Seconds (Sub (o_expires obj) (clk 0)) < 0" if "\<not> IsZero (o_expires obj)"
      using that Seconds_floor(2) by (simp add: not_less)
    with Some assms a False show ?thesis
      by (simp add: TTL_def lookup_shard refines_def spec_ttl_def IsExpired_abs Let_def)
        (simp add: obj_abs_def)
  qed
qed

end
