(* ===== verification/StoreList.thy ===== *)
theory StoreList
  imports Store
begin

text \<open>
  The list operations of \<open>internal/storage/list.go\<close> on the sharded store, and that each
  of them keeps the store invariant and refines its specification. The list inside an
  object is changed on a copy of the object and then stored by \<open>put\<close>; every operation
  that changes a list does store it, so copying the object stands for Go's sharing of the
  underlying buffer between the map entry and the local copy.
\<close>

definition list_obj :: Obj where
  "list_obj = \<lparr>o_value = [], o_expires = zero_time, o_kind = ListKind, o_list = empty_list, o_access = 0\<rparr>"

definition ListPush ::
  "(nat \<Rightarrow> time) \<Rightarrow> key \<Rightarrow> string list \<Rightarrow> bool \<Rightarrow> bool \<Rightarrow> Store \<Rightarrow> (store_error + int) \<times> Store"
where
  "ListPush clk key values left onlyExisting s =
     (let i = getShardIndex key;
          (obj, s) = liveObjectLocked (clk 0) i key s
      in if obj = None \<and> onlyExisting then (Inr 0, s)
         else let obj = (case obj of None \<Rightarrow> list_obj | Some obj \<Rightarrow> obj)
              in if o_kind obj \<noteq> ListKind then (Inl ErrWrongType, s)
                 else let obj = obj\<lparr>o_list := fold (\<lambda>value. push value left) values (o_list obj)\<rparr>;
                          s = put i key obj (clk 1) s
                      in (Inr (int (lv_Len (o_list obj))), s))"

definition ListPop ::
  "(nat \<Rightarrow> time) \<Rightarrow> key \<Rightarrow> bool \<Rightarrow> int \<Rightarrow> Store \<Rightarrow> (store_error + string list) \<times> Store"
where
  "ListPop clk key left count s =
     (let i = getShardIndex key;
          (obj, s) = liveObjectLocked (clk 0) i key s
      in case obj of
           None \<Rightarrow> (Inr [], s)
         | Some obj \<Rightarrow>
             if o_kind obj \<noteq> ListKind then (Inl ErrWrongType, s)
             else let n = (if count > int (lv_Len (o_list obj)) then int (lv_Len (o_list obj)) else count);
                      (values, l) = pop_loop (pop left) (nat n) (o_list obj);
                      obj = obj\<lparr>o_list := l\<rparr>;
                      s = (if lv_Len l = 0 then remove i key s else put i key obj (clk 1) s)
                  in (Inr values, s))"

definition ListLen :: "(nat \<Rightarrow> time) \<Rightarrow> key \<Rightarrow> Store \<Rightarrow> (store_error + int) \<times> Store" where
  "ListLen clk key s =
     (let (obj, s) = liveObjectLocked (clk 0) (getShardIndex key) key s
      in case obj of
           None \<Rightarrow> (Inr 0, s)
         | Some obj \<Rightarrow> if o_kind obj \<noteq> ListKind then (Inl ErrWrongType, s)
                        else (Inr (int (lv_Len (o_list obj))), s))"

text \<open>The bounds computation that \<open>ListRange\<close> and \<open>ListTrim\<close> share; \<open>None\<close> is an empty range.\<close>

definition list_bounds :: "int \<Rightarrow> int \<Rightarrow> int \<Rightarrow> (nat \<times> nat) option" where
  "list_bounds len start stop =
     (let start = (if start < 0 then start + len else start);
          stop = (if stop < 0 then stop + len else stop);
          start = (if start < 0 then 0 else start);
          stop = (if stop \<ge> len then len - 1 else stop)
      in if start \<ge> len \<or> start > stop \<or> len = 0 then None
         else Some (nat start, nat (stop + 1)))"

definition ListRange ::
  "(nat \<Rightarrow> time) \<Rightarrow> key \<Rightarrow> int \<Rightarrow> int \<Rightarrow> Store \<Rightarrow> (store_error + string list) \<times> Store"
where
  "ListRange clk key start stop s =
     (let (obj, s) = liveObjectLocked (clk 0) (getShardIndex key) key s
      in case obj of
           None \<Rightarrow> (Inr [], s)
         | Some obj \<Rightarrow>
             if o_kind obj \<noteq> ListKind then (Inl ErrWrongType, s)
             else case list_bounds (int (lv_Len (o_list obj))) start stop of
                    None \<Rightarrow> (Inr [], s)
                  | Some (a, b) \<Rightarrow> (Inr (rangeCopy a b (o_list obj)), s))"

definition ListIndex ::
  "(nat \<Rightarrow> time) \<Rightarrow> key \<Rightarrow> int \<Rightarrow> Store \<Rightarrow> (store_error + string option) \<times> Store"
where
  "ListIndex clk key index s =
     (let (obj, s) = liveObjectLocked (clk 0) (getShardIndex key) key s
      in case obj of
           None \<Rightarrow> (Inr None, s)
         | Some obj \<Rightarrow>
             if o_kind obj \<noteq> ListKind then (Inl ErrWrongType, s)
             else case lv_index index (o_list obj) of
                    None \<Rightarrow> (Inr None, s)
                  | Some i \<Rightarrow> (Inr (Some (lv_at (o_list obj) i)), s))"

definition ListSet :: "(nat \<Rightarrow> time) \<Rightarrow> key \<Rightarrow> int \<Rightarrow> string \<Rightarrow> Store \<Rightarrow> store_error option \<times> Store" where
  "ListSet clk key index value s =
     (let sh = getShardIndex key;
          (obj, s) = liveObjectLocked (clk 0) sh key s
      in case obj of
           None \<Rightarrow> (Some ErrNoSuchKey, s)
         | Some obj \<Rightarrow>
             if o_kind obj \<noteq> ListKind then (Some ErrWrongType, s)
             else case lv_index index (o_list obj) of
                    None \<Rightarrow> (Some ErrListIndexRange, s)
                  | Some i \<Rightarrow> (None, put sh key (obj\<lparr>o_list := assign i value (o_list obj)\<rparr>) (clk 1) s))"

definition ListTrim ::
  "(nat \<Rightarrow> time) \<Rightarrow> key \<Rightarrow> int \<Rightarrow> int \<Rightarrow> Store \<Rightarrow> (store_error + unit) \<times> Store"
where
  "ListTrim clk key start stop s =
     (let i = getShardIndex key;
          (obj, s) = liveObjectLocked (clk 0) i key s
      in case obj of
           None \<Rightarrow> (Inr (), s)
         | Some obj \<Rightarrow>
             if o_kind obj \<noteq> ListKind then (Inl ErrWrongType, s)
             else case list_bounds (int (lv_Len (o_list obj))) start stop of
                    None \<Rightarrow> (Inr (), remove i key s)
                  | Some (a, b) \<Rightarrow>
                      (Inr (), put i key (obj\<lparr>o_list := lv_replace (rangeCopy a b (o_list obj))\<rparr>) (clk 1) s))"

text \<open>The two scans of \<open>ListRem\<close>; the counter \<open>removed\<close> is threaded through.\<close>

lemma removeAt_size [simp]: "lv_size (removeAt i l) = lv_size l - 1"
  by (simp add: removeAt_def Let_def)

function rem_forward :: "string \<Rightarrow> int \<Rightarrow> int \<Rightarrow> nat \<Rightarrow> int \<Rightarrow> listValue \<Rightarrow> int \<times> listValue" where
  "rem_forward value count limit i removed l =
     (if i < lv_Len l then
        if lv_at l i = value \<and> (count = 0 \<or> removed < limit)
        then rem_forward value count limit i (removed + 1) (removeAt i l)
        else rem_forward value count limit (i + 1) removed l
      else (removed, l))"
  by pat_completeness auto
termination
  by (relation "measure (\<lambda>(value, count, limit, i, removed, l). lv_size l - i)") (auto simp: lv_Len_def)

declare rem_forward.simps [simp del]

fun rem_backward :: "string \<Rightarrow> int \<Rightarrow> nat \<Rightarrow> int \<Rightarrow> listValue \<Rightarrow> int \<times> listValue" where
  "rem_backward value limit 0 removed l = (removed, l)"
| "rem_backward value limit (Suc i) removed l =
     (if lv_at l i = value \<and> removed < limit
      then rem_backward value limit i (removed + 1) (removeAt i l)
      else rem_backward value limit i removed l)"

definition ListRem :: "(nat \<Rightarrow> time) \<Rightarrow> key \<Rightarrow> int \<Rightarrow> string \<Rightarrow> Store \<Rightarrow> (store_error + int) \<times> Store" where
  "ListRem clk key count value s =
     (let i = getShardIndex key;
          (obj, s) = liveObjectLocked (clk 0) i key s
      in case obj of
           None \<Rightarrow> (Inr 0, s)
         | Some obj \<Rightarrow>
             if o_kind obj \<noteq> ListKind then (Inl ErrWrongType, s)
             else let limit = (if count < 0 then (if count = - (2 ^ 63) then 2 ^ 63 - 1 else - count) else count);
                      (removed, l) =
                        (if count \<ge> 0 then rem_forward value count limit 0 0 (o_list obj)
                         else rem_backward value limit (lv_Len (o_list obj)) 0 (o_list obj));
                      obj = obj\<lparr>o_list := l\<rparr>;
                      s = (if lv_Len l = 0 then remove i key s else put i key obj (clk 1) s)
                  in (Inr removed, s))"

definition ListInsert ::
  "(nat \<Rightarrow> time) \<Rightarrow> key \<Rightarrow> string \<Rightarrow> string \<Rightarrow> bool \<Rightarrow> Store \<Rightarrow> (store_error + int) \<times> Store"
where
  "ListInsert clk key pivot value before s =
     (let sh = getShardIndex key;
          (obj, s) = liveObjectLocked (clk 0) sh key s
      in case obj of
           None \<Rightarrow> (Inr 0, s)
         | Some obj \<Rightarrow>
             if o_kind obj \<noteq> ListKind then (Inl ErrWrongType, s)
             else case find (\<lambda>i. lv_at (o_list obj) i = pivot) [0..<lv_Len (o_list obj)] of
                    None \<Rightarrow> (Inr (-1), s)
                  | Some i \<Rightarrow>
                      let insertAt = (if before then i else i + 1);
                          obj = obj\<lparr>o_list := lv_insert insertAt value (o_list obj)\<rparr>;
                          s = put sh key obj (clk 1) s
                      in (Inr (int (lv_Len (o_list obj))), s))"

text \<open>The scan of \<open>ListPosition\<close> over the indices it visits, with its counters.\<close>

fun position_loop ::
  "listValue \<Rightarrow> string \<Rightarrow> int \<Rightarrow> int \<Rightarrow> int \<Rightarrow> nat list \<Rightarrow> int \<Rightarrow> int \<Rightarrow> int list \<Rightarrow> int list"
where
  "position_loop l value rank count maxLen [] examined seen out = out"
| "position_loop l value rank count maxLen (index # is) examined seen out =
     (if maxLen > 0 \<and> examined \<ge> maxLen then out
      else if lv_at l index \<noteq> value
      then position_loop l value rank count maxLen is (examined + 1) seen out
      else if seen + 1 < rank
      then position_loop l value rank count maxLen is (examined + 1) (seen + 1) out
      else let out = out @ [int index]
           in if count > 0 \<and> int (length out) \<ge> count then out
              else position_loop l value rank count maxLen is (examined + 1) (seen + 1) out)"

definition ListPosition ::
  "(nat \<Rightarrow> time) \<Rightarrow> key \<Rightarrow> string \<Rightarrow> int \<Rightarrow> int \<Rightarrow> int \<Rightarrow> Store \<Rightarrow> (store_error + int list) \<times> Store"
where
  "ListPosition clk key value rank count maxLen s =
     (if rank = - (2 ^ 63) then (Inl ErrInvalidRank, s)
      else let (obj, s) = liveObjectLocked (clk 0) (getShardIndex key) key s
           in case obj of
                None \<Rightarrow> (Inr [], s)
              | Some obj \<Rightarrow>
                  if o_kind obj \<noteq> ListKind then (Inl ErrWrongType, s)
                  else let is = (if rank < 0 then rev [0..<lv_Len (o_list obj)] else [0..<lv_Len (o_list obj)]);
                           rank = (if rank < 0 then - rank else rank)
                       in (Inr (position_loop (o_list obj) value rank count maxLen is 0 0 []), s))"

definition listMoveLocked ::
  "(nat \<Rightarrow> time) \<Rightarrow> nat \<Rightarrow> nat \<Rightarrow> key \<Rightarrow> key \<Rightarrow> bool \<Rightarrow> bool \<Rightarrow> Store \<Rightarrow> (store_error + string option) \<times> Store"
where
  "listMoveLocked clk srcShard dstShard src dst fromLeft toLeft s =
     (let (source, s) = liveObjectLocked (clk 0) srcShard src s
      in case source of
           None \<Rightarrow> (Inr None, s)
         | Some source \<Rightarrow>
             if o_kind source \<noteq> ListKind then (Inl ErrWrongType, s)
             else if src = dst then
               let ((value, _), l) = pop fromLeft (o_list source);
                   source = source\<lparr>o_list := push value toLeft l\<rparr>
               in (Inr (Some value), put srcShard src source (clk 1) s)
             else
               let (destination, s) = liveObjectLocked (clk 1) dstShard dst s
               in if (case destination of None \<Rightarrow> False | Some d \<Rightarrow> o_kind d \<noteq> ListKind)
                  then (Inl ErrWrongType, s)
                  else
                    let ((value, _), l) = pop fromLeft (o_list source);
                        source = source\<lparr>o_list := l\<rparr>;
                        d = (case destination of None \<Rightarrow> list_obj | Some d \<Rightarrow> d);
                        d = d\<lparr>o_list := push value toLeft (o_list d)\<rparr>;
                        s = (if lv_Len l = 0 then remove srcShard src s else put srcShard src source (clk 2) s);
                        s = put dstShard dst d (clk 3) s
                    in (Inr (Some value), s))"

definition ListMove ::
  "(nat \<Rightarrow> time) \<Rightarrow> key \<Rightarrow> key \<Rightarrow> bool \<Rightarrow> bool \<Rightarrow> Store \<Rightarrow> (store_error + string option) \<times> Store"
where
  "ListMove clk src dst fromLeft toLeft s =
     listMoveLocked clk (getShardIndex src) (getShardIndex dst) src dst fromLeft toLeft s"

subsection \<open>A live list under a key\<close>

definition list_at :: "Store \<Rightarrow> key \<Rightarrow> Obj \<Rightarrow> bool" where
  "list_at s k obj \<longleftrightarrow> store_inv s \<and> lookup s k = Some obj \<and> o_kind obj = ListKind"

abbreviation deadline :: "Obj \<Rightarrow> time option" where
  "deadline obj \<equiv> snd (obj_abs obj)"

lemma list_atD:
  assumes "list_at s k obj"
  shows "store_inv s" "lv_inv (o_list obj)" "0 < lv_size (o_list obj)" "o_value obj = []"
    "abs_store s k = Some (AList (contents (o_list obj)), deadline obj)"
    "contents (o_list obj) \<noteq> []"
proof -
  show "store_inv s" using assms by (simp add: list_at_def)
  have "obj_inv obj"
    using assms lookup_obj_inv[of s k obj] by (simp add: list_at_def store_inv_def)
  then show "lv_inv (o_list obj)" "0 < lv_size (o_list obj)" "o_value obj = []"
    using assms by (simp_all add: list_at_def obj_inv_def)
  then show "contents (o_list obj) \<noteq> []" by (auto simp flip: length_greater_0_conv)
  show "abs_store s k = Some (AList (contents (o_list obj)), deadline obj)"
    using assms by (simp add: list_at_def abs_store_def obj_abs_def)
qed

lemma put_list_refines:
  assumes "list_at s k obj" "lv_inv l" "0 < lv_size l"
  shows "store_inv (put (getShardIndex k) k (obj\<lparr>o_list := l\<rparr>) now s)"
    and "abs_store (put (getShardIndex k) k (obj\<lparr>o_list := l\<rparr>) now s) =
      (abs_store s)(k \<mapsto> (AList (contents l), deadline obj))"
proof -
  have o: "obj_inv (obj\<lparr>o_list := l\<rparr>)"
    using assms list_atD(4)[OF assms(1)] by (simp add: obj_inv_def list_at_def)
  have d: "has_deadline (lookup s k) \<longleftrightarrow> \<not> IsZero (o_expires (obj\<lparr>o_list := l\<rparr>))"
    using assms(1) by (simp add: list_at_def has_deadline_def)
  note p = put_refines[OF list_atD(1)[OF assms(1)] o d]
  show "store_inv (put (getShardIndex k) k (obj\<lparr>o_list := l\<rparr>) now s)" by (rule p)
  show "abs_store (put (getShardIndex k) k (obj\<lparr>o_list := l\<rparr>) now s) =
      (abs_store s)(k \<mapsto> (AList (contents l), deadline obj))"
    using assms(1) by (simp add: p(2)) (simp add: list_at_def obj_abs_def)
qed

definition store_back :: "key \<Rightarrow> Obj \<Rightarrow> listValue \<Rightarrow> time \<Rightarrow> Store \<Rightarrow> Store" where
  "store_back k obj l now s =
     (if lv_Len l = 0 then remove (getShardIndex k) k s
      else put (getShardIndex k) k (obj\<lparr>o_list := l\<rparr>) now s)"

lemma store_back_refines:
  assumes "list_at s k obj" "lv_inv l"
  shows "store_inv (store_back k obj l now s)"
    and "abs_store (store_back k obj l now s) = store_list k (contents l) (deadline obj) (abs_store s)"
  using assms put_list_refines[OF assms] remove_refines[OF list_atD(1)[OF assms(1)]]
  by (auto simp: store_back_def lv_Len_def store_list_def contents_Nil_iff)

text \<open>
  The three cases every list operation starts with. A property of the operation's body on
  a live list gives the refinement of the whole operation.
\<close>

lemma list_op_refines:
  assumes "store_inv s"
    and live: "\<And>s' obj. list_at s' k obj \<Longrightarrow> abs_store s' = purge now k (abs_store s) \<Longrightarrow>
      refines (body obj s')
        (map_prod Inr id (f (contents (o_list obj)) (deadline obj) (abs_store s')))"
  shows "refines
    (case liveObjectLocked now (getShardIndex k) k s of
       (obj, s) \<Rightarrow>
         (case obj of
            None \<Rightarrow> (Inr missing, s)
          | Some obj \<Rightarrow> if o_kind obj \<noteq> ListKind then (Inl ErrWrongType, s) else body obj s))
    (on_list now k missing f (abs_store s))"
proof -
  obtain r s' where l: "liveObjectLocked now (getShardIndex k) k s = (r, s')"
    by fastforce
  note lv = live_refines[OF assms(1) l]
  show ?thesis
  proof (cases r)
    case None
    with l lv show ?thesis by (simp add: refines_def on_list_def)
  next
    case (Some obj)
    show ?thesis
    proof (cases "o_kind obj")
      case StringKind
      with Some l lv show ?thesis by (simp add: refines_def on_list_def obj_abs_def)
    next
      case ListKind
      with Some lv have "list_at s' k obj" by (simp add: list_at_def)
      from live[OF this lv(2)] list_atD(5)[OF this] ListKind Some l lv(2) show ?thesis
        by (simp add: on_list_def Let_def map_prod_def)
    qed
  qed
qed

subsection \<open>Reading operations\<close>

lemma ListLen_refines:
  assumes "store_inv s"
  shows "refines (ListLen clk k s) (spec_len (clk 0) k (abs_store s))"
  unfolding ListLen_def Let_def spec_len_def
  by (rule list_op_refines[OF assms]) (simp add: refines_def list_atD lv_Len_def)

lemma nths_interval: "nths xs {i. a \<le> i \<and> i < b} = take (b - a) (drop a xs)"
proof (induction xs arbitrary: a b)
  case (Cons x xs)
  have "{j. a \<le> Suc j \<and> Suc j < b} = {j. a - 1 \<le> j \<and> j < b - 1}" by auto
  with Cons[of "a - 1" "b - 1"] show ?case
    by (cases a; cases b) (auto simp: nths_Cons)
qed simp

lemma list_bounds_slice:
  "slice start stop xs =
     (case list_bounds (int (length xs)) start stop of
        None \<Rightarrow> [] | Some (a, b) \<Rightarrow> take (b - a) (drop a xs))"
  "list_bounds (int (length xs)) start stop = Some (a, b) \<Longrightarrow> a < b \<and> b \<le> length xs"
proof -
  let ?n = "int (length xs)"
  define p where "p = max 0 (from_end start (length xs))"
  define q where "q = min (?n - 1) (from_end stop (length xs))"
  have lb: "list_bounds ?n start stop =
      (if p \<ge> ?n \<or> p > q \<or> ?n = 0 then None else Some (nat p, nat (q + 1)))"
    by (auto simp: list_bounds_def Let_def p_def q_def from_end_def)
  have slice: "slice start stop xs = nths xs {i. p \<le> int i \<and> int i \<le> q}"
    unfolding slice_def nths_def
    by (intro arg_cong[where f = "map fst"] filter_cong) (auto simp: p_def q_def dest: set_zip_rightD)
  have none: "p \<ge> ?n \<or> p > q \<or> ?n = 0 \<Longrightarrow> nths xs {i. p \<le> int i \<and> int i \<le> q} = []"
    by (auto simp: set_nths q_def simp flip: set_empty)
  have p0: "0 \<le> p" by (simp add: p_def)
  have "{i. p \<le> int i \<and> int i \<le> q} = {i. nat p \<le> i \<and> i < nat (q + 1)}"
    using p0 by auto
  then show "slice start stop xs =
     (case list_bounds ?n start stop of None \<Rightarrow> [] | Some (a, b) \<Rightarrow> take (b - a) (drop a xs))"
    using none by (simp add: lb slice nths_interval)
  show "list_bounds ?n start stop = Some (a, b) \<Longrightarrow> a < b \<and> b \<le> length xs"
    using p0 by (auto simp: lb q_def split: if_splits)
qed

lemma ListRange_refines:
  assumes "store_inv s"
  shows "refines (ListRange clk k start stop s) (spec_range (clk 0) k start stop (abs_store s))"
  unfolding ListRange_def Let_def spec_range_def
proof (rule list_op_refines[OF assms])
  fix s' obj
  assume "list_at s' k obj"
  then show "refines
     (case list_bounds (int (lv_Len (o_list obj))) start stop of None \<Rightarrow> (Inr [], s')
      | Some (a, b) \<Rightarrow> (Inr (rangeCopy a b (o_list obj)), s'))
     (map_prod Inr id (slice start stop (contents (o_list obj)), abs_store s'))"
    using list_bounds_slice[where xs = "contents (o_list obj)" and start = start and stop = stop]
    by (auto simp: refines_def list_atD lv_Len_def rangeCopy_correct split: option.splits)
qed

lemma lv_index_position: "lv_inv l \<Longrightarrow> lv_index i l = position i (contents l)"
  by (auto simp: lv_index_def position_def from_end_def Let_def lv_Len_def)

lemma position_less: "position i xs = Some j \<Longrightarrow> j < length xs"
  by (auto simp: position_def Let_def split: if_splits)

lemma ListIndex_refines:
  assumes "store_inv s"
  shows "refines (ListIndex clk k i s) (spec_index (clk 0) k i (abs_store s))"
  unfolding ListIndex_def Let_def spec_index_def
proof (rule list_op_refines[OF assms])
  fix s' obj
  assume "list_at s' k obj"
  then show "refines
     (case lv_index i (o_list obj) of None \<Rightarrow> (Inr None, s')
      | Some i \<Rightarrow> (Inr (Some (lv_at (o_list obj) i)), s'))
     (map_prod Inr id (map_option ((!) (contents (o_list obj))) (position i (contents (o_list obj))), abs_store s'))"
    using position_less[of i "contents (o_list obj)"]
    by (auto simp: refines_def list_atD lv_index_position contents_nth split: option.splits)
qed

subsection \<open>Operations that change one list\<close>

lemma ListPop_refines:
  assumes "store_inv s" "0 \<le> count"
  shows "refines (ListPop clk k left count s) (spec_pop (clk 0) k left (nat count) (abs_store s))"
  unfolding ListPop_def Let_def spec_pop_def
proof (rule list_op_refines[OF assms(1)])
  fix s' obj
  assume at: "list_at s' k obj"
  let ?n = "nat (if int (lv_Len (o_list obj)) < count then int (lv_Len (o_list obj)) else count)"
  let ?p = "pop_loop (pop left) ?n (o_list obj)" and ?xs = "contents (o_list obj)"
  have n: "?n = min (nat count) (length ?xs)"
    using assms(2) by (auto simp: lv_Len_def min_def nat_le_iff)
  have "?n \<le> lv_Len (o_list obj)" unfolding n by (simp add: lv_Len_def)
  note p = dq.pop_many[OF list_atD(2)[OF at] this, of left]
  have v: "fst ?p = take (nat count) (if left then ?xs else rev ?xs)"
    using conjunct1[OF p] unfolding n by (simp add: take_all_iff min_def)
  have "contents (snd ?p) = (if left then drop ?n ?xs else take (length ?xs - ?n) ?xs)"
    using p by (simp only: lv_Len_def length_contents)
  then have c: "contents (snd ?p) = (if left then drop (nat count) ?xs else take (length ?xs - nat count) ?xs)"
    unfolding n by (auto simp: min_def)
  have i: "lv_inv (snd ?p)" using p by blast
  have "refines (Inr (fst ?p), store_back k obj (snd ?p) (clk 1) s')
     (map_prod Inr id (take (nat count) (if left then ?xs else rev ?xs),
        store_list k (if left then drop (nat count) ?xs else take (length ?xs - nat count) ?xs)
          (deadline obj) (abs_store s')))"
    using store_back_refines[OF at i, of "clk 1"] by (simp only: refines_def v c fst_conv snd_conv map_prod_simp id_apply)
  then show "refines (case ?p of (values, l) \<Rightarrow> (Inr values,
        if lv_Len l = 0 then remove (getShardIndex k) k s'
        else put (getShardIndex k) k (obj\<lparr>o_list := l\<rparr>) (clk 1) s'))
     (map_prod Inr id (take (nat count) (if left then ?xs else rev ?xs),
        store_list k (if left then drop (nat count) ?xs else take (length ?xs - nat count) ?xs)
          (deadline obj) (abs_store s')))"
    by (simp only: split_beta store_back_def)
qed

lemma ListTrim_refines:
  assumes "store_inv s"
  shows "refines (ListTrim clk k start stop s) (spec_trim (clk 0) k start stop (abs_store s))"
  unfolding ListTrim_def Let_def spec_trim_def
proof (rule list_op_refines[OF assms])
  fix s' obj
  assume at: "list_at s' k obj"
  let ?l = "o_list obj"
  note b = list_bounds_slice[where xs = "contents ?l" and start = start and stop = stop]
  show "refines
     (case list_bounds (int (lv_Len ?l)) start stop of
        None \<Rightarrow> (Inr (), remove (getShardIndex k) k s')
      | Some (a, b) \<Rightarrow> (Inr (), put (getShardIndex k) k (obj\<lparr>o_list := lv_replace (rangeCopy a b ?l)\<rparr>) (clk 1) s'))
     (map_prod Inr id ((), store_list k (slice start stop (contents ?l)) (deadline obj) (abs_store s')))"
  proof (cases "list_bounds (int (lv_Len ?l)) start stop")
    case None
    with b at show ?thesis
      by (simp add: refines_def list_atD remove_refines store_list_def lv_Len_def)
  next
    case (Some ab)
    obtain a e where ab: "ab = (a, e)" by fastforce
    let ?r = "rangeCopy a e ?l"
    have ae: "a < e" "e \<le> lv_size ?l" and sl: "slice start stop (contents ?l) = ?r"
      using b Some ab by (auto simp: lv_Len_def rangeCopy_correct)
    then have ne: "?r \<noteq> []" by (simp add: rangeCopy_correct)
    then have "0 < lv_size (lv_replace ?r)"
      using replace_correct[of ?r] contents_Nil_iff[of "lv_replace ?r"] by auto
    note p = put_list_refines[OF at conjunct1[OF replace_correct] this, of "clk 1"]
    show ?thesis
      using Some ab p ne replace_correct[of ?r] by (simp add: refines_def store_list_def sl)
  qed
qed

lemma ListSet_refines:
  assumes "store_inv s"
  shows "refines (ListSet clk k i v s) (spec_lset (clk 0) k i v (abs_store s))"
proof -
  obtain r s' where l: "liveObjectLocked (clk 0) (getShardIndex k) k s = (r, s')"
    by fastforce
  note lv = live_refines[OF assms(1) l]
  consider "r = None" | obj where "r = Some obj" "o_kind obj = StringKind"
    | obj where "r = Some obj" "list_at s' k obj"
    using lv by (cases r) (auto simp: list_at_def intro: ValueKind.exhaust)
  then show ?thesis
  proof cases
    case 1
    with l lv show ?thesis by (simp add: ListSet_def refines_def spec_lset_def)
  next
    case 2
    with l lv show ?thesis by (simp add: ListSet_def refines_def spec_lset_def obj_abs_def)
  next
    case (3 obj)
    note at = list_atD[OF 3(2)]
    have kind: "o_kind obj = ListKind" using 3 by (simp add: list_at_def)
    show ?thesis
    proof (cases "position i (contents (o_list obj))")
      case None
      with 3 l lv(2) kind at show ?thesis
        by (simp add: ListSet_def refines_def spec_lset_def lv_index_position)
    next
      case (Some j)
      then have "j < lv_size (o_list obj)" using position_less by fastforce
      note as = assign_correct[OF at(2) this, of v]
      then have "0 < lv_size (assign j v (o_list obj))"
        using at(3) by (simp add: assign_def lv_set_def Let_def)
      note p = put_list_refines[OF 3(2) conjunct1[OF as] this, of "clk 1"]
      from Some 3 l lv(2) kind at as p show ?thesis
        by (simp add: ListSet_def refines_def spec_lset_def lv_index_position)
    qed
  qed
qed

lemma find_upt_Some:
  "find P [0..<n] = Some i \<longleftrightarrow> i < n \<and> P i \<and> (\<forall>j < i. \<not> P j)"
  by (auto simp: find_Some_iff)

lemma find_upt_None: "find P [0..<n] = None \<longleftrightarrow> (\<forall>i < n. \<not> P i)"
  by (auto simp: find_None_iff)

lemma takeWhile_first:
  assumes "i < length xs" "xs ! i = v" "\<forall>j < i. xs ! j \<noteq> v"
  shows "length (takeWhile (\<lambda>x. x \<noteq> v) xs) = i"
  using assms takeWhile_eq_take_P_nth[of i xs "\<lambda>x. x \<noteq> v"] by auto

lemma insert_size: "lv_inv l \<Longrightarrow> j \<le> lv_size l \<Longrightarrow> lv_size (lv_insert j v l) = lv_size l + 1"
  using arg_cong[OF conjunct2[OF insert_correct[of l j v]], of length] by simp

lemma ListInsert_refines:
  assumes "store_inv s"
  shows "refines (ListInsert clk k pivot v before s) (spec_insert (clk 0) k pivot v before (abs_store s))"
  unfolding ListInsert_def Let_def spec_insert_def
proof (rule list_op_refines[OF assms])
  fix s' obj
  assume at: "list_at s' k obj"
  let ?l = "o_list obj" and ?xs = "contents (o_list obj)"
  let ?i = "length (takeWhile (\<lambda>x. x \<noteq> pivot) ?xs)"
  let ?ins = "\<lambda>i. lv_insert (if before then i else i + 1) v ?l"
  show "refines (case find (\<lambda>i. lv_at ?l i = pivot) [0..<lv_Len ?l] of None \<Rightarrow> (Inr (- 1), s')
      | Some i \<Rightarrow> (Inr (int (lv_Len (o_list (obj\<lparr>o_list := ?ins i\<rparr>)))),
          put (getShardIndex k) k (obj\<lparr>o_list := ?ins i\<rparr>) (clk 1) s'))
    (map_prod Inr id (if pivot \<notin> set ?xs then (- 1, abs_store s')
       else (int (length ?xs) + 1, (abs_store s')(k \<mapsto>
         (AList (take (if before then ?i else ?i + 1) ?xs @ v # drop (if before then ?i else ?i + 1) ?xs), deadline obj)))))"
  proof (cases "find (\<lambda>i. lv_at ?l i = pivot) [0..<lv_Len ?l]")
    case None
    then have "pivot \<notin> set ?xs"
      by (auto simp: find_upt_None in_set_conv_nth contents_nth lv_Len_def)
    with None at show ?thesis by (simp add: refines_def list_atD)
  next
    case (Some i)
    then have i: "i < lv_size ?l" "?xs ! i = pivot" "\<forall>j < i. ?xs ! j \<noteq> pivot"
      by (auto simp: find_upt_Some contents_nth lv_Len_def)
    then have ti: "?i = i" and mem: "pivot \<in> set ?xs"
      using takeWhile_first[of i ?xs pivot] nth_mem[of i ?xs] by auto
    have le: "(if before then i else i + 1) \<le> lv_size ?l" using i(1) by simp
    note ins = insert_correct[OF list_atD(2)[OF at] le, of v]
    then have size: "lv_size (?ins i) = lv_size ?l + 1"
      using list_atD(2)[OF at] le insert_size by blast
    then have "0 < lv_size (?ins i)" by simp
    note p = put_list_refines[OF at conjunct1[OF ins] this, of "clk 1"]
    from Some mem ti size p ins show ?thesis by (simp add: refines_def lv_Len_def)
  qed
qed

text \<open>\<open>ListPush\<close> is the one operation that creates a list; its callers pass at least one value.\<close>

lemma live_cases:
  assumes "store_inv s" "liveObjectLocked now (getShardIndex k) k s = (r, s')"
  obtains (missing) "r = None" "abs_store s' k = None"
  | (str) obj where "r = Some obj" "o_kind obj = StringKind" "abs_store s' k = Some (AStr (o_value obj), deadline obj)"
  | (lst) obj where "r = Some obj" "list_at s' k obj" "o_kind obj = ListKind"
proof (cases r)
  case None
  with live_refines[OF assms] missing show ?thesis by simp
next
  case (Some obj)
  then show ?thesis
    using live_refines[OF assms] str lst
    by (cases "o_kind obj") (simp_all add: list_at_def obj_abs_def)
qed

lemma put_new_list_refines:
  assumes "store_inv s" "lookup s k = None" "lv_inv l" "0 < lv_size l"
  shows "store_inv (put (getShardIndex k) k (list_obj\<lparr>o_list := l\<rparr>) now s)"
    and "abs_store (put (getShardIndex k) k (list_obj\<lparr>o_list := l\<rparr>) now s) =
      (abs_store s)(k \<mapsto> (AList (contents l), None))"
proof -
  have o: "obj_inv (list_obj\<lparr>o_list := l\<rparr>)"
    using assms by (simp add: obj_inv_def list_obj_def)
  have d: "has_deadline (lookup s k) \<longleftrightarrow> \<not> IsZero (o_expires (list_obj\<lparr>o_list := l\<rparr>))"
    using assms(2) by (simp add: has_deadline_def list_obj_def IsZero_def)
  note p = put_refines[OF assms(1) o d]
  show "store_inv (put (getShardIndex k) k (list_obj\<lparr>o_list := l\<rparr>) now s)" by (rule p)
  show "abs_store (put (getShardIndex k) k (list_obj\<lparr>o_list := l\<rparr>) now s) =
      (abs_store s)(k \<mapsto> (AList (contents l), None))"
    by (simp add: p(2)) (simp add: list_obj_def obj_abs_def IsZero_def)
qed

lemma push_all_correct:
  assumes "lv_inv l"
  shows "lv_inv (fold (\<lambda>v. push v left) vs l)"
    and "contents (fold (\<lambda>v. push v left) vs l) = add_ends vs left (contents l)"
    and "lv_size (fold (\<lambda>v. push v left) vs l) = lv_size l + length vs"
proof -
  note p = dq.push_all[OF assms, of left vs]
  show "lv_inv (fold (\<lambda>v. push v left) vs l)"
    "contents (fold (\<lambda>v. push v left) vs l) = add_ends vs left (contents l)"
    using p by (simp_all add: add_ends_def)
  then have "length (contents (fold (\<lambda>v. push v left) vs l)) = length (contents l) + length vs"
    by (simp only: add_ends_def) simp
  then show "lv_size (fold (\<lambda>v. push v left) vs l) = lv_size l + length vs" by simp
qed

lemma ListPush_refines:
  assumes "store_inv s" "vs \<noteq> []"
  shows "refines (ListPush clk k vs left onlyExisting s) (spec_push (clk 0) k vs left onlyExisting (abs_store s))"
proof -
  obtain r s' where l: "liveObjectLocked (clk 0) (getShardIndex k) k s = (r, s')"
    by fastforce
  note lv = live_refines[OF assms(1) l]
  note defs = ListPush_def refines_def spec_push_def Let_def on_list_def
  from assms(1) l show ?thesis
  proof (cases rule: live_cases)
    case missing
    have e: "o_list list_obj = empty_list" "o_kind list_obj = ListKind"
      by (simp_all add: list_obj_def)
    note p = push_all_correct[OF empty_list_inv(1), of left vs]
    have "0 < lv_size (fold (\<lambda>v. push v left) vs empty_list)"
      using p(3) assms(2) by simp
    note q = put_new_list_refines[OF lv(1) _ p(1) this, of k "clk 1"]
    have "lv_size empty_list = 0" by (simp add: empty_list_def)
    with missing l lv p q e show ?thesis
      by (simp add: defs lv_Len_def empty_list_inv)
  next
    case (str obj)
    with l lv(1,2) show ?thesis by (simp add: defs)
  next
    case (lst obj)
    note at = list_atD[OF lst(2)]
    note p = push_all_correct[OF at(2), of left vs]
    have "0 < lv_size (fold (\<lambda>v. push v left) vs (o_list obj))"
      using p(3) at(3) by simp
    note q = put_list_refines[OF lst(2) p(1) this, of "clk 1"]
    have "add_ends vs left (contents (o_list obj)) \<noteq> []"
      using assms(2) by (simp add: add_ends_def)
    with lst l lv(2) p q at show ?thesis
      by (simp add: defs lv_Len_def store_list_def)
  qed
qed

text \<open>The scans of \<open>ListRem\<close>: what they leave and how many elements they remove.\<close>

definition keep :: "int \<Rightarrow> int \<Rightarrow> string \<Rightarrow> string list \<Rightarrow> string list" where
  "keep count left v xs = (if count = 0 then filter (\<lambda>x. x \<noteq> v) xs else remove_n (nat left) v xs)"

lemma keep_Nil [simp]: "keep count left v [] = []"
  by (cases "nat left") (simp_all add: keep_def)

lemma keep_Cons:
  "keep count left v (x # xs) =
     (if x = v \<and> (count = 0 \<or> 0 < left) then keep count (left - 1) v xs else x # keep count left v xs)"
proof (cases "0 < left")
  case True
  then have "nat left = Suc (nat (left - 1))" by simp
  with True show ?thesis by (simp add: keep_def)
qed (simp add: keep_def)

lemma removeAt_split:
  assumes "lv_inv l" "i < lv_size l"
  shows "lv_inv (removeAt i l)" "take i (contents (removeAt i l)) = take i (contents l)"
    "drop i (contents (removeAt i l)) = drop (Suc i) (contents l)"
  using removeAt_correct[OF assms] assms(2) by simp_all

lemma drop_contents: "i < lv_size l \<Longrightarrow> drop i (contents l) = lv_at l i # drop (Suc i) (contents l)"
  using Cons_nth_drop_Suc[of i "contents l"] contents_nth[of i l] by simp

lemma take_contents: "i < lv_size l \<Longrightarrow> take (Suc i) (contents l) = take i (contents l) @ [lv_at l i]"
  using take_Suc_conv_app_nth[of i "contents l"] contents_nth[of i l] by simp

lemma rem_forward_correct:
  assumes "lv_inv l" "i \<le> lv_size l" "rem_forward v count limit i removed l = (removed', l')"
  shows "lv_inv l' \<and> contents l' = take i (contents l) @ keep count (limit - removed) v (drop i (contents l)) \<and>
    removed' + int (lv_size l') = removed + int (lv_size l)"
  using assms
proof (induction v count limit i removed l rule: rem_forward.induct)
  case (1 v count limit i removed l)
  show ?case
  proof (cases "i < lv_size l")
    case False
    with 1 show ?thesis by (simp add: rem_forward.simps[of v] lv_Len_def)
  next
    case True
    note split = removeAt_split[OF 1(3) True] and c = drop_contents[OF True] take_contents[OF True]
    have le: "i \<le> lv_size (removeAt i l)" "i + 1 \<le> lv_size l" using True by simp_all
    show ?thesis
    proof (cases "lv_at l i = v \<and> (count = 0 \<or> removed < limit)")
      case hit: True
      then have "rem_forward v count limit i (removed + 1) (removeAt i l) = (removed', l')"
        using 1(5) True by (simp add: rem_forward.simps[of v count limit i removed l] lv_Len_def)
      with 1(1) True hit split(1) le(1) have "lv_inv l' \<and>
          contents l' = take i (contents (removeAt i l)) @ keep count (limit - (removed + 1)) v (drop i (contents (removeAt i l))) \<and>
          removed' + int (lv_size l') = removed + 1 + int (lv_size (removeAt i l))"
        by (simp add: lv_Len_def)
      with hit True split(2,3) c(1) show ?thesis by (auto simp: keep_Cons algebra_simps)
    next
      case miss: False
      have "rem_forward v count limit (i + 1) removed l = (removed', l')"
        using 1(5) unfolding rem_forward.simps[of v count limit i removed l] lv_Len_def
        by (simp only: True miss if_True if_False)
      with 1(2) 1(3) True miss le(2) have "lv_inv l' \<and>
          contents l' = take (i + 1) (contents l) @ keep count (limit - removed) v (drop (i + 1) (contents l)) \<and>
          removed' + int (lv_size l') = removed + int (lv_size l)"
        by (simp add: lv_Len_def)
      with miss c show ?thesis by (auto simp: keep_Cons)
    qed
  qed
qed

lemma rem_backward_correct:
  assumes "lv_inv l" "i \<le> lv_size l" "rem_backward v limit i removed l = (removed', l')"
  shows "lv_inv l' \<and> contents l' = rev (keep 1 (limit - removed) v (rev (take i (contents l)))) @ drop i (contents l) \<and>
    removed' + int (lv_size l') = removed + int (lv_size l)"
  using assms
proof (induction v limit i removed l rule: rem_backward.induct)
  case (1 v limit removed l)
  then show ?case by simp
next
  case (2 v limit i removed l)
  then have i: "i < lv_size l" by simp
  note split = removeAt_split[OF 2(3) i] and c = drop_contents[OF i] take_contents[OF i]
  have le: "i \<le> lv_size (removeAt i l)" using i by simp
  show ?case
  proof (cases "lv_at l i = v \<and> removed < limit")
    case True
    with 2(1)[OF True split(1) le] 2(5) split(2,3) c i show ?thesis
      by (auto simp: keep_Cons algebra_simps)
  next
    case False
    with 2(2)[OF False 2(3)] 2(5) c i show ?thesis by (auto simp: keep_Cons)
  qed
qed

lemma ListRem_refines:
  assumes "store_inv s" "in_int64 count"
  shows "refines (ListRem clk k count v s) (spec_rem (clk 0) k count v (abs_store s))"
  unfolding ListRem_def Let_def spec_rem_def
proof (rule list_op_refines[OF assms(1)])
  fix s' obj
  assume at: "list_at s' k obj"
  let ?l = "o_list obj" and ?xs = "contents (o_list obj)"
  define limit :: int where
    "limit = (if count < 0 then if count = - (2 ^ 63) then 2 ^ 63 - 1 else - count else count)"
  define loop where "loop = (if 0 \<le> count then rem_forward v count limit 0 0 ?l
    else rem_backward v limit (lv_Len ?l) 0 ?l)"
  obtain n l' where nl: "loop = (n, l')" by fastforce
  let ?ys = "remove_occurrences count v ?xs"
  have lim: "nat limit = rem_limit count" by (simp add: limit_def rem_limit_def)
  have "lv_inv l' \<and> contents l' = ?ys \<and> n + int (lv_size l') = int (lv_size ?l)"
  proof (cases "0 \<le> count")
    case True
    with nl rem_forward_correct[OF list_atD(2)[OF at], of 0 v count limit 0 n l'] show ?thesis
      by (auto simp: loop_def keep_def remove_occurrences_def lim)
  next
    case False
    with nl rem_backward_correct[OF list_atD(2)[OF at], of "lv_size ?l" v limit 0 n l'] show ?thesis
      by (simp add: loop_def keep_def remove_occurrences_def lim lv_Len_def)
  qed
  then have c: "contents l' = ?ys" and i: "lv_inv l'" and "n + int (lv_size l') = int (lv_size ?l)"
    by blast+
  then have n: "n = int (length ?xs) - int (length ?ys)" unfolding c[symmetric] by simp
  have "refines (Inr n, store_back k obj l' (clk 1) s')
     (map_prod Inr id (int (length ?xs) - int (length ?ys), store_list k ?ys (deadline obj) (abs_store s')))"
    using store_back_refines[OF at i, of "clk 1"] by (simp only: refines_def n c fst_conv snd_conv map_prod_simp id_apply)
  with nl show "refines
     (case if 0 \<le> count then rem_forward v count
              (if count < 0 then if count = - (2 ^ 63) then 2 ^ 63 - 1 else - count else count) 0 0 ?l
           else rem_backward v
              (if count < 0 then if count = - (2 ^ 63) then 2 ^ 63 - 1 else - count else count) (lv_Len ?l) 0 ?l
      of (removed, l) \<Rightarrow> (Inr removed,
        if lv_Len l = 0 then remove (getShardIndex k) k s'
        else put (getShardIndex k) k (obj\<lparr>o_list := l\<rparr>) (clk 1) s'))
     (map_prod Inr id (int (length ?xs) - int (length ?ys), store_list k ?ys (deadline obj) (abs_store s')))"
    by (simp only: loop_def limit_def store_back_def split_conv)
qed

text \<open>What remains of a budget of \<open>n\<close> after \<open>m\<close> (0 is no bound), and of the matches to skip.\<close>

definition budget :: "int \<Rightarrow> int \<Rightarrow> 'a list \<Rightarrow> 'a list" where
  "budget n m xs = (if n > 0 then take (nat (n - m)) xs else xs)"

definition past :: "int \<Rightarrow> int \<Rightarrow> 'a list \<Rightarrow> 'a list" where
  "past rank seen xs = drop (nat (rank - 1 - seen)) xs"

lemma budget_done: "n > 0 \<and> n \<le> m \<Longrightarrow> budget n m xs = []"
  by (simp add: budget_def)

lemma budget_Cons:
  assumes "\<not> (n > 0 \<and> n \<le> m)"
  shows "budget n m (x # xs) = x # budget n (m + 1) xs"
proof (cases "n > 0")
  case True
  with assms have "nat (n - m) = Suc (nat (n - (m + 1)))" by simp
  with True show ?thesis by (simp only: budget_def take_Suc_Cons if_True)
qed (simp add: budget_def)

lemma budget_Nil [simp]: "budget n m [] = []"
  by (simp add: budget_def)

lemma past_Nil [simp]: "past rank seen [] = []"
  by (simp add: past_def)

lemma past_Cons: "seen + 1 < rank \<Longrightarrow> past rank seen (x # xs) = past rank (seen + 1) xs"
proof -
  assume "seen + 1 < rank"
  then have "nat (rank - 1 - seen) = Suc (nat (rank - 1 - (seen + 1)))" by simp
  then show ?thesis by (simp only: past_def drop_Suc_Cons)
qed

lemma past_done: "\<not> seen + 1 < rank \<Longrightarrow> past rank seen xs = xs"
  by (simp add: past_def)

lemma position_loop_correct:
  assumes "\<not> (count > 0 \<and> count \<le> int (length out))"
  shows "position_loop l v rank count maxLen is examined seen out = out @ map int
    (budget count (int (length out)) (past rank seen
      (filter (\<lambda>i. lv_at l i = v) (budget maxLen examined is))))"
  using assms
proof (induction "is" arbitrary: examined seen out)
  case (Cons i "is")
  consider (stop) "maxLen > 0 \<and> maxLen \<le> examined"
    | (miss) "\<not> (maxLen > 0 \<and> maxLen \<le> examined)" "lv_at l i \<noteq> v"
    | (skip) "\<not> (maxLen > 0 \<and> maxLen \<le> examined)" "lv_at l i = v" "seen + 1 < rank"
    | (take) "\<not> (maxLen > 0 \<and> maxLen \<le> examined)" "lv_at l i = v" "\<not> seen + 1 < rank"
    by blast
  then show ?case
  proof cases
    case stop
    then show ?thesis by (simp add: budget_done)
  next
    case miss
    with Cons.IH[OF Cons.prems] budget_Cons[OF miss(1), of i "is"] show ?thesis by auto
  next
    case skip
    with Cons.IH[OF Cons.prems] budget_Cons[OF skip(1), of i "is"] show ?thesis by (auto simp: past_Cons)
  next
    case take
    have p: "past rank (seen + 1) xs = xs" for xs :: "nat list"
      using take(3) by (intro past_done) simp
    note b = budget_Cons[OF take(1), of i "is"]
      budget_Cons[OF Cons.prems, of i "filter (\<lambda>i. lv_at l i = v) (budget maxLen (examined + 1) is)"]
    show ?thesis
    proof (cases "count > 0 \<and> count \<le> int (length out) + 1")
      case True
      with take b show ?thesis
        by (auto simp: past_done budget_done Let_def)
    next
      case False
      then have "\<not> (count > 0 \<and> count \<le> int (length (out @ [int i])))" by auto
      from Cons.IH[OF this] take b False p show ?thesis
        by (auto simp: past_done Let_def add.commute)
    qed
  qed
qed simp

lemma ListPosition_refines:
  assumes "store_inv s"
  shows "refines (ListPosition clk k v rank count maxLen s) (spec_position (clk 0) k v rank count maxLen (abs_store s))"
proof (cases "rank = - (2 ^ 63)")
  case True
  with assms show ?thesis by (simp add: ListPosition_def spec_position_def refines_def)
next
  case False
  have filt: "filter (\<lambda>i. lv_at l i = v) (budget maxLen 0 is) = filter (\<lambda>i. contents l ! i = v) (bounded maxLen is)"
    if "set is \<subseteq> {..<lv_size l}" for l "is"
    using that by (auto simp: budget_def bounded_def contents_nth dest!: in_set_takeD intro!: filter_cong)
  have scan: "position_loop l v r count maxLen is 0 0 [] =
      map int (bounded count (drop (nat r - 1) (filter (\<lambda>i. contents l ! i = v) (bounded maxLen is))))"
    if "set is \<subseteq> {..<lv_size l}" for l "is" r
  proof -
    have "nat (r - 1 - 0) = nat r - 1" by simp
    then show ?thesis
      using position_loop_correct[of count "[]" l v r maxLen "is" 0 0] filt[OF that]
      by (simp only: past_def) (simp add: budget_def bounded_def)
  qed
  have loop: "position_loop l v (if rank < 0 then - rank else rank) count maxLen
      (if rank < 0 then rev [0..<lv_Len l] else [0..<lv_Len l]) 0 0 []
      = map int (positions v rank count maxLen (contents l))" for l
    by (subst scan) (auto simp: positions_def Let_def lv_Len_def)
  have "refines (case liveObjectLocked (clk 0) (getShardIndex k) k s of
     (obj, s) \<Rightarrow> (case obj of None \<Rightarrow> (Inr [], s)
       | Some obj \<Rightarrow> if o_kind obj \<noteq> ListKind then (Inl ErrWrongType, s)
           else (Inr (map int (positions v rank count maxLen (contents (o_list obj)))), s)))
     (on_list (clk 0) k [] (\<lambda>xs d m. (map int (positions v rank count maxLen xs), m)) (abs_store s))"
    by (rule list_op_refines[OF assms]) (simp add: refines_def list_atD)
  with False show ?thesis
    by (simp only: ListPosition_def spec_position_def Let_def loop if_False)
qed

subsection \<open>Moving an element between two lists\<close>

lemma live_other:
  assumes "liveObjectLocked now (getShardIndex k) k s = (r, s')" "q \<noteq> k"
  shows "lookup s' q = lookup s q"
  using assms
  by (auto simp: liveObjectLocked_def lookup_shard split_beta split: option.splits if_splits)

lemma store_back_other: "q \<noteq> k \<Longrightarrow> lookup (store_back k obj l now s) q = lookup s q"
  by (simp add: store_back_def)

lemma pop_one:
  assumes "list_at s k obj" "pop left (o_list obj) = ((v, ok), l)"
  shows "lv_inv l" "contents l = drop_end left (contents (o_list obj))"
    "v = end_value left (contents (o_list obj))"
  using dq.pop_value[OF list_atD(2,6)[OF assms(1)], of left] dq.inv_pop[OF list_atD(2)[OF assms(1)], of left]
    dq.elems_pop[OF list_atD(2)[OF assms(1)], of left] assms(2)
  by (simp_all add: drop_end_def end_value_def)

lemma push_one:
  assumes "lv_inv l"
  shows "lv_inv (push v left l)" "contents (push v left l) = add_ends [v] left (contents l)"
    "0 < lv_size (push v left l)"
proof -
  note p = push_all_correct[OF assms, of left "[v]"]
  show "lv_inv (push v left l)" "contents (push v left l) = add_ends [v] left (contents l)"
    "0 < lv_size (push v left l)"
    using p by simp_all
qed

lemma listMove_pair:
  assumes "list_at s src obj" "src \<noteq> dst" "pop fromLeft (o_list obj) = ((v, ok), l)"
    and dest: "case lookup s dst of None \<Rightarrow> d = list_obj | Some e \<Rightarrow> d = e \<and> o_kind e = ListKind"
  shows "refines
    (Inr (Some v), put (getShardIndex dst) dst (d\<lparr>o_list := push v toLeft (o_list d)\<rparr>) now' (store_back src obj l now s))
    (Inr (Some (end_value fromLeft (contents (o_list obj)))),
     (store_list src (drop_end fromLeft (contents (o_list obj))) (deadline obj) (abs_store s))
       (dst \<mapsto> (AList (add_ends [v] toLeft (contents (o_list d))), deadline d)))"
proof -
  note p = pop_one[OF assms(1,3)]
  note b = store_back_refines[OF assms(1) p(1), of now]
  have dst: "lookup (store_back src obj l now s) dst = lookup s dst"
    using assms(2) by (simp add: store_back_other)
  show ?thesis
  proof (cases "lookup s dst")
    case None
    then have d: "d = list_obj" using dest by simp
    have e: "lv_inv (o_list list_obj)" by (simp add: list_obj_def empty_list_inv)
    have n: "deadline list_obj = None" by (simp add: obj_abs_def list_obj_def IsZero_def)
    note q = push_one[OF e, of v toLeft]
    from put_new_list_refines[OF b(1) _ q(1) q(3), of dst now'] None dst q(2) b(2) p n show ?thesis
      by (simp add: refines_def d)
  next
    case (Some e)
    then have at: "list_at (store_back src obj l now s) dst d"
      using dest dst b(1) by (simp add: list_at_def)
    note q = push_one[OF list_atD(2)[OF at], of v toLeft]
    from put_list_refines[OF at q(1) q(3), of now'] q(2) b(2) p show ?thesis
      by (simp add: refines_def)
  qed
qed

lemma ListMove_refines:
  assumes "store_inv s"
  shows "refines (ListMove clk src dst fromLeft toLeft s)
    (spec_move (clk 0) (clk 1) src dst fromLeft toLeft (abs_store s))"
proof -
  obtain r s1 where l1: "liveObjectLocked (clk 0) (getShardIndex src) src s = (r, s1)" by fastforce
  note lv1 = live_refines(1,2)[OF assms l1]
  note defs = ListMove_def listMoveLocked_def spec_move_def Let_def
  from assms l1 show ?thesis
  proof (cases rule: live_cases)
    case missing
    with l1 lv1 show ?thesis by (simp add: defs refines_def)
  next
    case (str obj)
    with l1 lv1 show ?thesis by (simp add: defs refines_def)
  next
    case (lst obj)
    note at = list_atD[OF lst(2)]
    obtain v ok l where pop: "pop fromLeft (o_list obj) = ((v, ok), l)" by (metis surj_pair)
    note p = pop_one[OF lst(2) pop]
    note q = push_one[OF p(1), of v toLeft]
    show ?thesis
    proof (cases "src = dst")
      case True
      with put_list_refines[OF lst(2) q(1,3), of "clk 1"] q(2) p(2) l1 lv1(2) lst(1,3) at(5) pop show ?thesis
        by (simp add: defs refines_def p(3))
    next
      case False
      obtain r2 s2 where l2: "liveObjectLocked (clk 1) (getShardIndex dst) dst s1 = (r2, s2)" by fastforce
      note lv2 = live_refines(1,2,3)[OF at(1) l2]
      have at2: "list_at s2 src obj"
        using lst(2) lv2(1) live_other[OF l2 False] by (simp add: list_at_def)
      note pair = listMove_pair[OF at2 False pop, unfolded store_back_def]
      have src: "purge (clk 0) src (abs_store s) src = Some (AList (contents (o_list obj)), deadline obj)"
        using at(5) lv1(2) by simp
      from at(1) l2 show ?thesis
      proof (cases rule: live_cases)
        case missing
        have e: "contents (o_list list_obj) = []" "deadline list_obj = None" "add_ends [v] toLeft [] = [v]"
          by (simp_all add: list_obj_def empty_list_inv obj_abs_def IsZero_def add_ends_def)
        have "refines (ListMove clk src dst fromLeft toLeft s)
          (Inr (Some (end_value fromLeft (contents (o_list obj)))),
           (store_list src (drop_end fromLeft (contents (o_list obj))) (deadline obj) (abs_store s2))
             (dst \<mapsto> (AList [v], None)))"
          using pair[of list_obj toLeft "clk 3" "clk 2"] missing lv2(3) l1 l2 lst(1,3) False pop e
          by (simp add: defs split: if_splits)
        with missing src lv1(2) lv2(2) False show ?thesis by (simp add: spec_move_def Let_def p(3))
      next
        case (str e)
        with l1 l2 lv1(2) lv2 lst(1,3) False src show ?thesis by (simp add: defs refines_def)
      next
        case (lst e)
        have "refines (ListMove clk src dst fromLeft toLeft s)
          (Inr (Some (end_value fromLeft (contents (o_list obj)))),
           (store_list src (drop_end fromLeft (contents (o_list obj))) (deadline obj) (abs_store s2))
             (dst \<mapsto> (AList (add_ends [v] toLeft (contents (o_list e))), deadline e)))"
          using pair[of e toLeft "clk 3" "clk 2"] lst lv2(3) l1 l2 \<open>r = Some obj\<close> \<open>o_kind obj = ListKind\<close> False pop
          by (simp add: defs split: if_splits)
        with list_atD(5)[OF lst(2)] src lv1(2) lv2(2) False show ?thesis by (simp add: spec_move_def Let_def p(3))
      qed
    qed
  qed
qed

end
