(* ===== verification/Maintenance.thy ===== *)
theory Maintenance
  imports StoreList
begin

text \<open>
  Active expiration, eviction sampling and snapshots: the operations of
  \<open>internal/storage/storage.go\<close> and \<open>memory.go\<close> that walk the shards. Random draws
  are a stream \<open>rnd\<close> of natural numbers; \<open>rand.IntN(n)\<close> is the next draw modulo
  \<open>n\<close>. The order in which Go ranges over a map is a parameter.
\<close>

subsection \<open>Sampling and deleting expired keys\<close>

definition IntN :: "(nat \<Rightarrow> nat) \<Rightarrow> nat \<Rightarrow> nat \<Rightarrow> nat" where
  "IntN rnd t n = rnd t mod n"

text \<open>The sampled keys of one shard: how many count, which are expired, which are stale.\<close>

fun visit_keys :: "time \<Rightarrow> shard \<Rightarrow> key list \<Rightarrow> nat \<times> key list \<times> key list" where
  "visit_keys now sh [] = (0, [], [])"
| "visit_keys now sh (key # keys) =
     (let (sampled, dead, stale) = visit_keys now sh keys
      in case sh_data sh key of
           None \<Rightarrow> (sampled, dead, key # stale)
         | Some obj \<Rightarrow>
             if IsZero (o_expires obj) then (sampled, dead, key # stale)
             else (sampled + 1, if IsExpired obj now then key # dead else dead, stale))"

primrec sample_shards ::
  "time \<Rightarrow> (nat \<Rightarrow> nat) \<Rightarrow> nat \<Rightarrow> nat \<Rightarrow> nat list \<Rightarrow> nat \<Rightarrow> nat \<Rightarrow> key list \<Rightarrow> Store \<Rightarrow> (nat \<times> key list) \<times> Store"
where
  "sample_shards now rnd limit start [] t sampled dead s = ((sampled, dead), s)"
| "sample_shards now rnd limit start (i # is) t sampled dead s =
     (if sampled < limit then
        let idx = (start + i) mod numShards;
            sh = shards s idx;
            n = ix_size (sh_volatile sh)
        in if n = 0 then sample_shards now rnd limit start is t sampled dead s
           else let offset = IntN rnd t n;
                    take = min n (min 5 (limit - sampled));
                    (c, ex, stale) = visit_keys now sh (map (\<lambda>j. ix_at (sh_volatile sh) ((offset + j) mod n)) [0..<take]);
                    s = fold (volatile_remove idx) stale s
                in sample_shards now rnd limit start is (t + 1) (sampled + c) (dead @ ex) s
      else ((sampled, dead), s))"

definition sampleExpired :: "time \<Rightarrow> (nat \<Rightarrow> nat) \<Rightarrow> nat \<Rightarrow> Store \<Rightarrow> (nat \<times> key list) \<times> Store" where
  "sampleExpired now rnd limit s =
     sample_shards now rnd limit (IntN rnd 0 numShards) [0..<numShards] 1 0 [] s"

definition FilterExpired :: "time \<Rightarrow> key list \<Rightarrow> Store \<Rightarrow> key list" where
  "FilterExpired now candidates s =
     filter (\<lambda>key. case sh_data (shards s (getShardIndex key)) key of
                     None \<Rightarrow> False | Some obj \<Rightarrow> IsExpired obj now) candidates"

fun DeleteExpired :: "time \<Rightarrow> key list \<Rightarrow> Store \<Rightarrow> nat \<times> Store" where
  "DeleteExpired now [] s = (0, s)"
| "DeleteExpired now (key # keys) s =
     (case sh_data (shards s (getShardIndex key)) key of
        Some obj \<Rightarrow>
          if IsExpired obj now
          then let (deleted, s) = DeleteExpired now keys (remove (getShardIndex key) key s) in (deleted + 1, s)
          else DeleteExpired now keys s
      | None \<Rightarrow> DeleteExpired now keys s)"

text \<open>The result is the number the log line reports, if it is written.\<close>

definition reportActiveExpiration :: "time \<Rightarrow> int \<Rightarrow> Store \<Rightarrow> int option \<times> Store" where
  "reportActiveExpiration now deleted s =
     (let s = s\<lparr>pendingExpired := pendingExpired s + deleted\<rparr>
      in if pendingExpired s = 0 \<or>
            (\<not> IsZero (lastExpirationLog s) \<and> Sub now (lastExpirationLog s) < 60 * Second)
         then (None, s)
         else (Some (pendingExpired s), s\<lparr>pendingExpired := 0, lastExpirationLog := now\<rparr>))"

text \<open>
  \<open>ActiveExpireCycleWith\<close>: the callback may change state of its owner, so the loop
  threads a pair of that state and the store. Iteration \<open>it\<close> reads the clock at
  \<open>25 * it + 1\<close> (elapsed time) and \<open>25 * it + 2\<close> (sampling) and hands the readings from
  \<open>25 * it + 3\<close> on to the callback. Its 23 readings are enough to filter, to journal the
  at most 20 keys of a sample and to delete.
\<close>

type_synonym 'a remover = "(nat \<Rightarrow> time) \<Rightarrow> key list \<Rightarrow> 'a \<times> Store \<Rightarrow> (nat \<times> bool) \<times> ('a \<times> Store)"

definition remove_expired ::
  "'a remover option \<Rightarrow> (nat \<Rightarrow> time) \<Rightarrow> key list \<Rightarrow> 'a \<times> Store \<Rightarrow> (nat \<times> bool) \<times> ('a \<times> Store)"
where
  "remove_expired rm clk dead st =
     (if dead = [] then ((0, False), st)
      else case rm of
             None \<Rightarrow> (let (deleted, s) = DeleteExpired (clk 0) dead (snd st) in ((deleted, False), (fst st, s)))
           | Some f \<Rightarrow> f clk dead st)"

primrec expire_loop ::
  "(nat \<Rightarrow> time) \<Rightarrow> (nat \<Rightarrow> nat \<Rightarrow> nat) \<Rightarrow> 'a remover option \<Rightarrow> nat list \<Rightarrow> nat \<Rightarrow> 'a \<times> Store \<Rightarrow> nat \<times> ('a \<times> Store)"
where
  "expire_loop clk rnd rm [] totalDeleted st = (totalDeleted, st)"
| "expire_loop clk rnd rm (it # its) totalDeleted st =
     (if Sub (clk (25 * it + 1)) (clk 0) \<ge> 25 * Millisecond then (totalDeleted, st)
      else let ((sampled, dead), s) = sampleExpired (clk (25 * it + 2)) (rnd it) 20 (snd st);
               st = (fst st, s)
           in if sampled = 0 then (totalDeleted, st)
              else let ((deleted, err), st) = remove_expired rm (\<lambda>n. clk (25 * it + 3 + n)) dead st;
                       totalDeleted = totalDeleted + deleted
                   in if err \<or> f64 (of_nat (length dead) / of_nat sampled) \<le> 1 / 4 then (totalDeleted, st)
                      else expire_loop clk rnd rm its totalDeleted st)"

definition ActiveExpireCycleWith ::
  "(nat \<Rightarrow> time) \<Rightarrow> (nat \<Rightarrow> nat \<Rightarrow> nat) \<Rightarrow> 'a remover option \<Rightarrow> 'a \<times> Store \<Rightarrow> nat \<times> ('a \<times> Store)"
where
  "ActiveExpireCycleWith clk rnd rm st =
     (let (totalDeleted, st) = expire_loop clk rnd rm [0..<16] 0 st;
          (_, s) = reportActiveExpiration (clk 401) (int totalDeleted) (snd st)
      in (totalDeleted, (fst st, s)))"

definition ActiveExpireCycle :: "(nat \<Rightarrow> time) \<Rightarrow> (nat \<Rightarrow> nat \<Rightarrow> nat) \<Rightarrow> Store \<Rightarrow> nat \<times> Store" where
  "ActiveExpireCycle clk rnd s =
     (let (totalDeleted, st) = ActiveExpireCycleWith clk rnd None ((), s) in (totalDeleted, snd st))"

subsection \<open>Eviction sampling\<close>

record lru_scan =
  victim :: "key option"
  oldest :: int
  sampled_keys :: "key list"

primrec lru_shards :: "(nat \<Rightarrow> nat) \<Rightarrow> nat \<Rightarrow> nat list \<Rightarrow> Store \<Rightarrow> lru_scan \<Rightarrow> lru_scan" where
  "lru_shards rnd start [] s r = r"
| "lru_shards rnd start (i # is) s r =
     (if length (sampled_keys r) < 5 then
        let sh = shards s ((start + i) mod numShards);
            n = ix_size (sh_all sh)
        in if n > 0 then
             let key = ix_at (sh_all sh) (IntN rnd (length (sampled_keys r) + 1) n);
                 access = (case sh_data sh key of Some obj \<Rightarrow> o_access obj | None \<Rightarrow> 0);
                 r = (if victim r = None \<or> access < oldest r then r\<lparr>victim := Some key, oldest := access\<rparr> else r)
             in lru_shards rnd start is s (r\<lparr>sampled_keys := sampled_keys r @ [key]\<rparr>)
           else lru_shards rnd start is s r
      else r)"

definition LRUVictim :: "(nat \<Rightarrow> nat) \<Rightarrow> Store \<Rightarrow> key option" where
  "LRUVictim rnd s =
     victim (lru_shards rnd (IntN rnd 0 numShards) [0..<numShards] s
       \<lparr>victim = None, oldest = 2 ^ 63 - 1, sampled_keys = []\<rparr>)"

subsection \<open>Snapshots\<close>

record SnapshotEntry =
  se_key :: key
  se_value :: string
  se_expires :: time
  se_kind :: ValueKind
  se_list :: "string list"

definition snapshot_key :: "time \<Rightarrow> shard \<Rightarrow> key \<Rightarrow> SnapshotEntry option" where
  "snapshot_key now sh key =
     (case sh_data sh key of
        None \<Rightarrow> None
      | Some obj \<Rightarrow>
          if IsExpired obj now then None
          else Some \<lparr>se_key = key, se_value = o_value obj, se_expires = o_expires obj, se_kind = o_kind obj,
                 se_list = (if o_kind obj = ListKind then rangeCopy 0 (lv_Len (o_list obj)) (o_list obj) else [])\<rparr>)"

text \<open>The loop over the keys of all shards; the callback's error ends it.\<close>

fun visit_snapshot ::
  "time \<Rightarrow> Store \<Rightarrow> (SnapshotEntry \<Rightarrow> 'a \<Rightarrow> 'e option \<times> 'a) \<Rightarrow> (nat \<times> key) list \<Rightarrow> 'a \<Rightarrow> 'e option \<times> 'a"
where
  "visit_snapshot now s visit [] a = (None, a)"
| "visit_snapshot now s visit ((i, key) # rest) a =
     (case snapshot_key now (shards s i) key of
        None \<Rightarrow> visit_snapshot now s visit rest a
      | Some entry \<Rightarrow>
          (case visit entry a of
             (None, a) \<Rightarrow> visit_snapshot now s visit rest a
           | (Some err, a) \<Rightarrow> (Some err, a)))"

definition ForEachSnapshot ::
  "time \<Rightarrow> (nat \<Rightarrow> key list) \<Rightarrow> (SnapshotEntry \<Rightarrow> 'a \<Rightarrow> 'e option \<times> 'a) \<Rightarrow> Store \<Rightarrow> 'a \<Rightarrow> 'e option \<times> 'a"
where
  "ForEachSnapshot now order visit s a =
     visit_snapshot now s visit (concat (map (\<lambda>i. map (Pair i) (order i)) [0..<numShards])) a"

definition SnapshotEntries :: "time \<Rightarrow> (nat \<Rightarrow> key list) \<Rightarrow> Store \<Rightarrow> unit option \<times> SnapshotEntry list" where
  "SnapshotEntries now order s = ForEachSnapshot now order (\<lambda>e es. (None, es @ [e])) s []"

subsection \<open>Expiration removes expired keys only\<close>

definition expired_key :: "time \<Rightarrow> Store \<Rightarrow> key \<Rightarrow> bool" where
  "expired_key now s k = (case lookup s k of None \<Rightarrow> False | Some obj \<Rightarrow> IsExpired obj now)"

lemma expired_key_abs: "expired_key now s k \<longleftrightarrow> (\<exists>e. abs_store s k = Some e \<and> expired now e)"
  by (cases "lookup s k") (simp_all add: expired_key_def abs_store_def IsExpired_abs)

lemma volatile_key:
  assumes "store_inv s" "i < numShards" "key \<in> ix_members (sh_volatile (shards s i))"
  obtains obj where "sh_data (shards s i) key = Some obj" "\<not> IsZero (o_expires obj)" "getShardIndex key = i"
proof -
  have "shard_inv i (shards s i)" using assms(1,2) by (simp add: store_inv_def base_inv_def)
  with assms(3) have i: "getShardIndex key = i" by (simp add: shard_inv_def homed_def)
  with assms have "has_deadline (lookup s key)" by (auto simp: store_inv_def vol_inv_def vol_def)
  with i that show ?thesis by (auto simp: has_deadline_def lookup_def split: option.splits)
qed

lemma visit_keys_live:
  assumes "\<And>k. k \<in> set keys \<Longrightarrow> \<exists>obj. sh_data sh k = Some obj \<and> \<not> IsZero (o_expires obj)"
  shows "visit_keys now sh keys = (length keys, filter (\<lambda>k. IsExpired (the (sh_data sh k)) now) keys, [])"
  using assms
proof (induction keys)
  case (Cons k keys)
  obtain obj where "sh_data sh k = Some obj" "\<not> IsZero (o_expires obj)"
    using Cons.prems[of k] by auto
  moreover have "visit_keys now sh keys = (length keys, filter (\<lambda>k. IsExpired (the (sh_data sh k)) now) keys, [])"
    by (rule Cons.IH) (rule Cons.prems, simp)
  ultimately show ?case by simp
qed simp

lemma ix_at_member: "n = ix_size ix \<Longrightarrow> 0 < n \<Longrightarrow> ix_at ix (j mod n) \<in> ix_members ix"
  by (simp add: ix_at_def ix_size_def ix_members_def)

lemma visit_shard:
  assumes "store_inv s" "i < numShards" "n = ix_size (sh_volatile (shards s i))" "0 < n"
    "visit_keys now (shards s i) (map (\<lambda>j. ix_at (sh_volatile (shards s i)) ((offset + j) mod n)) [0..<cnt])
      = (c, ex, stale)"
  shows "c = cnt" "stale = []" "length ex \<le> cnt" "\<forall>k \<in> set ex. expired_key now s k"
proof -
  let ?ks = "map (\<lambda>j. ix_at (sh_volatile (shards s i)) ((offset + j) mod n)) [0..<cnt]"
  have live: "\<exists>obj. sh_data (shards s i) k = Some obj \<and> \<not> IsZero (o_expires obj) \<and> getShardIndex k = i"
    if "k \<in> set ?ks" for k
  proof -
    from that obtain j where "k = ix_at (sh_volatile (shards s i)) ((offset + j) mod n)" by auto
    then have "k \<in> ix_members (sh_volatile (shards s i))" using ix_at_member[OF assms(3,4)] by simp
    then show ?thesis using volatile_key[OF assms(1,2)] by metis
  qed
  then have v: "visit_keys now (shards s i) ?ks =
      (length ?ks, filter (\<lambda>k. IsExpired (the (sh_data (shards s i) k)) now) ?ks, [])"
    by (intro visit_keys_live) blast
  have ex: "ex = filter (\<lambda>k. IsExpired (the (sh_data (shards s i) k)) now) ?ks"
    and "c = cnt" "stale = []"
    using v[unfolded assms(5)] by simp_all
  then show "c = cnt" "stale = []" by simp_all
  show "length ex \<le> cnt" unfolding ex by (rule order_trans[OF length_filter_le]) simp
  show "\<forall>k \<in> set ex. expired_key now s k"
  proof
    fix k
    assume "k \<in> set ex"
    then have "k \<in> set ?ks" "IsExpired (the (sh_data (shards s i) k)) now" by (auto simp: ex)
    with live[of k] show "expired_key now s k" by (auto simp: expired_key_def lookup_def)
  qed
qed

lemma sample_shards_correct:
  assumes "store_inv s" "\<forall>k \<in> set dead. expired_key now s k" "length dead \<le> sampled" "sampled \<le> limit"
    "sample_shards now rnd limit start is t sampled dead s = ((n, ks), s')"
  shows "s' = s \<and> sampled \<le> n \<and> n \<le> limit \<and> length ks \<le> n \<and> (\<forall>k \<in> set ks. expired_key now s k) \<and>
    (n = 0 \<and> 0 < limit \<longrightarrow> (\<forall>i \<in> set is. ix_size (sh_volatile (shards s ((start + i) mod numShards))) = 0))"
  using assms
proof (induction "is" arbitrary: t sampled dead)
  case (Cons i "is")
  let ?sh = "shards s ((start + i) mod numShards)"
  let ?n = "ix_size (sh_volatile ?sh)"
  show ?case
  proof (cases "sampled < limit \<and> ?n \<noteq> 0")
    case False
    then show ?thesis
      using Cons.prems Cons.IH[OF Cons.prems(1-4), of t] by (auto simp: Let_def split: if_splits)
  next
    case True
    let ?take = "min ?n (min 5 (limit - sampled))"
    obtain c ex stale where v: "visit_keys now ?sh
        (map (\<lambda>j. ix_at (sh_volatile ?sh) ((IntN rnd t ?n + j) mod ?n)) [0..<?take]) = (c, ex, stale)"
      by (metis surj_pair)
    have "0 < ?n" using True by simp
    note vs = visit_shard[OF Cons.prems(1) _ refl this v]
    have loop: "sample_shards now rnd limit start is (t + 1) (sampled + c) (dead @ ex) s = ((n, ks), s')"
      using Cons.prems(5) True v vs(2) by (simp add: Let_def)
    have c: "c = ?take" "length ex \<le> ?take" "\<forall>k \<in> set ex. expired_key now s k" using vs(1,3,4) by simp_all
    then have "\<forall>k \<in> set (dead @ ex). expired_key now s k" "length (dead @ ex) \<le> sampled + c"
      "sampled + c \<le> limit" "0 < c"
      using Cons.prems(2,3) True by auto
    from Cons.IH[OF Cons.prems(1) this(1-3) loop] this(4) show ?thesis by simp
  qed
qed simp

lemma shard_covered: "\<exists>i < numShards. (st + i) mod numShards = getShardIndex k"
proof -
  have "(st + (getShardIndex k + numShards - st mod numShards) mod numShards) mod numShards
      = (st mod numShards + (getShardIndex k + numShards - st mod numShards)) mod numShards"
    by (simp add: mod_add_right_eq mod_add_left_eq)
  also have "\<dots> = getShardIndex k"
    using mod_less_divisor[OF numShards_pos, of st] by (simp del: mod_less_divisor)
  finally show ?thesis by (meson mod_less_divisor numShards_pos)
qed

lemma sampleExpired_correct:
  assumes "store_inv s" "sampleExpired now rnd limit s = ((n, ks), s')"
  shows "s' = s" "n \<le> limit" "length ks \<le> n" "\<forall>k \<in> set ks. expired_key now s k"
    "n = 0 \<Longrightarrow> 0 < limit \<Longrightarrow> \<not> has_deadline (lookup s k)"
proof -
  let ?start = "IntN rnd 0 numShards"
  note c = sample_shards_correct[OF assms(1) _ _ _ assms(2)[unfolded sampleExpired_def]]
  then show "s' = s" "n \<le> limit" "length ks \<le> n" "\<forall>k \<in> set ks. expired_key now s k"
    by simp_all
  assume "n = 0" "0 < limit"
  then have empty: "ix_size (sh_volatile (shards s ((?start + i) mod numShards))) = 0" if "i < numShards" for i
    using c that by auto
  obtain i where "i < numShards" "(?start + i) mod numShards = getShardIndex k"
    using shard_covered by blast
  with empty[of i] have "ix_size (sh_volatile (shards s (getShardIndex k))) = 0" by simp
  then have "\<not> vol s k" by (simp add: vol_def ix_members_def ix_size_def)
  with assms(1) show "\<not> has_deadline (lookup s k)" by (simp add: store_inv_def vol_inv_def)
qed

lemma DeleteExpired_refines:
  assumes "store_inv s" "DeleteExpired now ks s = (n, s')"
  shows "store_inv s' \<and> abs_store s' = fold (purge now) ks (abs_store s)"
  using assms
proof (induction ks arbitrary: s n s')
  case (Cons k ks)
  show ?case
  proof (cases "expired_key now s k")
    case True
    then obtain obj where o: "lookup s k = Some obj" "IsExpired obj now"
      by (auto simp: expired_key_def split: option.splits)
    let ?s = "remove (getShardIndex k) k s"
    obtain n' where "DeleteExpired now ks ?s = (n', s')"
      using Cons.prems(2) o by (auto simp: lookup_shard split: prod.splits)
    note IH = Cons.IH[OF remove_refines(1)[OF Cons.prems(1)] this]
    have "purge now k (abs_store s) = (abs_store s)(k := None)"
      using o by (simp add: purge_def abs_store_def IsExpired_abs)
    then show ?thesis
      using IH by (simp only: fold_simps remove_refines(2)[OF Cons.prems(1)])
  next
    case False
    then have "DeleteExpired now ks s = (n, s')"
      using Cons.prems(2) by (auto simp: expired_key_def lookup_shard split: option.splits if_splits)
    moreover have "purge now k (abs_store s) = abs_store s"
      using False by (auto simp: expired_key_abs purge_def split: option.splits)
    ultimately show ?thesis using Cons.IH[OF Cons.prems(1)] by simp
  qed
qed simp

lemma fold_purge: "fold (purge now) ks m k =
  (if k \<in> set ks then case m k of None \<Rightarrow> None | Some e \<Rightarrow> if expired now e then None else Some e else m k)"
proof (induction ks arbitrary: m)
  case (Cons q ks)
  show ?case by (auto simp: Cons purge_same purge_other split: option.splits)
qed simp

lemma DeleteExpired_count:
  assumes "store_inv s" "DeleteExpired now ks s = (n, s')"
  shows "n = card {k \<in> set ks. expired_key now s k}"
  using assms
proof (induction ks arbitrary: s n)
  case (Cons k ks)
  show ?case
  proof (cases "expired_key now s k")
    case True
    then obtain obj where o: "lookup s k = Some obj" "IsExpired obj now"
      by (auto simp: expired_key_def split: option.splits)
    let ?s = "remove (getShardIndex k) k s"
    obtain n' where d: "DeleteExpired now ks ?s = (n', s')" "n = n' + 1"
      using Cons.prems(2) o by (auto simp: lookup_shard split: prod.splits)
    have "{q \<in> set (k # ks). expired_key now s q} = insert k {q \<in> set ks. expired_key now ?s q}"
      using True by (auto simp: expired_key_def)
    moreover have "k \<notin> {q \<in> set ks. expired_key now ?s q}" by (simp add: expired_key_def)
    ultimately show ?thesis
      using Cons.IH[OF remove_refines(1)[OF Cons.prems(1)] d(1)] d(2) by simp
  next
    case False
    then have "DeleteExpired now ks s = (n, s')"
      using Cons.prems(2) by (auto simp: expired_key_def lookup_shard split: option.splits if_splits)
    moreover have "{q \<in> set (k # ks). expired_key now s q} = {q \<in> set ks. expired_key now s q}"
      using False by auto
    ultimately show ?thesis using Cons.IH[OF Cons.prems(1)] by simp
  qed
qed simp

text \<open>
  The contract between the expiry cycle and the callback that deletes a batch: the callback
  keeps the owner's invariant and relates the states before and after by a preorder. The
  cycle then does both, whatever it samples.
\<close>

definition log_fields :: "int \<Rightarrow> time \<Rightarrow> Store \<Rightarrow> Store" where
  "log_fields p t s = s\<lparr>pendingExpired := p, lastExpirationLog := t\<rparr>"

lemma log_fields_simps [simp]:
  "lookup (log_fields p t s) = lookup s" "vol (log_fields p t s) = vol s"
  "base_inv (log_fields p t s) = base_inv s"
  by (simp_all add: log_fields_def lookup_def vol_def base_inv_def total_memory_def fun_eq_iff)

lemma log_fields_refines [simp]:
  "store_inv (log_fields p t s) = store_inv s" "abs_store (log_fields p t s) = abs_store s"
  by (simp_all add: store_inv_def vol_inv_def abs_store_def fun_eq_iff)

lemma reportActiveExpiration_log: "\<exists>p t. snd (reportActiveExpiration now n s) = log_fields p t s"
proof (cases s)
  case (fields sh u l p)
  have "s\<lparr>pendingExpired := q, lastExpirationLog := l\<rparr> = s\<lparr>pendingExpired := q\<rparr>" for q
    by (simp add: fields)
  then show ?thesis
    unfolding reportActiveExpiration_def log_fields_def Let_def by (auto simp: fields)
qed

locale expiry_callback =
  fixes inv :: "'a \<times> Store \<Rightarrow> bool"
    and rel :: "time \<Rightarrow> 'a \<times> Store \<Rightarrow> 'a \<times> Store \<Rightarrow> bool"
    and rm :: "'a remover option"
  assumes inv_store: "inv st \<Longrightarrow> store_inv (snd st)"
    and rel_refl: "rel now st st"
    and rel_trans: "rel now st st' \<Longrightarrow> rel now st' st'' \<Longrightarrow> rel now st st''"
    and rel_mono: "rel now st st' \<Longrightarrow> now \<le> later \<Longrightarrow> rel later st st'"
    and inv_log: "inv (a, s) \<Longrightarrow> inv (a, log_fields p t s)"
    and rel_log: "rel now st (a, s) \<Longrightarrow> rel now st (a, log_fields p t s)"
    and inv_remove: "inv st \<Longrightarrow> mono clk \<Longrightarrow> remove_expired rm clk ks st = (r, st') \<Longrightarrow> inv st'"
    and rel_remove: "inv st \<Longrightarrow> mono clk \<Longrightarrow> remove_expired rm clk ks st = (r, st') \<Longrightarrow> rel (clk 22) st st'"
begin

lemma loop:
  assumes "mono clk" "inv st" "set its \<subseteq> {..<16}" "expire_loop clk rnd rm its n st = (m, st')"
  shows "inv st' \<and> rel (clk 401) st st'"
  using assms
proof (induction its arbitrary: n st)
  case (Cons it its)
  obtain c ks s where smp: "sampleExpired (clk (25 * it + 2)) (rnd it) 20 (snd st) = ((c, ks), s)"
    by (metis surj_pair)
  have s: "s = snd st" using sampleExpired_correct(1)[OF inv_store[OF Cons.prems(2)] smp] .
  obtain d err st1 where rm: "remove_expired rm (\<lambda>n. clk (25 * it + 3 + n)) ks st = ((d, err), st1)"
    by (metis surj_pair)
  have mn: "mono (\<lambda>n. clk (25 * it + 3 + n))" using Cons.prems(1) by (simp add: mono_def)
  have i1: "inv st1" and r1: "rel (clk (25 * it + 3 + 22)) st st1"
    using inv_remove[OF Cons.prems(2) mn rm] rel_remove[OF Cons.prems(2) mn rm] by auto
  have "25 * it + 3 + 22 \<le> 401" using Cons.prems(3) by simp
  then have "clk (25 * it + 3 + 22) \<le> clk 401" by (rule monoD[OF Cons.prems(1)])
  with r1 have r401: "rel (clk 401) st st1" by (rule rel_mono)
  consider "(m, st') = (n, st)" | "(m, st') = (n + d, st1)" | "expire_loop clk rnd rm its (n + d) st1 = (m, st')"
    using Cons.prems(4)
    unfolding expire_loop.simps smp Let_def split_conv s prod.collapse rm
    by (metis (no_types))
  then show ?case
  proof cases
    case 3
    with Cons.IH[OF Cons.prems(1) i1 _ 3] Cons.prems(3) r401 rel_trans[OF r401] show ?thesis by simp
  qed (use Cons.prems(2) i1 r401 rel_refl in auto)
qed (simp add: rel_refl)

lemma cycle:
  assumes "mono clk" "inv st" "ActiveExpireCycleWith clk rnd rm st = (n, st')"
  shows "inv st' \<and> rel (clk 401) st st'"
proof -
  obtain m a s where l: "expire_loop clk rnd rm [0..<16] 0 st = (m, (a, s))"
    by (metis surj_pair)
  obtain p t where "snd (reportActiveExpiration (clk 401) (int m) s) = log_fields p t s"
    using reportActiveExpiration_log by blast
  with assms(3) l have "st' = (a, log_fields p t s)"
    by (auto simp: ActiveExpireCycleWith_def split_beta)
  moreover have "set [0..<16] \<subseteq> {..<16 :: nat}" by auto
  note loop[OF assms(1,2) this l]
  ultimately show ?thesis by (simp add: inv_log rel_log)
qed

end

text \<open>Without a callback: what the cycle removed was expired at its last clock reading.\<close>

definition only_expired :: "time \<Rightarrow> amap \<Rightarrow> amap \<Rightarrow> bool" where
  "only_expired now m m' \<longleftrightarrow> (\<forall>k. m' k = m k \<or> m' k = None \<and> (\<exists>e. m k = Some e \<and> expired now e))"

lemma expired_mono: "expired now e \<Longrightarrow> now \<le> later \<Longrightarrow> expired later e"
  by (auto simp: expired_def split: option.splits)

lemma only_expired_refl [simp]: "only_expired now m m"
  by (simp add: only_expired_def)

lemma only_expired_trans: "only_expired now m m' \<Longrightarrow> only_expired now m' m'' \<Longrightarrow> only_expired now m m''"
  unfolding only_expired_def by metis

lemma only_expired_mono: "only_expired now m m' \<Longrightarrow> now \<le> later \<Longrightarrow> only_expired later m m'"
  unfolding only_expired_def by (meson expired_mono)

lemma only_expired_purge: "only_expired now m (fold (purge now) ks m)"
  by (auto simp: only_expired_def fold_purge split: option.splits)

lemma remove_expired_None:
  assumes "store_inv (snd st)" "mono clk" "remove_expired None clk ks st = (r, st')"
  shows "store_inv (snd st')" "only_expired (clk 22) (abs_store (snd st)) (abs_store (snd st'))" "fst st' = fst st"
  using assms DeleteExpired_refines[OF assms(1) prod.collapse[symmetric], of "clk 0" ks]
  by (auto simp: remove_expired_def split_beta split: if_splits
      intro: only_expired_mono[OF only_expired_purge monoD])

interpretation direct: expiry_callback "\<lambda>st :: unit \<times> Store. store_inv (snd st)"
  "\<lambda>now st st'. only_expired now (abs_store (snd st)) (abs_store (snd st'))" None
  by unfold_locales
    (auto simp: remove_expired_None intro: only_expired_trans only_expired_mono)

lemma ActiveExpireCycle_refines:
  assumes "store_inv s" "mono clk" "ActiveExpireCycle clk rnd s = (n, s')"
  shows "store_inv s' \<and> only_expired (clk 401) (abs_store s) (abs_store s')"
  using direct.cycle[OF assms(2) _ prod.collapse[symmetric], of "((), s)" rnd] assms(1,3)
  by (auto simp: ActiveExpireCycle_def split_beta)

subsection \<open>Eviction picks a stored key\<close>

definition access_of :: "Store \<Rightarrow> key \<Rightarrow> int" where
  "access_of s k = (case lookup s k of Some obj \<Rightarrow> o_access obj | None \<Rightarrow> 0)"

definition scan_ok :: "Store \<Rightarrow> lru_scan \<Rightarrow> bool" where
  "scan_ok s r \<longleftrightarrow> set (sampled_keys r) \<subseteq> dom (lookup s) \<and>
     (case victim r of
        None \<Rightarrow> sampled_keys r = []
      | Some v \<Rightarrow> v \<in> set (sampled_keys r) \<and> oldest r = access_of s v \<and>
                   (\<forall>k \<in> set (sampled_keys r). access_of s v \<le> access_of s k))"

lemma all_key:
  assumes "store_inv s" "i < numShards" "0 < ix_size (sh_all (shards s i))"
    "k = ix_at (sh_all (shards s i)) (IntN rnd t (ix_size (sh_all (shards s i))))"
  shows "getShardIndex k = i" "lookup s k \<noteq> None"
    "(case sh_data (shards s i) k of Some obj \<Rightarrow> o_access obj | None \<Rightarrow> 0) = access_of s k"
proof -
  have sh: "shard_inv i (shards s i)" using assms(1,2) by (simp add: store_inv_def base_inv_def)
  have "k \<in> ix_members (sh_all (shards s i))"
    unfolding assms(4) IntN_def by (rule ix_at_member[OF refl assms(3)])
  then have k: "k \<in> dom (sh_data (shards s i))" using sh by (simp add: shard_inv_def)
  then show i: "getShardIndex k = i" using sh by (simp add: shard_inv_def homed_def)
  with k show "lookup s k \<noteq> None"
    "(case sh_data (shards s i) k of Some obj \<Rightarrow> o_access obj | None \<Rightarrow> 0) = access_of s k"
    by (auto simp: lookup_def access_of_def)
qed

lemma scan_ok_None: "scan_ok s r \<Longrightarrow> victim r = None \<Longrightarrow> sampled_keys r = []"
  by (simp add: scan_ok_def)

lemma scan_ok_step:
  assumes "scan_ok s r" "lookup s k \<noteq> None"
  shows "scan_ok s ((if victim r = None \<or> access_of s k < oldest r
    then r\<lparr>victim := Some k, oldest := access_of s k\<rparr> else r)\<lparr>sampled_keys := sampled_keys r @ [k]\<rparr>)"
  using assms by (fastforce simp: scan_ok_def split: option.splits)

lemma lru_shards_correct:
  assumes "store_inv s" "scan_ok s r"
  shows "scan_ok s (lru_shards rnd start is s r) \<and>
    (victim (lru_shards rnd start is s r) = None \<longrightarrow>
      (\<forall>i \<in> set is. ix_size (sh_all (shards s ((start + i) mod numShards))) = 0))"
  using assms(2)
proof (induction "is" arbitrary: r)
  case (Cons i "is")
  let ?sh = "shards s ((start + i) mod numShards)"
  let ?n = "ix_size (sh_all ?sh)"
  let ?k = "ix_at (sh_all ?sh) (IntN rnd (length (sampled_keys r) + 1) ?n)"
  consider "5 \<le> length (sampled_keys r)" | "length (sampled_keys r) < 5" "?n = 0"
    | "length (sampled_keys r) < 5" "0 < ?n" by linarith
  then show ?case
  proof cases
    case 1
    then have "victim r \<noteq> None" using scan_ok_None[OF Cons.prems] by (cases "victim r") auto
    with 1 Cons.prems show ?thesis by auto
  next
    case 2
    with Cons.IH[OF Cons.prems] show ?thesis by simp
  next
    case 3
    define r' where "r' = (if victim r = None \<or> access_of s ?k < oldest r
      then r\<lparr>victim := Some ?k, oldest := access_of s ?k\<rparr> else r)\<lparr>sampled_keys := sampled_keys r @ [?k]\<rparr>"
    have "(start + i) mod numShards < numShards" by simp
    note k = all_key[OF assms(1) this 3(2) refl]
    have ok: "scan_ok s r'" unfolding r'_def by (rule scan_ok_step[OF Cons.prems k(2)])
    have keys: "sampled_keys (if c then r\<lparr>victim := v, oldest := a\<rparr> else r) = sampled_keys r" for c v a
      by simp
    have "lru_shards rnd start (i # is) s r = lru_shards rnd start is s r'"
      unfolding lru_shards.simps Let_def k(3) keys r'_def using 3 by simp
    moreover have "victim (lru_shards rnd start is s r') \<noteq> None"
    proof -
      have "sampled_keys (lru_shards rnd start is s q) \<noteq> []" if "sampled_keys q \<noteq> []" for q
        using that by (induction "is" arbitrary: q) (simp_all add: Let_def)
      then have "sampled_keys (lru_shards rnd start is s r') \<noteq> []" by (simp add: r'_def)
      with Cons.IH[OF ok] scan_ok_None show ?thesis by blast
    qed
    ultimately show ?thesis using Cons.IH[OF ok] by metis
  qed
qed simp

lemma LRUVictim_correct:
  assumes "store_inv s"
  shows "LRUVictim rnd s = None \<longleftrightarrow> dom (lookup s) = {}"
    and "LRUVictim rnd s = Some k \<Longrightarrow> lookup s k \<noteq> None"
proof -
  let ?start = "IntN rnd 0 numShards"
  define r where "r = lru_shards rnd ?start [0..<numShards] s \<lparr>victim = None, oldest = 2 ^ 63 - 1, sampled_keys = []\<rparr>"
  have "scan_ok s \<lparr>victim = None, oldest = 2 ^ 63 - 1, sampled_keys = []\<rparr>" by (simp add: scan_ok_def)
  note c = lru_shards_correct[OF assms this, of rnd ?start "[0..<numShards]", folded r_def]
  have v: "LRUVictim rnd s = victim r" by (simp add: LRUVictim_def r_def)
  show stored: "lookup s k \<noteq> None" if "LRUVictim rnd s = Some k" for k
    using c that unfolding v by (auto simp: scan_ok_def)
  have "k \<notin> dom (lookup s)" if "LRUVictim rnd s = None" for k
  proof -
    obtain i where i: "i < numShards" "(?start + i) mod numShards = getShardIndex k"
      using shard_covered by blast
    have "\<forall>i \<in> set [0..<numShards]. ix_size (sh_all (shards s ((?start + i) mod numShards))) = 0"
      using c that unfolding v by blast
    from bspec[OF this, of i] i have "ix_size (sh_all (shards s (getShardIndex k))) = 0" by simp
    moreover have "shard_inv (getShardIndex k) (shards s (getShardIndex k))"
      using assms by (simp add: store_inv_def base_inv_shard)
    ultimately have "k \<notin> dom (sh_data (shards s (getShardIndex k)))"
      by (auto simp: shard_inv_def ix_members_def ix_size_def)
    then show ?thesis by (auto simp: lookup_def)
  qed
  then show "LRUVictim rnd s = None \<longleftrightarrow> dom (lookup s) = {}"
    using stored by (metis domIff empty_iff equals0I option.exhaust)
qed

subsection \<open>Snapshots hold every live key once\<close>

definition order_ok :: "(nat \<Rightarrow> key list) \<Rightarrow> Store \<Rightarrow> bool" where
  "order_ok order s \<longleftrightarrow>
     (\<forall>i < numShards. distinct (order i) \<and> set (order i) = dom (sh_data (shards s i)))"

definition entry_abs :: "SnapshotEntry \<Rightarrow> aentry" where
  "entry_abs e =
     (case se_kind e of StringKind \<Rightarrow> AStr (se_value e) | ListKind \<Rightarrow> AList (se_list e),
      if IsZero (se_expires e) then None else Some (se_expires e))"

fun visit_all :: "(SnapshotEntry \<Rightarrow> 'a \<Rightarrow> 'e option \<times> 'a) \<Rightarrow> SnapshotEntry list \<Rightarrow> 'a \<Rightarrow> 'e option \<times> 'a" where
  "visit_all visit [] a = (None, a)"
| "visit_all visit (e # es) a =
     (case visit e a of (None, a) \<Rightarrow> visit_all visit es a | (Some err, a) \<Rightarrow> (Some err, a))"

definition snapshot_keys :: "(nat \<Rightarrow> key list) \<Rightarrow> (nat \<times> key) list" where
  "snapshot_keys order = concat (map (\<lambda>i. map (Pair i) (order i)) [0..<numShards])"

definition snapshot_list :: "time \<Rightarrow> (nat \<Rightarrow> key list) \<Rightarrow> Store \<Rightarrow> SnapshotEntry list" where
  "snapshot_list now order s =
     List.map_filter (\<lambda>(i, k). snapshot_key now (shards s i) k) (snapshot_keys order)"

lemma visit_snapshot_all:
  "visit_snapshot now s visit ps a =
     visit_all visit (List.map_filter (\<lambda>(i, k). snapshot_key now (shards s i) k) ps) a"
  by (induction ps arbitrary: a) (auto simp: List.map_filter_def split: option.splits prod.splits)

lemma ForEachSnapshot_all: "ForEachSnapshot now order visit s a = visit_all visit (snapshot_list now order s) a"
  by (simp add: ForEachSnapshot_def snapshot_list_def snapshot_keys_def visit_snapshot_all)

lemma visit_all_collect: "visit_all (\<lambda>e es. (None, es @ [e])) es acc = (None, acc @ es)"
  by (induction es arbitrary: acc) simp_all

lemma SnapshotEntries_list: "SnapshotEntries now order s = (None, snapshot_list now order s)"
  by (simp add: SnapshotEntries_def ForEachSnapshot_all visit_all_collect)

lemma snapshot_key_abs:
  assumes "store_inv s" "snapshot_key now (shards s (getShardIndex k)) k = Some e"
  shows "se_key e = k" "abs_store s k = Some (entry_abs e)" "\<not> expired now (entry_abs e)"
proof -
  from assms(2) obtain obj where o: "lookup s k = Some obj" "\<not> IsExpired obj now"
    and e: "e = \<lparr>se_key = k, se_value = o_value obj, se_expires = o_expires obj, se_kind = o_kind obj,
      se_list = (if o_kind obj = ListKind then rangeCopy 0 (lv_Len (o_list obj)) (o_list obj) else [])\<rparr>"
    by (auto simp: snapshot_key_def lookup_shard split: option.splits if_splits)
  have "obj_abs obj = entry_abs e"
    by (cases "o_kind obj") (simp_all add: e obj_abs_def entry_abs_def rangeCopy_correct lv_Len_def)
  with o show "se_key e = k" "abs_store s k = Some (entry_abs e)" "\<not> expired now (entry_abs e)"
    by (simp_all add: e abs_store_def IsExpired_abs)
qed

lemma snapshot_keys_ok:
  assumes "store_inv s" "order_ok order s"
  shows "set (snapshot_keys order) = {(getShardIndex k, k) |k. lookup s k \<noteq> None}" "distinct (snapshot_keys order)"
proof -
  have ord: "set (order i) = dom (sh_data (shards s i))" if "i < numShards" for i
    using assms(2) that by (simp add: order_ok_def)
  have mem: "(i, k) \<in> set (snapshot_keys order) \<longleftrightarrow> i < numShards \<and> k \<in> set (order i)" for i k
    by (fastforce simp: snapshot_keys_def)
  have "(i, k) \<in> set (snapshot_keys order) \<longleftrightarrow> i = getShardIndex k \<and> lookup s k \<noteq> None" for i k
  proof (cases "i = getShardIndex k")
    case True
    then show ?thesis using ord[of i] by (auto simp: mem lookup_def)
  next
    case False
    have "\<forall>k \<in> dom (sh_data (shards s i)). homed i k" if "i < numShards"
      using assms(1) that by (simp add: store_inv_def base_inv_def shard_inv_def)
    with False have "k \<notin> dom (sh_data (shards s i))" if "i < numShards"
      using that unfolding homed_def by metis
    with False show ?thesis using ord[of i] by (auto simp: mem)
  qed
  then show "set (snapshot_keys order) = {(getShardIndex k, k) |k. lookup s k \<noteq> None}"
    by auto
  have "distinct (concat (map (\<lambda>i. map (Pair i) (order i)) [0..<n]))" if "n \<le> numShards" for n
    using that assms(2)
    by (induction n) (auto simp: order_ok_def distinct_map inj_on_def)
  then show "distinct (snapshot_keys order)" by (simp add: snapshot_keys_def)
qed

lemma snapshot_map_of:
  assumes "store_inv s" "set ps \<subseteq> {(getShardIndex k, k) |k. True}"
  shows "map_of (map (\<lambda>e. (se_key e, entry_abs e)) (List.map_filter (\<lambda>(i, k). snapshot_key now (shards s i) k) ps)) k
    = (if (getShardIndex k, k) \<in> set ps then purge now k (abs_store s) k else None)"
  using assms(2)
proof (induction ps)
  case (Cons p ps)
  then obtain q where p: "p = (getShardIndex q, q)" by auto
  show ?case
  proof (cases "snapshot_key now (shards s (getShardIndex q)) q")
    case None
    then have "purge now q (abs_store s) q = None"
      by (auto simp: snapshot_key_def lookup_shard purge_same abs_store_def IsExpired_abs split: option.splits if_splits)
    with Cons None show ?thesis by (auto simp: p List.map_filter_def)
  next
    case (Some e)
    note e = snapshot_key_abs[OF assms(1) Some]
    have "purge now q (abs_store s) q = Some (entry_abs e)" using e by (simp add: purge_same)
    with Cons Some e show ?thesis by (auto simp: p List.map_filter_def)
  qed
qed (simp add: List.map_filter_def)

lemma snapshot_correct:
  assumes "store_inv s" "order_ok order s"
  shows "map_of (map (\<lambda>e. (se_key e, entry_abs e)) (snapshot_list now order s)) k = purge now k (abs_store s) k"
    and "distinct (map se_key (snapshot_list now order s))"
proof -
  note ks = snapshot_keys_ok[OF assms]
  have "purge now k (abs_store s) k = None" if "lookup s k = None"
    using that by (simp add: purge_same abs_store_def)
  then show "map_of (map (\<lambda>e. (se_key e, entry_abs e)) (snapshot_list now order s)) k = purge now k (abs_store s) k"
    unfolding snapshot_list_def by (subst snapshot_map_of[OF assms(1)]) (auto simp: ks(1))
  have "distinct (map se_key (List.map_filter (\<lambda>(i, k). snapshot_key now (shards s i) k) ps)) \<and>
      se_key ` set (List.map_filter (\<lambda>(i, k). snapshot_key now (shards s i) k) ps) \<subseteq> snd ` set ps"
    if "set ps \<subseteq> {(getShardIndex k, k) |k. True}" "distinct ps" for ps
    using that
  proof (induction ps)
    case (Cons p ps)
    then obtain q where p: "p = (getShardIndex q, q)" by auto
    from Cons have "q \<notin> snd ` set ps" by (auto simp: p)
    with Cons show ?case
      by (cases "snapshot_key now (shards s (getShardIndex q)) q")
        (auto simp: p List.map_filter_simps snapshot_key_abs(1)[OF assms(1)])
  qed (simp add: List.map_filter_simps)
  from this[OF _ ks(2)] show "distinct (map se_key (snapshot_list now order s))"
    unfolding snapshot_list_def ks(1) by blast
qed

end
