(* ===== verification/StoreRuns.thy ===== *)
theory StoreRuns
  imports Maintenance
begin

text \<open>
  Any sequence of calls on the store. A call names a method of \<open>storage.Store\<close> with its
  arguments; \<open>run_call\<close> is the method, \<open>call_spec\<close> what the specification allows it
  to reply and to change. The locale \<open>simulation\<close> lifts a refinement of single
  calls to whole runs; it is interpreted on the store.
\<close>

datatype store_call =
    CSet key string int
  | CSetAt key string time
  | CGet key
  | CTTL key
  | CDel key
  | CExpire key int
  | CExpireAt key time
  | CPush key "string list" bool bool
  | CPop key bool int
  | CLen key
  | CRange key int int
  | CIndex key int
  | CSetIndex key int string
  | CTrim key int int
  | CRem key int string
  | CInsert key string string bool
  | CPosition key string int int int
  | CMove key key bool bool
  | CDeleteExpired "key list"
  | CActiveExpire "nat \<Rightarrow> nat \<Rightarrow> nat"

datatype call_reply =
    Done
  | Flag bool
  | Number int
  | Text "store_error + string option"
  | Count "store_error + int"
  | Items "store_error + string list"
  | Status "store_error option"
  | Indexes "store_error + int list"

definition run_call :: "(nat \<Rightarrow> time) \<times> store_call \<Rightarrow> Store \<Rightarrow> call_reply \<times> Store" where
  "run_call call s =
     (let clk = fst call in case snd call of
        CSet k v ttl \<Rightarrow> (Done, Set clk k v ttl s)
      | CSetAt k v t \<Rightarrow> (Done, SetAt clk k v t s)
      | CGet k \<Rightarrow> apfst Text (GetString clk k s)
      | CTTL k \<Rightarrow> apfst Number (TTL clk k s)
      | CDel k \<Rightarrow> apfst Flag (Del clk k s)
      | CExpire k n \<Rightarrow> apfst Flag (Expire clk k n s)
      | CExpireAt k t \<Rightarrow> apfst Flag (ExpireAt clk k t s)
      | CPush k vs left only \<Rightarrow> apfst Count (ListPush clk k vs left only s)
      | CPop k left n \<Rightarrow> apfst Items (ListPop clk k left n s)
      | CLen k \<Rightarrow> apfst Count (ListLen clk k s)
      | CRange k a b \<Rightarrow> apfst Items (ListRange clk k a b s)
      | CIndex k i \<Rightarrow> apfst Text (ListIndex clk k i s)
      | CSetIndex k i v \<Rightarrow> apfst Status (ListSet clk k i v s)
      | CTrim k a b \<Rightarrow> apfst (\<lambda>r. Status (case r of Inl e \<Rightarrow> Some e | Inr _ \<Rightarrow> None)) (ListTrim clk k a b s)
      | CRem k n v \<Rightarrow> apfst Count (ListRem clk k n v s)
      | CInsert k p v before \<Rightarrow> apfst Count (ListInsert clk k p v before s)
      | CPosition k v rank n maxLen \<Rightarrow> apfst Indexes (ListPosition clk k v rank n maxLen s)
      | CMove a b fromLeft toLeft \<Rightarrow> apfst Text (ListMove clk a b fromLeft toLeft s)
      | CDeleteExpired ks \<Rightarrow> (Done, snd (DeleteExpired (clk 0) ks s))
      | CActiveExpire rnd \<Rightarrow> (Done, snd (ActiveExpireCycle clk rnd s)))"

definition call_spec :: "(nat \<Rightarrow> time) \<times> store_call \<Rightarrow> amap \<Rightarrow> call_reply \<times> amap \<Rightarrow> bool" where
  "call_spec call m r =
     (let clk = fst call in case snd call of
        CSet k v ttl \<Rightarrow> r = (Done, spec_set k v (if ttl > 0 then Some (clk 0 + ttl) else None) m)
      | CSetAt k v t \<Rightarrow> r = (Done, spec_setAt (clk 0) k v t m)
      | CGet k \<Rightarrow> r = apfst Text (spec_get (clk 0) k m)
      | CTTL k \<Rightarrow> r = apfst Number (spec_ttl (clk 0) k m)
      | CDel k \<Rightarrow> r = apfst Flag (spec_del (clk 0) k m)
      | CExpire k n \<Rightarrow> r = apfst Flag
          (spec_expireAt (clk 1) k (if n > 0 then clk 0 + wrap64 (n * Second) else clk 0) m)
      | CExpireAt k t \<Rightarrow> r = apfst Flag (spec_expireAt (clk 0) k t m)
      | CPush k vs left only \<Rightarrow> r = apfst Count (spec_push (clk 0) k vs left only m)
      | CPop k left n \<Rightarrow> r = apfst Items (spec_pop (clk 0) k left (nat n) m)
      | CLen k \<Rightarrow> r = apfst Count (spec_len (clk 0) k m)
      | CRange k a b \<Rightarrow> r = apfst Items (spec_range (clk 0) k a b m)
      | CIndex k i \<Rightarrow> r = apfst Text (spec_index (clk 0) k i m)
      | CSetIndex k i v \<Rightarrow> r = apfst Status (spec_lset (clk 0) k i v m)
      | CTrim k a b \<Rightarrow> r = apfst (\<lambda>r. Status (case r of Inl e \<Rightarrow> Some e | Inr _ \<Rightarrow> None)) (spec_trim (clk 0) k a b m)
      | CRem k n v \<Rightarrow> r = apfst Count (spec_rem (clk 0) k n v m)
      | CInsert k p v before \<Rightarrow> r = apfst Count (spec_insert (clk 0) k p v before m)
      | CPosition k v rank n maxLen \<Rightarrow> r = apfst Indexes (spec_position (clk 0) k v rank n maxLen m)
      | CMove a b fromLeft toLeft \<Rightarrow> r = apfst Text (spec_move (clk 0) (clk 1) a b fromLeft toLeft m)
      | CDeleteExpired ks \<Rightarrow> r = (Done, fold (purge (clk 0)) ks m)
      | CActiveExpire rnd \<Rightarrow> fst r = Done \<and> only_expired (clk 401) m (snd r))"

text \<open>What the callers guarantee: at least one pushed value, a count that is not negative.\<close>

definition call_ok :: "(nat \<Rightarrow> time) \<times> store_call \<Rightarrow> bool" where
  "call_ok call \<longleftrightarrow> clock_ok (fst call) \<and>
     (case snd call of
        CPush k vs left only \<Rightarrow> vs \<noteq> []
      | CPop k left n \<Rightarrow> 0 \<le> n
      | CRem k n v \<Rightarrow> in_int64 n
      | _ \<Rightarrow> True)"

fun run_all :: "('op \<Rightarrow> 's \<Rightarrow> 'r \<times> 's) \<Rightarrow> 'op list \<Rightarrow> 's \<Rightarrow> 'r list \<times> 's" where
  "run_all step [] s = ([], s)"
| "run_all step (c # cs) s =
     (let (r, s) = step c s; (rs, s) = run_all step cs s in (r # rs, s))"

fun spec_all :: "('op \<Rightarrow> 'm \<Rightarrow> 'r \<times> 'm \<Rightarrow> bool) \<Rightarrow> 'op list \<Rightarrow> 'm \<Rightarrow> 'r list \<times> 'm \<Rightarrow> bool" where
  "spec_all spec [] m (rs, m') \<longleftrightarrow> rs = [] \<and> m' = m"
| "spec_all spec (c # cs) m (rs, m') \<longleftrightarrow>
     (\<exists>r rs1 m1. rs = r # rs1 \<and> spec c m (r, m1) \<and> spec_all spec cs m1 (rs1, m'))"

locale simulation =
  fixes inv :: "'s \<Rightarrow> bool"
    and abs :: "'s \<Rightarrow> 'm"
    and ok :: "'op \<Rightarrow> bool"
    and step :: "'op \<Rightarrow> 's \<Rightarrow> 'r \<times> 's"
    and spec :: "'op \<Rightarrow> 'm \<Rightarrow> 'r \<times> 'm \<Rightarrow> bool"
  assumes step_inv: "inv s \<Longrightarrow> ok c \<Longrightarrow> step c s = (r, s') \<Longrightarrow> inv s'"
    and step_spec: "inv s \<Longrightarrow> ok c \<Longrightarrow> step c s = (r, s') \<Longrightarrow> spec c (abs s) (r, abs s')"
begin

lemma run:
  assumes "inv s" "list_all ok cs" "run_all step cs s = (rs, s')"
  shows "inv s' \<and> spec_all spec cs (abs s) (rs, abs s')"
  using assms
proof (induction cs arbitrary: s rs)
  case (Cons c cs)
  obtain r s1 where c: "step c s = (r, s1)" by fastforce
  obtain rs1 where "run_all step cs s1 = (rs1, s')" "rs = r # rs1"
    using Cons.prems(3) c by (auto split: prod.splits)
  with Cons step_inv[OF _ _ c] step_spec[OF _ _ c] show ?case by auto
qed simp

end

lemma refines_apfst:
  "refines x y \<Longrightarrow> apfst f x = (r, s') \<Longrightarrow> store_inv s' \<and> (r, abs_store s') = apfst f y"
  by (cases x; cases y) (auto simp: refines_def)

lemmas call_refines = GetString_refines TTL_refines Del_refines Expire_refines ExpireAt_refines
  ListPush_refines ListPop_refines ListLen_refines ListRange_refines ListIndex_refines ListSet_refines
  ListTrim_refines ListRem_refines ListInsert_refines ListPosition_refines ListMove_refines

lemma run_call_refines:
  assumes "store_inv s" "call_ok call" "run_call call s = (r, s')"
  shows "store_inv s' \<and> call_spec call (abs_store s) (r, abs_store s')"
proof -
  obtain clk c where call: "call = (clk, c)" by fastforce
  have clk: "clock_ok clk" using assms(2) by (simp add: call call_ok_def)
  note d = call run_call_def call_spec_def call_ok_def Let_def fst_conv snd_conv store_call.case
  note a = assms(2,3)[unfolded d]
  show ?thesis
  proof (cases c)
    case (CSet k v ttl)
    show ?thesis using a Set_refines[OF assms(1) clk] by (auto simp: d CSet)
  next
    case (CSetAt k v t)
    show ?thesis using a SetAt_refines[OF assms(1) clk] by (auto simp: d CSetAt)
  next
    case (CDeleteExpired ks)
    show ?thesis
      using a DeleteExpired_refines[OF assms(1) prod.collapse[symmetric]] by (auto simp: d CDeleteExpired)
  next
    case (CActiveExpire rnd)
    have "mono clk" using clk by (simp add: clock_ok_def)
    then show ?thesis
      using a ActiveExpireCycle_refines[OF assms(1) _ prod.collapse[symmetric]] by (auto simp: d CActiveExpire)
  qed ((use a assms(1) clk in \<open>simp only: d\<close>;
      elim conjE; (erule refines_apfst[rotated]; rule call_refines; assumption))+)
qed

interpretation st: simulation store_inv abs_store call_ok run_call call_spec
  using run_call_refines by unfold_locales blast+

subsection \<open>Evaluation of concrete runs\<close>

text \<open>A clock for examples, and the equations with which \<open>simp\<close> evaluates the operations.\<close>

definition wclk :: "nat \<Rightarrow> time" where
  "wclk n = int n"

lemma wclk_ok: "clock_ok wclk"
  by (simp add: clock_ok_def wclk_def mono_def zero_time_def)

lemmas index_eval = ix_add_def ix_remove_def empty_index_def ix_size_def ix_at_def
lemmas list_eval = empty_list_def lv_Len_def lv_slot_def lv_at_def lv_set_def grow_def head_left_def head_right_def
  push_def pop_def shift_down_def shift_up_def lv_insert_def removeAt_def rangeCopy_def lv_replace_def assign_def
  lv_index_def lv_memorySize_def
lemmas store_eval = index_eval list_eval Let_def IsZero_def zero_time_def IsExpired_def memorySize_def NewStore_def UsedMemory_def put_def touch_def remove_def
  volatile_add_def volatile_remove_def string_obj_def Set_def SetAt_def liveObjectLocked_def GetString_def
  Get_def TTL_def Del_def ExpireAt_def Expire_def list_obj_def ListPush_def ListPop_def ListLen_def
  list_bounds_def ListRange_def ListIndex_def ListSet_def ListTrim_def rem_forward.simps ListRem_def
  ListInsert_def ListPosition_def listMoveLocked_def ListMove_def wrap64_def wclk_def run_call_def
lemma shards_eval: "getShardIndex ''k'' = 234" "getShardIndex ''l'' = 11"
  by (simp_all add: getShardIndex_def fnv32a_def numShards_def)
end
