(* ===== verification/Resp.thy ===== *)
theory Resp
  imports GoStd
begin

text \<open>
  The wire protocol of \<open>internal/protocol/resp\<close>: values, the encoder and the bounded
  decoder. A buffered reader is the bytes it will still deliver, the error it reports
  after them and its buffer size; a buffered writer is a parameter \<open>write\<close> of the
  encoder. Results of the decoder come with the decoder's state, also after an error.

  The decoder's field \<open>depth\<close> counts the open arrays and is restored on every return, so
  it is the argument of \<open>decode_nested\<close>: how many levels may still be opened.
\<close>

subsection \<open>Values\<close>

datatype Value = Value (v_type: char) (v_null: bool) (v_str: string) (v_int: int) (v_arr: "Value list")

abbreviation SimpleString :: char where "SimpleString \<equiv> CHR ''+''"
abbreviation Error :: char where "Error \<equiv> CHR ''-''"
abbreviation Integer :: char where "Integer \<equiv> CHR '':''"
abbreviation BulkString :: char where "BulkString \<equiv> CHR ''$''"
abbreviation Array :: char where "Array \<equiv> CHR ''*''"

definition NewSimpleString :: "string \<Rightarrow> Value" where
  "NewSimpleString s = Value SimpleString False s 0 []"

definition NewError :: "string \<Rightarrow> Value" where
  "NewError s = Value Error False s 0 []"

definition NewInteger :: "int \<Rightarrow> Value" where
  "NewInteger n = Value Integer False [] n []"

definition NewBulkString :: "string \<Rightarrow> Value" where
  "NewBulkString s = Value BulkString False s 0 []"

definition NewNullBulkString :: Value where
  "NewNullBulkString = Value BulkString True [] 0 []"

definition NewArray :: "Value list \<Rightarrow> Value" where
  "NewArray vs = Value Array False [] 0 vs"

lemmas new_values = NewSimpleString_def NewError_def NewInteger_def NewBulkString_def
  NewNullBulkString_def NewArray_def

abbreviation CR :: char where "CR \<equiv> CHR 0x0D"
abbreviation LF :: char where "LF \<equiv> CHR 0x0A"
abbreviation CRLF :: string where "CRLF \<equiv> [CR, LF]"

subsection \<open>The encoder\<close>

datatype 'e encode_error = WriteError 'e | UnsupportedType

type_synonym ('w, 'e) writer = "string \<Rightarrow> 'w \<Rightarrow> 'e option \<times> 'w"

definition Fprintf :: "('w, 'e) writer \<Rightarrow> string \<Rightarrow> 'w \<Rightarrow> 'e encode_error option \<times> 'w" where
  "Fprintf write s w = apfst (map_option WriteError) (write s w)"

definition encodeSimpleString :: "('w, 'e) writer \<Rightarrow> Value \<Rightarrow> 'w \<Rightarrow> 'e encode_error option \<times> 'w" where
  "encodeSimpleString write v = Fprintf write (''+'' @ v_str v @ CRLF)"

definition encodeError :: "('w, 'e) writer \<Rightarrow> Value \<Rightarrow> 'w \<Rightarrow> 'e encode_error option \<times> 'w" where
  "encodeError write v = Fprintf write (''-'' @ v_str v @ CRLF)"

definition encodeInteger :: "('w, 'e) writer \<Rightarrow> Value \<Rightarrow> 'w \<Rightarrow> 'e encode_error option \<times> 'w" where
  "encodeInteger write v = Fprintf write ('':'' @ format_int (v_int v) @ CRLF)"

definition encodeBulkString :: "('w, 'e) writer \<Rightarrow> Value \<Rightarrow> 'w \<Rightarrow> 'e encode_error option \<times> 'w" where
  "encodeBulkString write v =
     (if v_null v then Fprintf write (''$-1'' @ CRLF)
      else Fprintf write (''$'' @ format_int (int (length (v_str v))) @ CRLF @ v_str v @ CRLF))"

fun Encode :: "('w, 'e) writer \<Rightarrow> Value \<Rightarrow> 'w \<Rightarrow> 'e encode_error option \<times> 'w"
  and encodeElements :: "('w, 'e) writer \<Rightarrow> Value list \<Rightarrow> 'w \<Rightarrow> 'e encode_error option \<times> 'w"
where
  "Encode write (Value t null s n vs) w =
     (let v = Value t null s n vs
      in if t = SimpleString then encodeSimpleString write v w
         else if t = Error then encodeError write v w
         else if t = Integer then encodeInteger write v w
         else if t = BulkString then encodeBulkString write v w
         else if t = Array then
           (case Fprintf write (''*'' @ format_int (int (length vs)) @ CRLF) w of
              (Some err, w) \<Rightarrow> (Some err, w)
            | (None, w) \<Rightarrow> encodeElements write vs w)
         else (Some UnsupportedType, w))"
| "encodeElements write [] w = (None, w)"
| "encodeElements write (v # vs) w =
     (case Encode write v w of
        (Some err, w) \<Rightarrow> (Some err, w)
      | (None, w) \<Rightarrow> encodeElements write vs w)"

subsection \<open>The reader\<close>

datatype io_error = EOF | ErrUnexpectedEOF | ReadError string

datatype decode_error =
    IO io_error
  | MessageTooLong int
  | LineTooLong
  | ExpectedCRLF
  | InvalidTermination
  | NestingTooDeep
  | InvalidBulkLength string
  | NegativeBulkLength int
  | BulkTooLong int
  | InvalidArrayLength string
  | NegativeArrayLength int
  | ArrayTooLong int
  | InvalidInteger string
  | InlineError decode_error
  | EmptyInline

record Decoder =
  d_input :: string
  d_err :: io_error
  d_bufsize :: nat
  maxMessageBytes :: int
  messageBytes :: int

definition maxRESPLineLength :: nat where "maxRESPLineLength = 16384"
definition maxBulkStringLength :: int where "maxBulkStringLength = 1048576"
definition maxArrayLength :: int where "maxArrayLength = 1024"
definition maxRESPDepth :: nat where "maxRESPDepth = 64"

definition NewDecoderWithLimit :: "string \<Rightarrow> io_error \<Rightarrow> nat \<Rightarrow> int \<Rightarrow> Decoder" where
  "NewDecoderWithLimit input err bufsize limit =
     \<lparr>d_input = input, d_err = err, d_bufsize = bufsize, maxMessageBytes = limit, messageBytes = 0\<rparr>"

definition NewDecoder :: "string \<Rightarrow> io_error \<Rightarrow> nat \<Rightarrow> Decoder" where
  "NewDecoder input err bufsize = NewDecoderWithLimit input err bufsize 2097152"

type_synonym 'a decoded = "(decode_error + 'a) \<times> Decoder"

definition dbind :: "'a decoded \<Rightarrow> ('a \<Rightarrow> Decoder \<Rightarrow> 'b decoded) \<Rightarrow> 'b decoded" where
  "dbind r f = (case r of (Inl e, d) \<Rightarrow> (Inl e, d) | (Inr x, d) \<Rightarrow> f x d)"

definition ReadByte :: "Decoder \<Rightarrow> char decoded" where
  "ReadByte d =
     (case d_input d of
        [] \<Rightarrow> (Inl (IO (d_err d)), d)
      | c # cs \<Rightarrow> (Inr c, d\<lparr>d_input := cs\<rparr>))"

text \<open>\<open>io.ReadFull\<close>: an end of input inside the requested bytes is unexpected.\<close>

definition ReadFull :: "nat \<Rightarrow> Decoder \<Rightarrow> string decoded" where
  "ReadFull n d =
     (if n \<le> length (d_input d) then (Inr (take n (d_input d)), d\<lparr>d_input := drop n (d_input d)\<rparr>)
      else if d_input d \<noteq> [] \<and> d_err d = EOF then (Inl (IO ErrUnexpectedEOF), d\<lparr>d_input := []\<rparr>)
      else (Inl (IO (d_err d)), d\<lparr>d_input := []\<rparr>))"

text \<open>
  \<open>bufio.Reader.ReadSlice('\n')\<close>: the bytes up to a line feed if it lies within one
  buffer, else a full buffer with \<open>ErrBufferFull\<close>, else what is left with the
  reader's error. \<open>bufio\<close> buffers have at least 16 bytes.
\<close>

datatype slice_status = Complete | ErrBufferFull | ReaderError io_error

definition buffer_size :: "Decoder \<Rightarrow> nat" where
  "buffer_size d = max 16 (d_bufsize d)"

definition ReadSlice :: "Decoder \<Rightarrow> (string \<times> slice_status) \<times> Decoder" where
  "ReadSlice d =
     (let n = length (takeWhile (\<lambda>c. c \<noteq> LF) (d_input d));
          b = buffer_size d
      in if n < b \<and> n < length (d_input d)
         then ((take (n + 1) (d_input d), Complete), d\<lparr>d_input := drop (n + 1) (d_input d)\<rparr>)
         else if b \<le> length (d_input d)
         then ((take b (d_input d), ErrBufferFull), d\<lparr>d_input := drop b (d_input d)\<rparr>)
         else ((d_input d, ReaderError (d_err d)), d\<lparr>d_input := []\<rparr>))"

definition consume :: "int \<Rightarrow> Decoder \<Rightarrow> unit decoded" where
  "consume n d =
     (if n < 0 \<or> messageBytes d > maxMessageBytes d - n
      then (Inl (MessageTooLong (maxMessageBytes d)), d)
      else (Inr (), d\<lparr>messageBytes := messageBytes d + n\<rparr>))"

text \<open>The loop of \<open>readLine\<close>; it goes on only after a full buffer was taken from the input.\<close>

lemma consume_input: "consume n d = (r, d') \<Longrightarrow> d_input d' = d_input d"
  by (auto simp: consume_def split: if_splits)

lemma dbind_cong [fundef_cong]:
  "r = r' \<Longrightarrow> (\<And>x d. r' = (Inr x, d) \<Longrightarrow> f x d = f' x d) \<Longrightarrow> dbind r f = dbind r' f'"
  by (auto simp: dbind_def split: sum.splits prod.splits)

lemma ReadSlice_full:
  "ReadSlice d = ((chunk, ErrBufferFull), d1) \<Longrightarrow> chunk \<noteq> [] \<and> length (d_input d1) < length (d_input d)"
  by (auto simp: ReadSlice_def Let_def buffer_size_def split: if_splits)

function read_chunks :: "string \<Rightarrow> Decoder \<Rightarrow> string decoded" where
  "read_chunks line d =
     (case ReadSlice d of ((chunk, status), d1) \<Rightarrow>
        dbind (if chunk = [] then (Inr (), d1) else consume (int (length chunk)) d1) (\<lambda>_ d2.
          if chunk \<noteq> [] \<and> length (line @ chunk) > maxRESPLineLength then (Inl LineTooLong, d2)
          else case status of
                 Complete \<Rightarrow> (Inr (line @ chunk), d2)
               | ErrBufferFull \<Rightarrow> read_chunks (line @ chunk) d2
               | ReaderError err \<Rightarrow> (Inl (IO err), d2)))"
  by pat_completeness auto
termination
  by (relation "measure (\<lambda>(line, d). length (d_input d))")
    (auto dest!: ReadSlice_full[OF sym] consume_input split: if_splits)

declare read_chunks.simps [simp del]

definition readLine :: "Decoder \<Rightarrow> string decoded" where
  "readLine d =
     dbind (read_chunks [] d) (\<lambda>line d.
       let n = length line
       in if n < 2 \<or> line ! (n - 2) \<noteq> CR \<or> line ! (n - 1) \<noteq> LF then (Inl ExpectedCRLF, d)
          else (Inr (take (n - 2) line), d))"

definition expectCRLF :: "Decoder \<Rightarrow> unit decoded" where
  "expectCRLF d =
     dbind (ReadByte d) (\<lambda>cr d.
     dbind (consume 1 d) (\<lambda>_ d.
     dbind (ReadByte d) (\<lambda>lf d.
     dbind (consume 1 d) (\<lambda>_ d.
       if cr \<noteq> CR \<or> lf \<noteq> LF then (Inl InvalidTermination, d) else (Inr (), d)))))"

subsection \<open>The decoder\<close>

definition decodeSimpleString :: "Decoder \<Rightarrow> Value decoded" where
  "decodeSimpleString d = dbind (readLine d) (\<lambda>line d. (Inr (NewSimpleString line), d))"

definition decodeError :: "Decoder \<Rightarrow> Value decoded" where
  "decodeError d = dbind (readLine d) (\<lambda>line d. (Inr (NewError line), d))"

definition decodeInteger :: "Decoder \<Rightarrow> Value decoded" where
  "decodeInteger d =
     dbind (readLine d) (\<lambda>line d.
       case ParseInt line of
         None \<Rightarrow> (Inl (InvalidInteger line), d)
       | Some n \<Rightarrow> (Inr (NewInteger n), d))"

definition decodeBulkString :: "Decoder \<Rightarrow> Value decoded" where
  "decodeBulkString d =
     dbind (readLine d) (\<lambda>line d.
       case ParseInt line of
         None \<Rightarrow> (Inl (InvalidBulkLength line), d)
       | Some len \<Rightarrow>
           if len = -1 then (Inr (Value BulkString True [] 0 []), d)
           else if len < -1 then (Inl (NegativeBulkLength len), d)
           else if len > maxBulkStringLength then (Inl (BulkTooLong len), d)
           else dbind (consume (len + 2) d) (\<lambda>_ d.
                dbind (ReadFull (nat len) d) (\<lambda>buf d.
                dbind (expectCRLF d) (\<lambda>_ d. (Inr (NewBulkString buf), d)))))"

text \<open>The loop of \<open>decodeArray\<close> over \<open>n\<close> elements.\<close>

primrec decode_elements :: "(Decoder \<Rightarrow> Value decoded) \<Rightarrow> nat \<Rightarrow> Value list \<Rightarrow> Decoder \<Rightarrow> Value list decoded" where
  "decode_elements decode 0 acc d = (Inr acc, d)"
| "decode_elements decode (Suc n) acc d =
     dbind (decode d) (\<lambda>v d. decode_elements decode n (acc @ [v]) d)"

definition decodeArray :: "(Decoder \<Rightarrow> Value decoded) \<Rightarrow> Decoder \<Rightarrow> Value decoded" where
  "decodeArray decode d =
     dbind (readLine d) (\<lambda>line d.
       case ParseInt line of
         None \<Rightarrow> (Inl (InvalidArrayLength line), d)
       | Some count \<Rightarrow>
           if count = -1 then (Inr (Value Array False [] 0 []), d)
           else if count < -1 then (Inl (NegativeArrayLength count), d)
           else if count > maxArrayLength then (Inl (ArrayTooLong count), d)
           else dbind (decode_elements decode (nat count) [] d) (\<lambda>values d. (Inr (NewArray values), d)))"

definition decodeInline :: "unicode \<Rightarrow> Decoder \<Rightarrow> Value decoded" where
  "decodeInline U d =
     (case readLine d of
        (Inl e, d) \<Rightarrow> (Inl (InlineError e), d)
      | (Inr line, d) \<Rightarrow>
          let tokens = Fields U line
          in if tokens = [] then (Inl EmptyInline, d)
             else (Inr (NewArray (map NewBulkString tokens)), d))"

text \<open>
  One call of \<open>Decode\<close> when \<open>n\<close> more levels may be opened. In the default case the
  byte is put back and given back to the budget.
\<close>

primrec decode_nested :: "unicode \<Rightarrow> nat \<Rightarrow> Decoder \<Rightarrow> Value decoded" where
  "decode_nested U 0 d = (Inl NestingTooDeep, d)"
| "decode_nested U (Suc n) d =
     dbind (ReadByte d) (\<lambda>prefix d.
     dbind (consume 1 d) (\<lambda>_ d.
       if prefix = SimpleString then decodeSimpleString d
       else if prefix = Error then decodeError d
       else if prefix = Integer then decodeInteger d
       else if prefix = BulkString then decodeBulkString d
       else if prefix = Array then decodeArray (decode_nested U n) d
       else decodeInline U (d\<lparr>d_input := prefix # d_input d, messageBytes := messageBytes d - 1\<rparr>)))"

definition Decode :: "unicode \<Rightarrow> Decoder \<Rightarrow> Value decoded" where
  "Decode U d = decode_nested U maxRESPDepth (d\<lparr>messageBytes := 0\<rparr>)"

subsection \<open>What the encoder writes\<close>

fun encoding :: "Value \<Rightarrow> string" where
  "encoding (Value t null s n vs) =
     (if t = SimpleString then ''+'' @ s @ CRLF
      else if t = Error then ''-'' @ s @ CRLF
      else if t = Integer then '':'' @ format_int n @ CRLF
      else if t = BulkString then
        (if null then ''$-1'' @ CRLF else ''$'' @ format_int (int (length s)) @ CRLF @ s @ CRLF)
      else ''*'' @ format_int (int (length vs)) @ CRLF @ concat (map encoding vs))"

fun typed :: "Value \<Rightarrow> bool" where
  "typed (Value t null s n vs) \<longleftrightarrow>
     t = SimpleString \<or> t = Error \<or> t = Integer \<or> t = BulkString \<or> t = Array \<and> list_all typed vs"

definition append_writer :: "(string, unit) writer" where
  "append_writer s w = (None, w @ s)"

lemma Fprintf_append [simp]: "Fprintf append_writer s w = (None, w @ s)"
  by (simp add: Fprintf_def append_writer_def)

lemma encodeElements_append:
  assumes "\<forall>v \<in> set vs. \<forall>w. Encode append_writer v w = (None, w @ encoding v)"
  shows "encodeElements append_writer vs w = (None, w @ concat (map encoding vs))"
  using assms by (induction vs arbitrary: w) simp_all

lemma Encode_append: "typed v \<Longrightarrow> Encode append_writer v w = (None, w @ encoding v)"
proof (induction v arbitrary: w)
  case (Value t null s n vs)
  have "encodeElements append_writer vs w = (None, w @ concat (map encoding vs))" if "list_all typed vs" for w
    using Value.IH that by (intro encodeElements_append) (auto simp: list_all_iff)
  with Value.prems show ?case
    by (auto simp: encodeSimpleString_def encodeError_def encodeInteger_def encodeBulkString_def)
qed

end
