(* ===== verification/RespCorrect.thy ===== *)
theory RespCorrect
  imports Resp
begin

text \<open>
  Correctness of the decoder: what the encoder writes is decoded back whatever the buffer
  size and the bytes that follow, a cut-off encoding is reported as an input error, and
  whatever is decoded respects the limits and uses up at least one byte.
\<close>

definition eat :: "nat \<Rightarrow> string \<Rightarrow> Decoder \<Rightarrow> Decoder" where
  "eat n rest d = d\<lparr>d_input := rest, messageBytes := messageBytes d + int n\<rparr>"

lemma eat_simps [simp]:
  "d_input (eat n rest d) = rest" "messageBytes (eat n rest d) = messageBytes d + int n"
  "maxMessageBytes (eat n rest d) = maxMessageBytes d" "d_err (eat n rest d) = d_err d"
  "d_bufsize (eat n rest d) = d_bufsize d" "buffer_size (eat n rest d) = buffer_size d"
  by (simp_all add: eat_def buffer_size_def)

lemma eat_eat [simp]: "eat m r (eat n q d) = eat (n + m) r d"
  by (simp add: eat_def algebra_simps)

lemma eat_0 [simp]: "eat 0 (d_input d) d = d"
  by (simp add: eat_def)

abbreviation fits :: "nat \<Rightarrow> Decoder \<Rightarrow> bool" where
  "fits n d \<equiv> messageBytes d + int n \<le> maxMessageBytes d"

lemma dbind_simps [simp]: "dbind (Inl e, d) f = (Inl e, d)" "dbind (Inr x, d) f = f x d"
  by (simp_all add: dbind_def)

lemma dbind_Inr: "dbind r f = (Inr y, d') \<longleftrightarrow> (\<exists>x d. r = (Inr x, d) \<and> f x d = (Inr y, d'))"
  by (cases r; cases "fst r") (auto simp: dbind_def)

lemma consume_fits:
  "0 \<le> n \<Longrightarrow> messageBytes d + n \<le> maxMessageBytes d \<Longrightarrow> consume n d = (Inr (), d\<lparr>messageBytes := messageBytes d + n\<rparr>)"
  by (simp add: consume_def)

lemma consume_Inr:
  "consume n d = (Inr x, d') \<longleftrightarrow>
     0 \<le> n \<and> messageBytes d + n \<le> maxMessageBytes d \<and> d' = d\<lparr>messageBytes := messageBytes d + n\<rparr>"
  by (auto simp: consume_def)

subsection \<open>Lines\<close>

lemma ReadSlice_line:
  assumes "d_input d = s @ LF # rest" "LF \<notin> set s"
  shows "length s < buffer_size d \<Longrightarrow> ReadSlice d = ((s @ [LF], Complete), d\<lparr>d_input := rest\<rparr>)"
    and "buffer_size d \<le> length s \<Longrightarrow>
      ReadSlice d = ((take (buffer_size d) s, ErrBufferFull), d\<lparr>d_input := drop (buffer_size d) s @ LF # rest\<rparr>)"
proof -
  have "takeWhile (\<lambda>c. c \<noteq> LF) (d_input d) = s"
    using assms by (auto simp: takeWhile_append)
  then show "length s < buffer_size d \<Longrightarrow> ReadSlice d = ((s @ [LF], Complete), d\<lparr>d_input := rest\<rparr>)"
    "buffer_size d \<le> length s \<Longrightarrow>
      ReadSlice d = ((take (buffer_size d) s, ErrBufferFull), d\<lparr>d_input := drop (buffer_size d) s @ LF # rest\<rparr>)"
    by (auto simp: ReadSlice_def Let_def assms(1))
qed

lemma ReadSlice_no_line:
  assumes "LF \<notin> set (d_input d)"
  shows "length (d_input d) < buffer_size d \<Longrightarrow>
      ReadSlice d = ((d_input d, ReaderError (d_err d)), d\<lparr>d_input := []\<rparr>)"
    and "buffer_size d \<le> length (d_input d) \<Longrightarrow>
      ReadSlice d = ((take (buffer_size d) (d_input d), ErrBufferFull), d\<lparr>d_input := drop (buffer_size d) (d_input d)\<rparr>)"
proof -
  have n: "length (takeWhile (\<lambda>c. c \<noteq> LF) (d_input d)) = length (d_input d)"
    using assms by (auto intro!: arg_cong[where f = length])
  show "length (d_input d) < buffer_size d \<Longrightarrow>
      ReadSlice d = ((d_input d, ReaderError (d_err d)), d\<lparr>d_input := []\<rparr>)"
    "buffer_size d \<le> length (d_input d) \<Longrightarrow>
      ReadSlice d = ((take (buffer_size d) (d_input d), ErrBufferFull), d\<lparr>d_input := drop (buffer_size d) (d_input d)\<rparr>)"
    unfolding ReadSlice_def Let_def n by simp_all
qed

lemma buffer_size_pos [simp]: "0 < buffer_size d"
  by (simp add: buffer_size_def)

text \<open>One round of the loop in each of the three cases.\<close>

lemma read_chunks_round:
  assumes "ReadSlice d = ((chunk, status), d\<lparr>d_input := rest\<rparr>)" "fits (length chunk) d"
    "length line + length chunk \<le> maxRESPLineLength"
  shows "read_chunks line d =
    (case status of
       Complete \<Rightarrow> (Inr (line @ chunk), eat (length chunk) rest d)
     | ErrBufferFull \<Rightarrow> read_chunks (line @ chunk) (eat (length chunk) rest d)
     | ReaderError err \<Rightarrow> (Inl (IO err), eat (length chunk) rest d))"
proof (cases "chunk = []")
  case True
  then show ?thesis
    using assms by (cases status) (simp_all add: read_chunks.simps[of line d] eat_def)
next
  case False
  have "consume (int (length chunk)) (d\<lparr>d_input := rest\<rparr>) = (Inr (), eat (length chunk) rest d)"
    using assms(2) by (simp add: consume_fits eat_def)
  then show ?thesis using assms False by (cases status) (simp_all add: read_chunks.simps[of line d])
qed

lemma read_chunks_complete:
  assumes "d_input d = s @ LF # rest" "LF \<notin> set s" "fits (length s + 1) d"
    "length line + length s + 1 \<le> maxRESPLineLength"
  shows "read_chunks line d = (Inr (line @ s @ [LF]), eat (length s + 1) rest d)"
  using assms
proof (induction "length s" arbitrary: s d line rule: less_induct)
  case less
  note sl = ReadSlice_line[OF less.prems(1,2)]
  show ?case
  proof (cases "length s < buffer_size d")
    case True
    with less.prems read_chunks_round[OF sl(1)] show ?thesis by simp
  next
    case False
    let ?c = "take (buffer_size d) s" and ?s = "drop (buffer_size d) s"
    let ?d = "eat (length ?c) (?s @ LF # rest) d"
    have b: "buffer_size d \<le> length s" using False by simp
    then have len: "length ?c = buffer_size d" "length ?c + length ?s = length s" by simp_all
    have "read_chunks line d = read_chunks (line @ ?c) ?d"
      using less.prems b by (subst read_chunks_round[OF sl(2)]) auto
    also have "\<dots> = (Inr ((line @ ?c) @ ?s @ [LF]), eat (length ?s + 1) rest ?d)"
    proof (rule less.hyps)
      show "length ?s < length s" using b by (metis buffer_size_pos diff_less length_drop less_le_trans)
    qed (use less.prems b len in \<open>auto dest: in_set_dropD\<close>)
    also have "(line @ ?c) @ ?s @ [LF] = line @ s @ [LF]"
      by (metis append_assoc append_take_drop_id)
    also have "eat (length ?s + 1) rest ?d = eat (length s + 1) rest d"
      unfolding eat_eat using len(2) by (simp only: add.assoc[symmetric])
    finally show ?thesis .
  qed
qed

lemma read_chunks_torn:
  assumes "LF \<notin> set (d_input d)" "fits (length (d_input d)) d"
    "length line + length (d_input d) \<le> maxRESPLineLength"
  shows "read_chunks line d = (Inl (IO (d_err d)), eat (length (d_input d)) [] d)"
  using assms
proof (induction "length (d_input d)" arbitrary: d line rule: less_induct)
  case less
  note sl = ReadSlice_no_line[OF less.prems(1)]
  let ?i = "d_input d" and ?b = "buffer_size d"
  show ?case
  proof (cases "length ?i < ?b")
    case True
    with less.prems read_chunks_round[OF sl(1)] show ?thesis by simp
  next
    case False
    let ?d = "eat (length (take ?b ?i)) (drop ?b ?i) d"
    have b: "?b \<le> length ?i" using False by simp
    then have len: "length (take ?b ?i) = ?b" "?b + length (drop ?b ?i) = length ?i" by simp_all
    have "read_chunks line d = read_chunks (line @ take ?b ?i) ?d"
      using less.prems b by (subst read_chunks_round[OF sl(2)]) auto
    also have "\<dots> = (Inl (IO (d_err ?d)), eat (length (d_input ?d)) [] ?d)"
    proof (rule less.hyps)
      show "length (d_input ?d) < length ?i" using b
        by (metis buffer_size_pos diff_less eat_simps(1) length_drop less_le_trans)
    qed (use less.prems b in \<open>auto dest: in_set_dropD\<close>)
    finally show ?thesis using b by simp
  qed
qed

lemma ReadSlice_cases:
  obtains (line) s rest where "d_input d = s @ LF # rest" "LF \<notin> set s" "length s < buffer_size d"
      "ReadSlice d = ((s @ [LF], Complete), d\<lparr>d_input := rest\<rparr>)"
  | (full) c rest where "d_input d = c @ rest" "LF \<notin> set c" "c \<noteq> []"
      "ReadSlice d = ((c, ErrBufferFull), d\<lparr>d_input := rest\<rparr>)"
  | (rest) "LF \<notin> set (d_input d)" "length (d_input d) < buffer_size d"
      "ReadSlice d = ((d_input d, ReaderError (d_err d)), d\<lparr>d_input := []\<rparr>)"
proof (cases "LF \<in> set (d_input d)")
  case True
  then obtain s r where s: "d_input d = s @ LF # r" "LF \<notin> set s" using split_list_first by metis
  show ?thesis
  proof (cases "length s < buffer_size d")
    case True
    then show ?thesis using line[OF s] ReadSlice_line(1)[OF s] by blast
  next
    case False
    then have "take (buffer_size d) s \<noteq> []" using buffer_size_pos[of d] by (auto simp: take_eq_Nil)
    moreover have "d_input d = take (buffer_size d) s @ drop (buffer_size d) s @ LF # r" using s(1) by simp
    moreover have "LF \<notin> set (take (buffer_size d) s)" using s(2) by (auto dest: in_set_takeD)
    ultimately show ?thesis using full ReadSlice_line(2)[OF s] False by simp
  qed
next
  case False
  show ?thesis
  proof (cases "length (d_input d) < buffer_size d")
    case True
    then show ?thesis using rest[OF False] ReadSlice_no_line(1)[OF False] by blast
  next
    case b: False
    then have "take (buffer_size d) (d_input d) \<noteq> []" using buffer_size_pos[of d] by (auto simp: take_eq_Nil)
    moreover have "LF \<notin> set (take (buffer_size d) (d_input d))" using False by (auto dest: in_set_takeD)
    moreover have "d_input d = take (buffer_size d) (d_input d) @ drop (buffer_size d) (d_input d)" by simp
    ultimately show ?thesis using full ReadSlice_no_line(2)[OF False] b by (metis not_less)
  qed
qed

lemma read_chunks_round_Inr:
  assumes "ReadSlice d = ((chunk, status), d\<lparr>d_input := rest\<rparr>)" "chunk \<noteq> []" "read_chunks line d = (Inr l, d')"
  shows "fits (length chunk) d" "length line + length chunk \<le> maxRESPLineLength"
  using assms by (auto simp: read_chunks.simps[of line d] dbind_Inr consume_Inr split: if_splits)

lemma read_chunks_sound:
  assumes "read_chunks line d = (Inr l, d')"
  shows "\<exists>s. d_input d = s @ LF # d_input d' \<and> l = line @ s @ [LF] \<and> LF \<notin> set s \<and>
    length l \<le> maxRESPLineLength \<and> fits (length s + 1) d \<and> d' = eat (length s + 1) (d_input d') d"
  using assms
proof (induction "length (d_input d)" arbitrary: line d rule: less_induct)
  case less
  show ?case
  proof (cases d rule: ReadSlice_cases)
    case (line s rest)
    note f = read_chunks_round_Inr[OF line(4) _ less.prems]
    with less.prems read_chunks_round[OF line(4)] line(1,2) show ?thesis by auto
  next
    case (full c rest)
    note f = read_chunks_round_Inr[OF full(4,3) less.prems]
    have rec: "read_chunks (line @ c) (eat (length c) rest d) = (Inr l, d')"
      using less.prems read_chunks_round[OF full(4) f] by simp
    have "length (d_input (eat (length c) rest d)) < length (d_input d)" using full(1,3) by simp
    from less.hyps[OF this rec] obtain s where s: "rest = s @ LF # d_input d'" "l = (line @ c) @ s @ [LF]" "LF \<notin> set s"
      "length l \<le> maxRESPLineLength" "fits (length s + 1) (eat (length c) rest d)"
      "d' = eat (length s + 1) (d_input d') (eat (length c) rest d)"
      by auto
    show ?thesis
    proof (intro exI[of _ "c @ s"] conjI)
      show "d' = eat (length (c @ s) + 1) (d_input d') d" by (subst s(6)) (simp add: add.assoc)
    qed (use s full(1,2) in auto)
  next
    case rest
    with less.prems show ?thesis
      by (auto simp: read_chunks.simps[of line d] dbind_Inr split: if_splits)
  qed
qed

lemma readLine_complete:
  assumes "d_input d = s @ CRLF @ rest" "LF \<notin> set s" "fits (length s + 2) d" "length s + 2 \<le> maxRESPLineLength"
  shows "readLine d = (Inr s, eat (length s + 2) rest d)"
proof -
  have "read_chunks [] d = (Inr ([] @ (s @ [CR]) @ [LF]), eat (length (s @ [CR]) + 1) rest d)"
    by (rule read_chunks_complete) (use assms in auto)
  then show ?thesis by (simp add: readLine_def nth_append)
qed

lemma readLine_torn:
  assumes "LF \<notin> set (d_input d)" "fits (length (d_input d)) d" "length (d_input d) \<le> maxRESPLineLength"
  shows "readLine d = (Inl (IO (d_err d)), eat (length (d_input d)) [] d)"
  using read_chunks_torn[of d "[]"] assms by (simp add: readLine_def)

lemma readLine_sound:
  assumes "readLine d = (Inr s, d')"
  shows "d_input d = s @ CRLF @ d_input d'" "LF \<notin> set s" "length s + 2 \<le> maxRESPLineLength"
    "fits (length s + 2) d" "d' = eat (length s + 2) (d_input d') d"
proof -
  from assms obtain l where rc: "read_chunks [] d = (Inr l, d')"
    and l: "\<not> (length l < 2 \<or> l ! (length l - 2) \<noteq> CR \<or> l ! (length l - 1) \<noteq> LF)" "s = take (length l - 2) l"
    by (auto simp: readLine_def dbind_Inr Let_def split: if_splits)
  from read_chunks_sound[OF rc] obtain t where t: "d_input d = t @ LF # d_input d'" "l = t @ [LF]" "LF \<notin> set t"
    "length l \<le> maxRESPLineLength" "fits (length t + 1) d" "d' = eat (length t + 1) (d_input d') d"
    by auto
  have "t \<noteq> []" using l(1) t(2) by auto
  then obtain u c where u: "t = u @ [c]" using rev_exhaust by blast
  then have "c = CR" "s = u" using l t(2) by (auto simp: nth_append)
  with t u show "d_input d = s @ CRLF @ d_input d'" "LF \<notin> set s" "length s + 2 \<le> maxRESPLineLength"
    "fits (length s + 2) d" by auto
  have "length t + 1 = length s + 2" using u \<open>s = u\<close> by simp
  with t(6) show "d' = eat (length s + 2) (d_input d') d" by simp
qed

subsection \<open>Round trip\<close>

definition line_value :: "string \<Rightarrow> bool" where
  "line_value s \<longleftrightarrow> LF \<notin> set s \<and> length s + 2 \<le> maxRESPLineLength"

text \<open>The values that survive a round trip, how deep they nest and what the decoder charges for them.\<close>

fun wf_value :: "Value \<Rightarrow> bool" where
  "wf_value (Value t null s n vs) \<longleftrightarrow>
     (t = SimpleString \<or> t = Error) \<and> \<not> null \<and> n = 0 \<and> vs = [] \<and> line_value s \<or>
     t = Integer \<and> \<not> null \<and> s = [] \<and> vs = [] \<and> in_int64 n \<or>
     t = BulkString \<and> n = 0 \<and> vs = [] \<and> (null \<longrightarrow> s = []) \<and> int (length s) \<le> maxBulkStringLength \<or>
     t = Array \<and> \<not> null \<and> s = [] \<and> n = 0 \<and> int (length vs) \<le> maxArrayLength \<and> list_all wf_value vs"

fun vdepth :: "Value \<Rightarrow> nat" where
  "vdepth (Value t null s n vs) = Suc (foldr max (map vdepth vs) 0)"

fun cost :: "Value \<Rightarrow> nat" where
  "cost (Value t null s n vs) =
     (if t = SimpleString \<or> t = Error then length s + 3
      else if t = Integer then length (format_int n) + 3
      else if t = BulkString then
        (if null then 5 else length (format_int (int (length s))) + length s + 7)
      else length (format_int (int (length vs))) + 3 + sum_list (map cost vs))"

lemma vdepth_member: "v \<in> set vs \<Longrightarrow> vdepth v \<le> foldr max (map vdepth vs) 0"
  by (induction vs) auto

lemma line_value_format: "in_int64 n \<Longrightarrow> line_value (format_int n)"
  using format_int_chars[of LF n] length_format_int[of n]
  by (auto simp: line_value_def maxRESPLineLength_def is_digit_def)

lemma readLine_value:
  assumes "d_input d = s @ CRLF @ rest" "line_value s" "fits (length s + 2) d"
  shows "readLine d = (Inr s, eat (length s + 2) rest d)"
  using assms readLine_complete by (simp add: line_value_def)

lemma length_in_int64: "int (length s) \<le> maxBulkStringLength \<Longrightarrow> in_int64 (int (length s))"
  "int (length vs) \<le> maxArrayLength \<Longrightarrow> in_int64 (int (length vs))"
  by (simp_all add: in_int64_def maxBulkStringLength_def maxArrayLength_def)

lemma expectCRLF_complete:
  assumes "d_input d = CRLF @ rest" "fits 2 d"
  shows "expectCRLF d = (Inr (), eat 2 rest d)"
  using assms by (simp add: expectCRLF_def ReadByte_def consume_def eat_def)

lemma decodeInteger_complete:
  assumes "d_input d = format_int n @ CRLF @ rest" "in_int64 n" "fits (length (format_int n) + 2) d"
  shows "decodeInteger d = (Inr (NewInteger n), eat (length (format_int n) + 2) rest d)"
  using readLine_value[OF assms(1) line_value_format[OF assms(2)] assms(3)] assms(2)
  by (simp add: decodeInteger_def)

lemma decodeBulk_complete:
  assumes "d_input d = format_int (int (length s)) @ CRLF @ s @ CRLF @ rest" "int (length s) \<le> maxBulkStringLength"
    "fits (length (format_int (int (length s))) + length s + 6) d"
  shows "decodeBulkString d = (Inr (NewBulkString s), eat (length (format_int (int (length s))) + length s + 6) rest d)"
proof -
  let ?f = "format_int (int (length s))"
  note i = length_in_int64(1)[OF assms(2)]
  have f: "fits (length ?f + 2) d" using assms(3) by simp
  note r = readLine_value[OF assms(1) line_value_format[OF i] f]
  let ?d1 = "eat (length ?f + 2) (s @ CRLF @ rest) d"
  have c: "consume (int (length s) + 2) ?d1 = (Inr (), eat (length s + 2) (s @ CRLF @ rest) ?d1)"
    using assms(3) by (simp add: consume_def eat_def)
  let ?d2 = "eat (length ?f + length s + 4) (CRLF @ rest) d"
  have rf: "ReadFull (length s) (eat (length s + 2) (s @ CRLF @ rest) ?d1) = (Inr s, ?d2)"
    by (simp add: ReadFull_def eat_def)
  have e: "expectCRLF ?d2 = (Inr (), eat 2 rest ?d2)"
    by (rule expectCRLF_complete) (use assms(3) in simp_all)
  have "nat (int (length s)) = length s" "\<not> int (length s) = - 1" "\<not> int (length s) < - 1"
    "\<not> maxBulkStringLength < int (length s)" using assms(2) by simp_all
  then show ?thesis
    unfolding decodeBulkString_def r dbind_simps ParseInt_format_int[OF i] option.case
    by (simp only: if_False c dbind_simps rf e) simp
qed

lemma decodeBulk_null:
  assumes "d_input d = ''-1'' @ CRLF @ rest" "fits 4 d"
  shows "decodeBulkString d = (Inr NewNullBulkString, eat 4 rest d)"
proof -
  have "readLine d = (Inr ''-1'', eat (length ''-1'' + 2) rest d)"
    by (rule readLine_value[OF assms(1)]) (use assms(2) in \<open>simp_all add: line_value_def maxRESPLineLength_def\<close>)
  moreover have "ParseInt ''-1'' = Some (- 1)"
    by (simp add: ParseInt_def parse_uint_def digits_value_def is_digit_def)
  ultimately show ?thesis by (simp add: decodeBulkString_def NewNullBulkString_def)
qed

lemma decode_elements_complete:
  assumes "\<And>v d rest. v \<in> set vs \<Longrightarrow> d_input d = encoding v @ rest \<Longrightarrow> fits (cost v) d \<Longrightarrow>
      decode d = (Inr v, eat (cost v) rest d)"
    "d_input d = concat (map encoding vs) @ rest" "fits (sum_list (map cost vs)) d"
  shows "decode_elements decode (length vs) acc d = (Inr (acc @ vs), eat (sum_list (map cost vs)) rest d)"
  using assms
proof (induction vs arbitrary: acc d)
  case Nil
  then show ?case by (simp add: eat_def)
next
  case (Cons v vs)
  let ?r = "concat (map encoding vs) @ rest"
  have v: "decode d = (Inr v, eat (cost v) ?r d)"
    by (rule Cons.prems(1)) (use Cons.prems(2,3) in simp_all)
  have "decode_elements decode (length vs) (acc @ [v]) (eat (cost v) ?r d) =
      (Inr ((acc @ [v]) @ vs), eat (sum_list (map cost vs)) rest (eat (cost v) ?r d))"
    by (rule Cons.IH) (use Cons.prems in auto)
  with v show ?case by simp
qed

lemma decodeArray_complete:
  assumes "\<And>v d rest. v \<in> set vs \<Longrightarrow> d_input d = encoding v @ rest \<Longrightarrow> fits (cost v) d \<Longrightarrow>
      decode d = (Inr v, eat (cost v) rest d)"
    "d_input d = format_int (int (length vs)) @ CRLF @ concat (map encoding vs) @ rest"
    "int (length vs) \<le> maxArrayLength"
    "fits (length (format_int (int (length vs))) + 2 + sum_list (map cost vs)) d"
  shows "decodeArray decode d =
    (Inr (NewArray vs), eat (length (format_int (int (length vs))) + 2 + sum_list (map cost vs)) rest d)"
proof -
  let ?f = "format_int (int (length vs))"
  note i = length_in_int64(2)[OF assms(3)]
  have f: "fits (length ?f + 2) d" using assms(4) by simp
  note r = readLine_value[OF assms(2) line_value_format[OF i] f]
  let ?d1 = "eat (length ?f + 2) (concat (map encoding vs) @ rest) d"
  have "decode_elements decode (length vs) [] ?d1 = (Inr ([] @ vs), eat (sum_list (map cost vs)) rest ?d1)"
    by (rule decode_elements_complete[OF assms(1)]) (use assms(4) in simp_all)
  moreover have "nat (int (length vs)) = length vs" "\<not> int (length vs) = - 1" "\<not> int (length vs) < - 1"
    "\<not> maxArrayLength < int (length vs)" using assms(3) by simp_all
  ultimately show ?thesis
    unfolding decodeArray_def r dbind_simps ParseInt_format_int[OF i] option.case
    by (simp only: if_False dbind_simps eat_eat append_Nil)
qed

lemma decode_nested_prefix:
  assumes "d_input d = c # rest" "fits 1 d"
  shows "decode_nested U (Suc n) d =
    (if c = SimpleString then decodeSimpleString (eat 1 rest d)
     else if c = Error then decodeError (eat 1 rest d)
     else if c = Integer then decodeInteger (eat 1 rest d)
     else if c = BulkString then decodeBulkString (eat 1 rest d)
     else if c = Array then decodeArray (decode_nested U n) (eat 1 rest d)
     else decodeInline U d)"
proof -
  have "(eat 1 rest d)\<lparr>d_input := c # rest, messageBytes := messageBytes (eat 1 rest d) - 1\<rparr> = d"
    using assms(1) by (simp add: eat_def)
  moreover have "ReadByte d = (Inr c, d\<lparr>d_input := rest\<rparr>)" using assms(1) by (simp add: ReadByte_def)
  moreover have "consume 1 (d\<lparr>d_input := rest\<rparr>) = (Inr (), eat 1 rest d)"
    using assms(2) by (simp add: consume_def eat_def)
  ultimately show ?thesis by simp
qed

lemma decode_nested_complete:
  assumes "wf_value v" "vdepth v \<le> n" "d_input d = encoding v @ rest" "fits (cost v) d"
  shows "decode_nested U n d = (Inr v, eat (cost v) rest d)"
  using assms
proof (induction v arbitrary: n d rest)
  case (Value t null s k vs)
  obtain m where n: "n = Suc m" using Value.prems(2) by (cases n) auto
  consider (line) "t = SimpleString \<or> t = Error" "\<not> null" "k = 0" "vs = []" "line_value s"
    | (int) "t = Integer" "\<not> null" "s = []" "vs = []" "in_int64 k"
    | (bulk) "t = BulkString" "k = 0" "vs = []" "\<not> null" "int (length s) \<le> maxBulkStringLength"
    | (null) "t = BulkString" "k = 0" "vs = []" "null" "s = []"
    | (arr) "t = Array" "\<not> null" "s = []" "k = 0" "int (length vs) \<le> maxArrayLength" "list_all wf_value vs"
    using Value.prems(1) by auto
  then show ?case
  proof cases
    case line
    then have i: "d_input d = t # (s @ CRLF @ rest)" using Value.prems(3) by auto
    have f: "fits 1 d" "fits (length s + 3) d" using Value.prems(4) line(1) by auto
    have "readLine (eat 1 (s @ CRLF @ rest) d) = (Inr s, eat (length s + 2) rest (eat 1 (s @ CRLF @ rest) d))"
      by (rule readLine_value) (use line f in simp_all)
    with line show ?thesis
      unfolding n decode_nested_prefix[OF i f(1)]
      by (auto simp: decodeSimpleString_def decodeError_def new_values eval_nat_numeral)
  next
    case int
    then have i: "d_input d = Integer # (format_int k @ CRLF @ rest)" using Value.prems(3) by auto
    have f: "fits 1 d" "fits (length (format_int k) + 3) d" using Value.prems(4) int(1) by auto
    have "decodeInteger (eat 1 (format_int k @ CRLF @ rest) d) =
        (Inr (NewInteger k), eat (length (format_int k) + 2) rest (eat 1 (format_int k @ CRLF @ rest) d))"
      by (rule decodeInteger_complete) (use int f in simp_all)
    with int show ?thesis
      unfolding n decode_nested_prefix[OF i f(1)] by (simp add: new_values eval_nat_numeral)
  next
    case bulk
    let ?f = "format_int (int (length s))"
    let ?r = "?f @ CRLF @ s @ CRLF @ rest"
    have i: "d_input d = BulkString # ?r" using Value.prems(3) bulk by auto
    have f: "fits 1 d" "fits (length ?f + length s + 7) d" using Value.prems(4) bulk by auto
    have "decodeBulkString (eat 1 ?r d) = (Inr (NewBulkString s), eat (length ?f + length s + 6) rest (eat 1 ?r d))"
      by (rule decodeBulk_complete) (use bulk f in simp_all)
    with bulk show ?thesis
      unfolding n decode_nested_prefix[OF i f(1)] by (simp add: new_values eval_nat_numeral)
  next
    case null
    then have i: "d_input d = BulkString # (''-1'' @ CRLF @ rest)" using Value.prems(3) by auto
    have f: "fits 1 d" "fits 5 d" using Value.prems(4) null by auto
    have "decodeBulkString (eat 1 (''-1'' @ CRLF @ rest) d) = (Inr NewNullBulkString, eat 4 rest (eat 1 (''-1'' @ CRLF @ rest) d))"
      by (rule decodeBulk_null) (use f in simp_all)
    with null show ?thesis
      unfolding n decode_nested_prefix[OF i f(1)] by (simp add: new_values)
  next
    case arr
    let ?f = "format_int (int (length vs))"
    let ?r = "?f @ CRLF @ concat (map encoding vs) @ rest"
    have i: "d_input d = Array # ?r" using Value.prems(3) arr by auto
    have f: "fits 1 d" "fits (length ?f + 3 + sum_list (map cost vs)) d" using Value.prems(4) arr by auto
    have IH: "decode_nested U m e = (Inr v, eat (cost v) q e)"
      if "v \<in> set vs" "d_input e = encoding v @ q" "fits (cost v) e" for v e q
      using Value.IH[OF that(1) _ _ that(2,3)] arr(6) vdepth_member[OF that(1)] Value.prems(2) that(1)
      by (auto simp: n list_all_iff)
    have "decodeArray (decode_nested U m) (eat 1 ?r d) =
        (Inr (NewArray vs), eat (length ?f + 2 + sum_list (map cost vs)) rest (eat 1 ?r d))"
      by (rule decodeArray_complete[OF IH]) (use arr f in simp_all)
    with arr show ?thesis
      unfolding n decode_nested_prefix[OF i f(1)] by (simp add: new_values eval_nat_numeral)
  qed
qed

lemma Decode_encoding:
  assumes "wf_value v" "vdepth v \<le> maxRESPDepth" "d_input d = encoding v @ rest" "int (cost v) \<le> maxMessageBytes d"
  shows "Decode U d = (Inr v, d\<lparr>d_input := rest, messageBytes := int (cost v)\<rparr>)"
  using decode_nested_complete[OF assms(1,2), of "d\<lparr>messageBytes := 0\<rparr>" rest U] assms(3,4)
  by (simp add: Decode_def eat_def)

subsection \<open>Cut-off encodings\<close>

definition torn :: "'a decoded \<Rightarrow> Decoder \<Rightarrow> bool" where
  "torn r d \<longleftrightarrow> (\<exists>e d'. r = (Inl (IO e), d') \<and> (e = d_err d \<or> e = ErrUnexpectedEOF))"

lemma torn_eat [simp]: "torn r (eat n i d) = torn r d"
  by (simp add: torn_def)

lemma torn_dbind: "torn r d \<Longrightarrow> torn (dbind r f) d"
  by (auto simp: torn_def)

lemma cut_cases:
  assumes "p @ q = a @ b"
  obtains (inside) r where "a = p @ r" "r \<noteq> []"
  | (beyond) r where "p = a @ r" "b = r @ q"
  using assms unfolding append_eq_append_conv2 by (metis append.right_neutral append_Nil)

lemma readLine_cut:
  assumes "d_input d @ q = s @ CRLF" "q \<noteq> []" "line_value s" "fits (length s + 2) d"
  shows "torn (readLine d) d"
proof -
  obtain q' c where q: "q = q' @ [c]" using assms(2) rev_exhaust by blast
  then have eq: "d_input d @ q' = s @ [CR]" using assms(1) by simp
  have "LF \<notin> set (d_input d)"
    using arg_cong[OF eq, of set] assms(3) by (auto simp: line_value_def)
  moreover have "length (d_input d) \<le> length s + 1"
    using arg_cong[OF eq, of length] by simp
  ultimately have "readLine d = (Inl (IO (d_err d)), eat (length (d_input d)) [] d)"
    using assms(3,4) by (intro readLine_torn) (auto simp: line_value_def)
  then show ?thesis by (simp add: torn_def)
qed

lemma ReadFull_cut: "length (d_input d) < n \<Longrightarrow> torn (ReadFull n d) d"
  by (auto simp: ReadFull_def torn_def)

lemma expectCRLF_cut:
  assumes "d_input d @ q = CRLF" "q \<noteq> []" "fits 2 d"
  shows "torn (expectCRLF d) d"
proof -
  have "d_input d = [] \<or> d_input d = [CR]"
    using assms(1,2) by (cases "d_input d"; cases "tl (d_input d)") auto
  then show ?thesis
    using assms(3) by (auto simp: expectCRLF_def ReadByte_def consume_def torn_def)
qed

lemma decodeBulk_cut:
  assumes "d_input d @ q = format_int (int (length s)) @ CRLF @ s @ CRLF" "q \<noteq> []"
    "int (length s) \<le> maxBulkStringLength" "fits (length (format_int (int (length s))) + length s + 6) d"
  shows "torn (decodeBulkString d) d"
proof -
  let ?f = "format_int (int (length s))"
  note i = length_in_int64(1)[OF assms(3)]
  have f: "fits (length ?f + 2) d" using assms(4) by simp
  have "d_input d @ q = (?f @ CRLF) @ s @ CRLF" using assms(1) by simp
  then show ?thesis
  proof (cases rule: cut_cases)
    case (inside r)
    then have "torn (readLine d) d"
      using readLine_cut[of d r ?f] line_value_format[OF i] f by simp
    then show ?thesis unfolding decodeBulkString_def by (rule torn_dbind)
  next
    case (beyond r)
    then have input: "d_input d = ?f @ CRLF @ r" by simp
    note rl = readLine_value[OF input line_value_format[OF i] f]
    let ?d1 = "eat (length ?f + 2) r d" and ?d2 = "eat (length ?f + length s + 4) r d"
    have c: "consume (int (length s) + 2) ?d1 = (Inr (), ?d2)"
      using assms(4) by (simp add: consume_def eat_def)
    have k: "nat (int (length s)) = length s" "\<not> int (length s) = - 1" "\<not> int (length s) < - 1"
      "\<not> maxBulkStringLength < int (length s)" using assms(3) by simp_all
    have body: "decodeBulkString d = dbind (ReadFull (length s) ?d2) (\<lambda>buf d.
        dbind (expectCRLF d) (\<lambda>_ d. (Inr (NewBulkString buf), d)))"
      unfolding decodeBulkString_def rl dbind_simps ParseInt_format_int[OF i] option.case
      by (simp only: if_False c dbind_simps k)
    have "r @ q = s @ CRLF" using beyond(2) by simp
    then show ?thesis
    proof (cases rule: cut_cases)
      case (inside t)
      then have "torn (ReadFull (length s) ?d2) ?d2" by (intro ReadFull_cut) simp
      then show ?thesis unfolding body by (intro torn_dbind) simp
    next
      case (beyond t)
      let ?d3 = "eat (length ?f + length s + 4) t d"
      have "ReadFull (length s) ?d2 = (Inr s, ?d3)"
        by (simp add: ReadFull_def beyond(1) eat_def)
      moreover have "torn (expectCRLF ?d3) ?d3"
        by (rule expectCRLF_cut[of _ q]) (use beyond(2) assms(2,4) in simp_all)
      ultimately show ?thesis unfolding body by (simp add: torn_dbind)
    qed
  qed
qed

lemma decode_elements_cut:
  assumes "\<And>v d rest. v \<in> set vs \<Longrightarrow> d_input d = encoding v @ rest \<Longrightarrow> fits (cost v) d \<Longrightarrow>
      decode d = (Inr v, eat (cost v) rest d)"
    and "\<And>v d q. v \<in> set vs \<Longrightarrow> d_input d @ q = encoding v \<Longrightarrow> q \<noteq> [] \<Longrightarrow> fits (cost v) d \<Longrightarrow> torn (decode d) d"
    and "d_input d @ q = concat (map encoding vs)" "q \<noteq> []" "fits (sum_list (map cost vs)) d"
  shows "torn (decode_elements decode (length vs) acc d) d"
  using assms
proof (induction vs arbitrary: acc d)
  case (Cons v vs)
  have "d_input d @ q = encoding v @ concat (map encoding vs)" using Cons.prems(3) by simp
  then show ?case
  proof (cases rule: cut_cases)
    case (inside r)
    then have "torn (decode d) d" using Cons.prems(2)[of v d r] Cons.prems(5) by simp
    then show ?thesis by (simp add: torn_dbind)
  next
    case (beyond r)
    have v: "decode d = (Inr v, eat (cost v) r d)"
      by (rule Cons.prems(1)) (use beyond Cons.prems(5) in simp_all)
    have "torn (decode_elements decode (length vs) (acc @ [v]) (eat (cost v) r d)) (eat (cost v) r d)"
    proof (rule Cons.IH)
      show "torn (decode e) e"
        if "w \<in> set vs" "d_input e @ q' = encoding w" "q' \<noteq> []" "fits (cost w) e" for w e q'
        by (rule Cons.prems(2)[OF _ that(2-4)]) (simp add: that(1))
    qed (use Cons.prems(1,4,5) beyond in auto)
    with v show ?thesis by simp
  qed
qed simp

lemma decodeArray_cut:
  assumes "\<And>v d rest. v \<in> set vs \<Longrightarrow> d_input d = encoding v @ rest \<Longrightarrow> fits (cost v) d \<Longrightarrow>
      decode d = (Inr v, eat (cost v) rest d)"
    and "\<And>v d q. v \<in> set vs \<Longrightarrow> d_input d @ q = encoding v \<Longrightarrow> q \<noteq> [] \<Longrightarrow> fits (cost v) d \<Longrightarrow> torn (decode d) d"
    and "d_input d @ q = format_int (int (length vs)) @ CRLF @ concat (map encoding vs)" "q \<noteq> []"
    and "int (length vs) \<le> maxArrayLength"
    and "fits (length (format_int (int (length vs))) + 2 + sum_list (map cost vs)) d"
  shows "torn (decodeArray decode d) d"
proof -
  let ?f = "format_int (int (length vs))"
  note i = length_in_int64(2)[OF assms(5)]
  have f: "fits (length ?f + 2) d" using assms(6) by simp
  have "d_input d @ q = (?f @ CRLF) @ concat (map encoding vs)" using assms(3) by simp
  then show ?thesis
  proof (cases rule: cut_cases)
    case (inside r)
    then have "torn (readLine d) d"
      using readLine_cut[of d r ?f] line_value_format[OF i] f by simp
    then show ?thesis unfolding decodeArray_def by (rule torn_dbind)
  next
    case (beyond r)
    then have input: "d_input d = ?f @ CRLF @ r" by simp
    note rl = readLine_value[OF input line_value_format[OF i] f]
    have k: "nat (int (length vs)) = length vs" "\<not> int (length vs) = - 1" "\<not> int (length vs) < - 1"
      "\<not> maxArrayLength < int (length vs)" using assms(5) by simp_all
    have "torn (decode_elements decode (length vs) [] (eat (length ?f + 2) r d)) (eat (length ?f + 2) r d)"
      by (rule decode_elements_cut[where q = q, OF assms(1,2)]) (use beyond(2) assms(4,6) in simp_all)
    then show ?thesis
      unfolding decodeArray_def rl dbind_simps ParseInt_format_int[OF i] option.case
      by (simp only: if_False dbind_simps k) (simp add: torn_dbind)
  qed
qed

lemma decode_nested_cut:
  assumes "wf_value v" "vdepth v \<le> n" "d_input d @ q = encoding v" "q \<noteq> []" "fits (cost v) d"
  shows "torn (decode_nested U n d) d"
  using assms
proof (induction v arbitrary: n d q)
  case (Value t null s k vs)
  obtain m where n: "n = Suc m" using Value.prems(2) by (cases n) auto
  show ?case
  proof (cases "d_input d")
    case Nil
    then show ?thesis by (simp add: n ReadByte_def torn_def)
  next
    case (Cons c p)
    have f: "fits 1 d" using Value.prems(5) by (auto split: if_splits)
    note dn = decode_nested_prefix[OF Cons f, of U m]
    note pr = Value.prems(3)[unfolded Cons]
    consider (line) "t = SimpleString \<or> t = Error" "line_value s"
      | (int) "t = Integer" "in_int64 k"
      | (bulk) "t = BulkString" "\<not> null" "int (length s) \<le> maxBulkStringLength"
      | (null) "t = BulkString" "null"
      | (arr) "t = Array" "int (length vs) \<le> maxArrayLength" "list_all wf_value vs"
      using Value.prems(1) by auto
    then show ?thesis
    proof cases
      case line
      then have "c = t" "p @ q = s @ CRLF" using pr by auto
      moreover have "torn (readLine (eat 1 p d)) (eat 1 p d)"
        by (rule readLine_cut[of _ q s]) (use calculation line Value.prems(4,5) in auto)
      ultimately show ?thesis
        unfolding n dn using line(1) by (auto simp: decodeSimpleString_def decodeError_def torn_dbind)
    next
      case int
      then have "c = t" "p @ q = format_int k @ CRLF" using pr by auto
      moreover have "torn (readLine (eat 1 p d)) (eat 1 p d)"
        by (rule readLine_cut[of _ q "format_int k"])
          (use calculation int line_value_format Value.prems(4,5) in auto)
      ultimately show ?thesis
        unfolding n dn using int(1) by (simp add: decodeInteger_def torn_dbind)
    next
      case bulk
      then have "c = t" "p @ q = format_int (int (length s)) @ CRLF @ s @ CRLF" using pr by auto
      moreover have "torn (decodeBulkString (eat 1 p d)) (eat 1 p d)"
        by (rule decodeBulk_cut[of _ q s]) (use calculation bulk Value.prems(4,5) in auto)
      ultimately show ?thesis unfolding n dn using bulk(1) by simp
    next
      case null
      then have "c = t" "p @ q = ''-1'' @ CRLF" using pr by auto
      moreover have "torn (readLine (eat 1 p d)) (eat 1 p d)"
        by (rule readLine_cut[of _ q "''-1''"])
          (use calculation null Value.prems(4,5) in \<open>auto simp: line_value_def maxRESPLineLength_def\<close>)
      ultimately show ?thesis
        unfolding n dn using null(1) by (simp add: decodeBulkString_def torn_dbind)
    next
      case arr
      then have "c = t" "p @ q = format_int (int (length vs)) @ CRLF @ concat (map encoding vs)" using pr by auto
      moreover have wf: "wf_value v \<and> vdepth v \<le> m" if "v \<in> set vs" for v
        using arr(3) vdepth_member[OF that] Value.prems(2) that by (auto simp: n list_all_iff)
      have "torn (decodeArray (decode_nested U m) (eat 1 p d)) (eat 1 p d)"
      proof (rule decodeArray_cut[of vs _ _ q])
        show "decode_nested U m e = (Inr v, eat (cost v) rest e)"
          if "v \<in> set vs" "d_input e = encoding v @ rest" "fits (cost v) e" for v e rest
          using decode_nested_complete wf that by blast
        show "torn (decode_nested U m e) e"
          if "v \<in> set vs" "d_input e @ q' = encoding v" "q' \<noteq> []" "fits (cost v) e" for v e q'
          using Value.IH[OF that(1) _ _ that(2-4)] wf[OF that(1)] by blast
      qed (use calculation arr Value.prems(4,5) in auto)
      ultimately show ?thesis unfolding n dn using arr(1) by simp
    qed
  qed
qed

lemma Decode_cut:
  assumes "wf_value v" "vdepth v \<le> maxRESPDepth" "d_input d @ q = encoding v" "q \<noteq> []" "int (cost v) \<le> maxMessageBytes d"
  shows "torn (Decode U d) d"
proof -
  have "torn (decode_nested U maxRESPDepth (d\<lparr>messageBytes := 0\<rparr>)) (d\<lparr>messageBytes := 0\<rparr>)"
    by (rule decode_nested_cut[OF assms(1,2)]) (use assms(3-5) in simp_all)
  then show ?thesis by (simp add: Decode_def torn_def)
qed

subsection \<open>Progress, the budget and later input\<close>

text \<open>
  A successful step takes a prefix of the input, charges at least its length, stays within
  the limit, and does the same when more input follows.
\<close>

definition with_input :: "string \<Rightarrow> Decoder \<Rightarrow> Decoder" where
  "with_input y d = d\<lparr>d_input := d_input d @ y\<rparr>"

definition progress :: "Decoder \<Rightarrow> Decoder \<Rightarrow> bool" where
  "progress d d' \<longleftrightarrow> (\<exists>used. d_input d = used @ d_input d' \<and> messageBytes d + int (length used) \<le> messageBytes d') \<and>
     (messageBytes d \<le> maxMessageBytes d \<longrightarrow> messageBytes d' \<le> maxMessageBytes d) \<and>
     maxMessageBytes d' = maxMessageBytes d \<and> d_err d' = d_err d \<and> d_bufsize d' = d_bufsize d"

definition regular :: "(Decoder \<Rightarrow> 'a decoded) \<Rightarrow> bool" where
  "regular f \<longleftrightarrow> (\<forall>d x d'. f d = (Inr x, d') \<longrightarrow>
     progress d d' \<and> (\<forall>y. f (with_input y d) = (Inr x, with_input y d')))"

lemma progress_refl [simp]: "progress d d"
  by (auto simp: progress_def)

lemma progress_trans:
  assumes "progress d1 d2" "progress d2 d3"
  shows "progress d1 d3"
proof -
  obtain u v where "d_input d1 = u @ d_input d2" "d_input d2 = v @ d_input d3"
    "messageBytes d1 + int (length u) \<le> messageBytes d2" "messageBytes d2 + int (length v) \<le> messageBytes d3"
    using assms unfolding progress_def by blast
  then have "\<exists>w. d_input d1 = w @ d_input d3 \<and> messageBytes d1 + int (length w) \<le> messageBytes d3"
    by (intro exI[of _ "u @ v"]) simp
  with assms show ?thesis unfolding progress_def by auto
qed

lemma regularD:
  "regular f \<Longrightarrow> f d = (Inr x, d') \<Longrightarrow> progress d d'"
  "regular f \<Longrightarrow> f d = (Inr x, d') \<Longrightarrow> f (with_input y d) = (Inr x, with_input y d')"
  unfolding regular_def by blast+

lemma regular_return [simp]: "regular (\<lambda>d. (Inr x, d))" "regular (\<lambda>d. (Inl e, d))"
  by (auto simp: regular_def)

lemma regular_dbind:
  assumes "regular f" "\<And>x. regular (g x)"
  shows "regular (\<lambda>d. dbind (f d) g)"
  unfolding regular_def
proof (intro allI impI conjI)
  fix d x d' y
  assume "dbind (f d) g = (Inr x, d')"
  then obtain z d1 where z: "f d = (Inr z, d1)" "g z d1 = (Inr x, d')" by (auto simp: dbind_Inr)
  show "progress d d'"
    using regularD(1)[OF assms(1) z(1)] regularD(1)[OF assms(2) z(2)] by (rule progress_trans)
  show "dbind (f (with_input y d)) g = (Inr x, with_input y d')"
    by (simp add: regularD(2)[OF assms(1) z(1)] regularD(2)[OF assms(2) z(2)])
qed

lemma regular_if: "(b \<Longrightarrow> regular f) \<Longrightarrow> (\<not> b \<Longrightarrow> regular g) \<Longrightarrow> regular (\<lambda>d. if b then f d else g d)"
  by (cases b) simp_all

lemma regular_option:
  "regular f \<Longrightarrow> (\<And>x. regular (g x)) \<Longrightarrow> regular (\<lambda>d. case r of None \<Rightarrow> f d | Some x \<Rightarrow> g x d)"
  by (cases r) simp_all

lemma progress_eat: "fits n d \<Longrightarrow> length u \<le> n \<Longrightarrow> d_input d = u @ r \<Longrightarrow> progress d (eat n r d)"
  by (auto simp: progress_def)

lemma with_input_simps [simp]:
  "d_input (with_input y d) = d_input d @ y" "messageBytes (with_input y d) = messageBytes d"
  "maxMessageBytes (with_input y d) = maxMessageBytes d" "with_input y (eat n r d) = eat n (r @ y) d"
  "eat n r (with_input y d) = eat n r d"
  by (simp_all add: with_input_def eat_def)

lemma regular_readLine: "regular readLine"
  unfolding regular_def
proof (intro allI impI conjI)
  fix d s d' y
  assume "readLine d = (Inr s, d')"
  note r = readLine_sound[OF this]
  show "progress d d'"
    by (subst r(5), rule progress_eat[of _ _ "s @ CRLF"]) (use r in auto)
  have "readLine (with_input y d) = (Inr s, eat (length s + 2) (d_input d' @ y) (with_input y d))"
    by (rule readLine_complete) (use r(1-4) in simp_all)
  also have "eat (length s + 2) (d_input d' @ y) (with_input y d) = with_input y d'"
    by (subst (2) r(5)) simp
  finally show "readLine (with_input y d) = (Inr s, with_input y d')" .
qed

lemma regular_charged:
  assumes "\<And>d x d'. f d = (Inr x, d') \<Longrightarrow> \<exists>u n. d_input d = u @ d_input d' \<and> length u \<le> n \<and> fits n d \<and>
    d' = eat n (d_input d') d \<and> (\<forall>y. f (with_input y d) = (Inr x, eat n (d_input d' @ y) d))"
  shows "regular f"
  unfolding regular_def
proof (intro allI impI)
  fix d x d'
  assume "f d = (Inr x, d')"
  from assms[OF this] obtain u n where u: "d_input d = u @ d_input d'" "length u \<le> n" "fits n d"
    "d' = eat n (d_input d') d" "\<And>y. f (with_input y d) = (Inr x, eat n (d_input d' @ y) d)"
    by blast
  have "progress d (eat n (d_input d') d)" by (rule progress_eat) (use u in simp_all)
  moreover have "with_input y d' = eat n (d_input d' @ y) d" for y by (subst u(4)) simp
  ultimately show "progress d d' \<and> (\<forall>y. f (with_input y d) = (Inr x, with_input y d'))"
    using u(4,5) by simp
qed

lemma regular_expectCRLF: "regular expectCRLF"
proof (rule regular_charged)
  fix d x d'
  assume e: "expectCRLF d = (Inr x, d')"
  then obtain a b r where i: "d_input d = a # b # r" "d' = eat 2 r d" "fits 2 d" "a = CR" "b = LF"
    by (auto simp: expectCRLF_def dbind_Inr ReadByte_def consume_Inr eat_def split: list.splits if_splits)
  then have "expectCRLF (with_input y d) = (Inr (), eat 2 (r @ y) (with_input y d))" for y
    by (intro expectCRLF_complete) simp_all
  with i show "\<exists>u n. d_input d = u @ d_input d' \<and> length u \<le> n \<and> fits n d \<and>
    d' = eat n (d_input d') d \<and> (\<forall>y. expectCRLF (with_input y d) = (Inr x, eat n (d_input d' @ y) d))"
    by (intro exI[of _ CRLF] exI[of _ 2]) simp
qed

text \<open>A bulk string's payload is charged before it is read.\<close>

lemma regular_payload:
  assumes "0 \<le> len"
  shows "regular (\<lambda>d. dbind (consume (len + 2) d) (\<lambda>_ d. ReadFull (nat len) d))"
proof (rule regular_charged)
  fix d x d'
  assume a: "dbind (consume (len + 2) d) (\<lambda>_ d. ReadFull (nat len) d) = (Inr x, d')"
  let ?n = "nat len"
  have n: "len + 2 = int (?n + 2)" using assms by simp
  from a have f: "fits (?n + 2) d" and l: "?n \<le> length (d_input d)" and x: "x = take ?n (d_input d)"
    and d': "d' = eat (?n + 2) (drop ?n (d_input d)) d"
    by (auto simp: dbind_Inr consume_Inr ReadFull_def n eat_def split: if_splits)
  have "dbind (consume (len + 2) (with_input y d)) (\<lambda>_ d. ReadFull ?n d) = (Inr x, eat (?n + 2) (drop ?n (d_input d) @ y) d)" for y
    using f l by (simp add: n consume_fits ReadFull_def x) (simp add: eat_def with_input_def)
  with f l d' show "\<exists>u n. d_input d = u @ d_input d' \<and> length u \<le> n \<and> fits n d \<and> d' = eat n (d_input d') d \<and>
      (\<forall>y. dbind (consume (len + 2) (with_input y d)) (\<lambda>_ d. ReadFull ?n d) = (Inr x, eat n (d_input d' @ y) d))"
    by (intro exI[of _ "take ?n (d_input d)"] exI[of _ "?n + 2"]) simp
qed

lemma dbind_assoc: "dbind (dbind r f) g = dbind r (\<lambda>x d. dbind (f x d) g)"
  by (cases r; cases "fst r") (auto simp: dbind_def)

lemma regular_bulk: "regular decodeBulkString"
proof -
  have "regular (\<lambda>d. dbind (dbind (consume (len + 2) d) (\<lambda>_ d. ReadFull (nat len) d))
      (\<lambda>buf d. dbind (expectCRLF d) (\<lambda>_ d. (Inr (NewBulkString buf), d))))" if "0 \<le> len" for len
    by (intro regular_dbind regular_payload[OF that] regular_expectCRLF regular_return)
  note payload = this[unfolded dbind_assoc]
  have "regular (\<lambda>d. if len = -1 then (Inr (Value BulkString True [] 0 []), d)
      else if len < -1 then (Inl (NegativeBulkLength len), d)
      else if len > maxBulkStringLength then (Inl (BulkTooLong len), d)
      else dbind (consume (len + 2) d) (\<lambda>_ d. dbind (ReadFull (nat len) d) (\<lambda>buf d.
        dbind (expectCRLF d) (\<lambda>_ d. (Inr (NewBulkString buf), d)))))" for len
    by (intro regular_if regular_return payload) simp
  note body = this
  show ?thesis
    unfolding decodeBulkString_def
    by (rule regular_dbind[OF regular_readLine], rule regular_option[OF regular_return(2) body])
qed

lemma decode_elements_fun:
  "decode_elements decode 0 acc = (\<lambda>d. (Inr acc, d))"
  "decode_elements decode (Suc n) acc = (\<lambda>d. dbind (decode d) (\<lambda>v d. decode_elements decode n (acc @ [v]) d))"
  by (simp_all add: fun_eq_iff)

lemma regular_elements: "regular decode \<Longrightarrow> regular (decode_elements decode n acc)"
proof (induction n arbitrary: acc)
  case (Suc n)
  then show ?case unfolding decode_elements_fun by (intro regular_dbind) simp_all
qed (simp only: decode_elements_fun regular_return)

lemma regular_inline: "regular (decodeInline U)"
  unfolding regular_def decodeInline_def
  using regularD[OF regular_readLine]
  by (auto simp: Let_def split: prod.splits sum.splits if_splits)

lemma regular_array: "regular decode \<Longrightarrow> regular (decodeArray decode)"
  unfolding decodeArray_def
  by (intro regular_dbind regular_readLine regular_option regular_return regular_if regular_elements)

lemma regular_lines: "regular decodeSimpleString" "regular decodeError" "regular decodeInteger"
  unfolding decodeSimpleString_def decodeError_def decodeInteger_def
  by (intro regular_dbind regular_readLine regular_option regular_return)+

lemma regular_decode_nested: "regular (decode_nested U n)"
proof (induction n)
  case 0
  show ?case by (simp add: regular_def)
next
  case (Suc n)
  have body: "regular (\<lambda>d. if c = SimpleString then decodeSimpleString d
     else if c = Error then decodeError d else if c = Integer then decodeInteger d
     else if c = BulkString then decodeBulkString d else decodeArray (decode_nested U n) d)" for c
    by (intro regular_if regular_lines regular_bulk regular_array Suc)
  show ?case
    unfolding regular_def
  proof (intro allI impI)
    fix d x d'
    assume a: "decode_nested U (Suc n) d = (Inr x, d')"
    then obtain c r where i: "d_input d = c # r" and f: "fits 1 d"
      by (auto simp: dbind_Inr ReadByte_def consume_Inr split: list.splits)
    have m: "d_input (with_input y d) = c # (r @ y)" "fits 1 (with_input y d)" for y using i f by simp_all
    note dn = decode_nested_prefix[OF i f, of U n] decode_nested_prefix[OF m, of U n]
    have p: "progress d (eat 1 r d)" by (rule progress_eat[of _ _ "[c]"]) (use i f in simp_all)
    have e: "eat 1 (r @ y) (with_input y d) = with_input y (eat 1 r d)" for y by simp
    show "progress d d' \<and> (\<forall>y. decode_nested U (Suc n) (with_input y d) = (Inr x, with_input y d'))"
    proof (cases "c \<in> {SimpleString, Error, Integer, BulkString, Array}")
      case True
      then have "(if c = SimpleString then decodeSimpleString (eat 1 r d)
         else if c = Error then decodeError (eat 1 r d) else if c = Integer then decodeInteger (eat 1 r d)
         else if c = BulkString then decodeBulkString (eat 1 r d) else decodeArray (decode_nested U n) (eat 1 r d)) = (Inr x, d')"
        using a unfolding dn by auto
      from regularD[OF body this] True show ?thesis
        unfolding dn e using progress_trans[OF p] by auto
    next
      case False
      then have "decodeInline U d = (Inr x, d')" using a unfolding dn by simp
      from regularD[OF regular_inline this] False show ?thesis unfolding dn by simp
    qed
  qed
qed

text \<open>A call that returns a value took at least the first byte of the input.\<close>

lemma decode_nested_takes:
  assumes "decode_nested U (Suc n) d = (Inr v, d')"
  shows "length (d_input d') < length (d_input d)"
proof -
  have shrink: "length (d_input e') \<le> length (d_input e)" if "regular f" "f e = (Inr x, e')"
    for f :: "Decoder \<Rightarrow> Value decoded" and e x e'
    using regularD(1)[OF that] by (auto simp: progress_def)
  from assms obtain c r where i: "d_input d = c # r" and f: "fits 1 d"
    by (auto simp: dbind_Inr ReadByte_def consume_Inr split: list.splits)
  show ?thesis
  proof (cases "c \<in> {SimpleString, Error, Integer, BulkString, Array}")
    case True
    with assms obtain g where "regular g" "g (eat 1 r d) = (Inr v, d')"
      unfolding decode_nested_prefix[OF i f]
      using regular_lines regular_bulk regular_array[OF regular_decode_nested] by (auto split: if_splits)
    from shrink[OF this] i show ?thesis by simp
  next
    case False
    with assms obtain l where "readLine d = (Inr l, d')"
      unfolding decode_nested_prefix[OF i f]
      by (auto simp: decodeInline_def Let_def split: prod.splits sum.splits if_splits)
    from readLine_sound(1)[OF this] show ?thesis by simp
  qed
qed

lemma Decode_takes:
  assumes "Decode U d = (Inr v, d')" "0 \<le> maxMessageBytes d"
  shows "\<exists>used. d_input d = used @ d_input d' \<and> used \<noteq> [] \<and> int (length used) \<le> maxMessageBytes d"
    and "maxMessageBytes d' = maxMessageBytes d" "d_err d' = d_err d" "d_bufsize d' = d_bufsize d"
    and "Decode U (with_input y d) = (Inr v, with_input y d')"
proof -
  let ?d = "d\<lparr>messageBytes := 0\<rparr>"
  obtain n where n: "maxRESPDepth = Suc n" by (simp add: maxRESPDepth_def)
  with assms(1) have dn: "decode_nested U (Suc n) ?d = (Inr v, d')" by (simp add: Decode_def)
  note p = regularD(1)[OF regular_decode_nested dn]
  then obtain used where "d_input d = used @ d_input d'" "int (length used) \<le> messageBytes d'"
    by (auto simp: progress_def)
  moreover have "messageBytes d' \<le> maxMessageBytes d" using p assms(2) by (simp add: progress_def)
  ultimately show "\<exists>used. d_input d = used @ d_input d' \<and> used \<noteq> [] \<and> int (length used) \<le> maxMessageBytes d"
    using decode_nested_takes[OF dn] by (intro exI[of _ used]) auto
  show "maxMessageBytes d' = maxMessageBytes d" "d_err d' = d_err d" "d_bufsize d' = d_bufsize d"
    using p by (simp_all add: progress_def)
  have "(with_input y d)\<lparr>messageBytes := 0\<rparr> = with_input y ?d" by (simp add: with_input_def)
  then show "Decode U (with_input y d) = (Inr v, with_input y d')"
    using regularD(2)[OF regular_decode_nested dn, of y] by (simp add: Decode_def n)
qed

subsection \<open>Bytes taken by a decode that fails\<close>

definition shrinks :: "(Decoder \<Rightarrow> 'a decoded) \<Rightarrow> bool" where
  "shrinks f \<longleftrightarrow> (\<forall>d. length (d_input (snd (f d))) \<le> length (d_input d))"

lemma shrinksD: "shrinks f \<Longrightarrow> length (d_input (snd (f d))) \<le> length (d_input d)"
  by (simp add: shrinks_def)

lemma shrinks_dbind:
  assumes "shrinks f" "\<And>x. shrinks (g x)"
  shows "shrinks (\<lambda>d. dbind (f d) g)"
  unfolding shrinks_def
proof
  fix d
  obtain r d1 where f: "f d = (r, d1)" by fastforce
  then have "length (d_input d1) \<le> length (d_input d)" using shrinksD[OF assms(1), of d] by simp
  then show "length (d_input (snd (dbind (f d) g))) \<le> length (d_input d)"
    using f order_trans[OF shrinksD[OF assms(2)]] by (cases r) (auto simp: dbind_def)
qed

lemma shrinks_basic:
  "shrinks (\<lambda>d. (r, d))" "shrinks ReadByte" "shrinks (ReadFull n)" "shrinks (consume k)"
  by (auto simp: shrinks_def ReadByte_def ReadFull_def consume_def split: list.splits)

lemma shrinks_if: "shrinks f \<Longrightarrow> shrinks g \<Longrightarrow> shrinks (\<lambda>d. if b then f d else g d)"
  by (cases b) simp_all

lemma shrinks_option: "shrinks f \<Longrightarrow> (\<And>x. shrinks (g x)) \<Longrightarrow> shrinks (\<lambda>d. case r of None \<Rightarrow> f d | Some x \<Rightarrow> g x d)"
  by (cases r) simp_all

lemma shrinks_read_chunks: "length (d_input (snd (read_chunks line d))) \<le> length (d_input d)"
proof (induction line d rule: read_chunks.induct)
  case (1 line d)
  obtain chunk status d1 where s: "ReadSlice d = ((chunk, status), d1)" by (metis surj_pair)
  have d1: "length (d_input d1) \<le> length (d_input d)"
    using s by (auto simp: ReadSlice_def Let_def split: if_splits)
  obtain r d2 where c: "(if chunk = [] then (Inr (), d1) else consume (int (length chunk)) d1) = (r, d2)" by fastforce
  then have d2: "d_input d2 = d_input d1" by (auto dest: consume_input split: if_splits)
  show ?case
  proof (cases "r = Inr () \<and> \<not> (chunk \<noteq> [] \<and> length (line @ chunk) > maxRESPLineLength) \<and> status = ErrBufferFull")
    case True
    then have "read_chunks line d = read_chunks (line @ chunk) d2"
      unfolding read_chunks.simps[of line d] s by (auto simp: c dbind_def)
    moreover have "length (d_input (snd (read_chunks (line @ chunk) d2))) \<le> length (d_input d2)"
      by (rule 1[OF s[symmetric] refl, of "()"]) (use True c in auto)
    ultimately show ?thesis using d1 d2 by simp
  next
    case False
    then have "snd (read_chunks line d) = d2"
      unfolding read_chunks.simps[of line d] s using c
      by (cases r; cases status) (auto simp: dbind_def)
    then show ?thesis using d1 d2 by simp
  qed
qed

lemma shrinks_readLine: "shrinks readLine"
proof -
  have "shrinks (read_chunks [])" using shrinks_read_chunks by (simp add: shrinks_def)
  then show ?thesis
    unfolding readLine_def Let_def by (intro shrinks_dbind shrinks_if shrinks_basic)
qed

lemma shrinks_expectCRLF: "shrinks expectCRLF"
  unfolding expectCRLF_def by (intro shrinks_dbind shrinks_if shrinks_basic)

lemma shrinks_leaf:
  "shrinks decodeSimpleString" "shrinks decodeError" "shrinks decodeInteger" "shrinks decodeBulkString"
  unfolding decodeSimpleString_def decodeError_def decodeInteger_def decodeBulkString_def
  by (intro shrinks_dbind shrinks_if shrinks_option shrinks_basic shrinks_readLine shrinks_expectCRLF)+

lemma shrinks_elements: "shrinks decode \<Longrightarrow> shrinks (decode_elements decode n acc)"
proof (induction n arbitrary: acc)
  case (Suc n)
  have "decode_elements decode (Suc n) acc = (\<lambda>d. dbind (decode d) (\<lambda>v d. decode_elements decode n (acc @ [v]) d))"
    by (simp add: fun_eq_iff)
  moreover have "shrinks (\<lambda>d. dbind (decode d) (\<lambda>v d. decode_elements decode n (acc @ [v]) d))"
    by (rule shrinks_dbind[OF Suc.prems Suc.IH[OF Suc.prems]])
  ultimately show ?case by simp
qed (simp add: shrinks_def)

lemma shrinks_decodeArray:
  assumes "shrinks decode"
  shows "shrinks (decodeArray decode)"
  unfolding decodeArray_def
  by (intro shrinks_dbind shrinks_if shrinks_option shrinks_basic shrinks_readLine shrinks_elements[OF assms])

lemma shrinks_decodeInline: "shrinks (decodeInline U)"
  using shrinksD[OF shrinks_readLine]
  by (auto simp: shrinks_def decodeInline_def Let_def split: sum.splits prod.splits) (metis snd_conv)+

lemma shrinks_decode_nested: "shrinks (decode_nested U n)"
proof (induction n)
  case (Suc n)
  show ?case
    unfolding shrinks_def
  proof
    fix d
    show "length (d_input (snd (decode_nested U (Suc n) d))) \<le> length (d_input d)"
    proof (cases "d_input d")
      case Nil
      then show ?thesis by (simp add: ReadByte_def dbind_def)
    next
      case (Cons c cs)
      let ?d = "d\<lparr>d_input := cs\<rparr>"
      obtain r d2 where k: "consume 1 ?d = (r, d2)" by fastforce
      have d2: "d_input d2 = cs" using consume_input[OF k] by simp
      show ?thesis
      proof (cases r)
        case (Inl e)
        then show ?thesis using Cons k d2 by (simp add: ReadByte_def dbind_def)
      next
        case (Inr u)
        let ?i = "d2\<lparr>d_input := c # d_input d2, messageBytes := messageBytes d2 - 1\<rparr>"
        have "length (d_input (snd (f d2))) \<le> length (c # cs)" if "shrinks f" for f :: "Decoder \<Rightarrow> Value decoded"
          using shrinksD[OF that, of d2] d2 by simp
        moreover have "length (d_input (snd (decodeInline U ?i))) \<le> length (c # cs)"
          using shrinksD[OF shrinks_decodeInline, of U ?i] d2 by simp
        ultimately show ?thesis
          using Cons k Inr shrinks_leaf shrinks_decodeArray[OF Suc]
          by (simp add: ReadByte_def dbind_def)
      qed
    qed
  qed
qed (simp add: shrinks_def)

text \<open>A decode that meets an array takes at least one byte, whether or not it succeeds.\<close>

lemma Decode_array_takes:
  assumes "d_input d = Array # cs" "1 \<le> maxMessageBytes d" "Decode U d = (r, d')"
  shows "length (d_input d') \<le> length cs"
proof -
  obtain n where n: "maxRESPDepth = Suc n" by (simp add: maxRESPDepth_def)
  have "Decode U d = decodeArray (decode_nested U n) (d\<lparr>d_input := cs, messageBytes := 1\<rparr>)"
    using assms(1,2) by (simp add: Decode_def n ReadByte_def consume_def dbind_def)
  with assms(3) shrinksD[OF shrinks_decodeArray[OF shrinks_decode_nested], of U n "d\<lparr>d_input := cs, messageBytes := 1\<rparr>"]
  show ?thesis by simp
qed

end
