(* ===== verification/Command.thy ===== *)
theory Command
  imports StoreRuns RespCorrect
begin

text \<open>
  Commands of \<open>internal/command\<close>: the parser, one handler per command and the
  dispatch \<open>execute\<close>. A handler returns the reply and the store; the Go error it also
  returns is always nil and has no counterpart. A handler that makes one storage call hands
  its clock on; \<open>DEL\<close> reads the clock once per key.
\<close>

subsection \<open>Parsing\<close>

record Command =
  cmd_name :: string
  cmd_args :: "string list"

abbreviation mk_cmd :: "string \<Rightarrow> string list \<Rightarrow> Command" where
  "mk_cmd name args \<equiv> \<lparr>cmd_name = name, cmd_args = args\<rparr>"

fun parse_args :: "Value list \<Rightarrow> string list \<Rightarrow> string + string list" where
  "parse_args [] args = Inr args"
| "parse_args (arg # rest) args =
     (if v_type arg \<noteq> BulkString then Inl ''ERR protocol error: arguments must be bulk strings''
      else parse_args rest (args @ [v_str arg]))"

definition Parse :: "unicode \<Rightarrow> Value \<Rightarrow> string + Command" where
  "Parse U value =
     (if v_type value \<noteq> Array then Inl ''ERR protocol error: expected array''
      else case v_arr value of
             [] \<Rightarrow> Inl ''ERR protocol error: empty command''
           | commandValue # rest \<Rightarrow>
               if v_type commandValue \<noteq> BulkString then Inl ''ERR protocol error: command must be bulk string''
               else case parse_args rest [] of
                      Inl e \<Rightarrow> Inl e
                    | Inr args \<Rightarrow> Inr (mk_cmd (ToUpper U (v_str commandValue)) args))"

subsection \<open>String, key and expiration commands\<close>

definition store_error_text :: "store_error \<Rightarrow> string" where
  "store_error_text e =
     (case e of
        ErrWrongType \<Rightarrow> ''WRONGTYPE Operation against a key holding the wrong kind of value''
      | ErrNoSuchKey \<Rightarrow> ''no such key''
      | ErrListIndexRange \<Rightarrow> ''list index out of range''
      | ErrInvalidRank \<Rightarrow> ''invalid rank'')"

definition storageError :: "store_error \<Rightarrow> Value" where
  "storageError e =
     (case e of
        ErrWrongType \<Rightarrow> NewError (store_error_text ErrWrongType)
      | ErrNoSuchKey \<Rightarrow> NewError ''ERR no such key''
      | ErrListIndexRange \<Rightarrow> NewError ''ERR index out of range''
      | _ \<Rightarrow> NewError (''ERR '' @ store_error_text e))"

definition wrong_args :: "string \<Rightarrow> Value" where
  "wrong_args name = NewError (''ERR wrong number of arguments for '' @ [CHR 0x27] @ name @ [CHR 0x27] @ '' command'')"

definition handlePing :: "string list \<Rightarrow> Value" where
  "handlePing args =
     (case args of
        [] \<Rightarrow> NewSimpleString ''PONG''
      | [a] \<Rightarrow> NewBulkString a
      | _ \<Rightarrow> wrong_args ''ping'')"

definition handleGet :: "(nat \<Rightarrow> time) \<Rightarrow> string list \<Rightarrow> Store \<Rightarrow> Value \<times> Store" where
  "handleGet clk args s =
     (if length args \<noteq> 1 then (wrong_args ''get'', s)
      else case GetString clk (args ! 0) s of
             (Inl e, s) \<Rightarrow> (storageError e, s)
           | (Inr None, s) \<Rightarrow> (NewNullBulkString, s)
           | (Inr (Some v), s) \<Rightarrow> (NewBulkString v, s))"

definition bad_expire :: Value where
  "bad_expire = NewError (''ERR invalid expire time in '' @ [CHR 0x27] @ ''set'' @ [CHR 0x27] @ '' command'')"

definition syntax_error :: Value where
  "syntax_error = NewError ''ERR syntax error''"

text \<open>The option loop of \<open>handleSet\<close>: relative lifetime, absolute deadline, which of the two.\<close>

fun set_options :: "unicode \<Rightarrow> string list \<Rightarrow> int \<times> time \<times> bool \<Rightarrow> Value + int \<times> time \<times> bool" where
  "set_options U [] r = Inr r"
| "set_options U [opt] r = Inl syntax_error"
| "set_options U (opt # arg # rest) r =
     (if ToUpper U opt = ''EX'' then
        case ParseInt arg of
          None \<Rightarrow> Inl bad_expire
        | Some sec \<Rightarrow> if sec \<le> 0 \<or> sec > maxSeconds then Inl bad_expire
                       else set_options U rest (sec * Second, zero_time, False)
      else if ToUpper U opt = ''PX'' then
        case ParseInt arg of
          None \<Rightarrow> Inl bad_expire
        | Some ms \<Rightarrow> if ms \<le> 0 \<or> ms > maxMilliseconds then Inl bad_expire
                      else set_options U rest (ms * Millisecond, zero_time, False)
      else if ToUpper U opt = ''PXAT'' then
        case ParseInt arg of
          None \<Rightarrow> Inl bad_expire
        | Some ms \<Rightarrow> set_options U rest (0, UnixMilli ms, True)
      else Inl syntax_error)"

definition handleSet :: "unicode \<Rightarrow> (nat \<Rightarrow> time) \<Rightarrow> string list \<Rightarrow> Store \<Rightarrow> Value \<times> Store" where
  "handleSet U clk args s =
     (case args of
        key # val # opts \<Rightarrow>
          (case set_options U opts (0, zero_time, False) of
             Inl v \<Rightarrow> (v, s)
           | Inr (ttl, expiresAt, hasAbsoluteExpiry) \<Rightarrow>
               (NewSimpleString ''OK'',
                if hasAbsoluteExpiry then SetAt clk key val expiresAt s else Set clk key val ttl s))
      | _ \<Rightarrow> (wrong_args ''set'', s))"

fun del_keys :: "(nat \<Rightarrow> time) \<Rightarrow> string list \<Rightarrow> int \<Rightarrow> Store \<Rightarrow> int \<times> Store" where
  "del_keys clk [] countDeleted s = (countDeleted, s)"
| "del_keys clk (key # keys) countDeleted s =
     (let (ok, s) = Del clk key s
      in del_keys (\<lambda>n. clk (n + 1)) keys (if ok then countDeleted + 1 else countDeleted) s)"

definition handleDel :: "(nat \<Rightarrow> time) \<Rightarrow> string list \<Rightarrow> Store \<Rightarrow> Value \<times> Store" where
  "handleDel clk args s =
     (if args = [] then (wrong_args ''del'', s)
      else let (n, s) = del_keys clk args 0 s in (NewInteger n, s))"

definition not_integer :: Value where
  "not_integer = NewError ''ERR value is not an integer or out of range''"

definition handleExpire :: "(nat \<Rightarrow> time) \<Rightarrow> string list \<Rightarrow> Store \<Rightarrow> Value \<times> Store" where
  "handleExpire clk args s =
     (if length args \<noteq> 2 then (wrong_args ''expire'', s)
      else case ParseInt (args ! 1) of
             None \<Rightarrow> (not_integer, s)
           | Some seconds \<Rightarrow>
               if seconds > maxSeconds then (not_integer, s)
               else let (ok, s) = Expire clk (args ! 0) seconds s
                    in (if \<not> ok then NewInteger 0 else NewInteger 1, s))"

definition handleExpireAt :: "(nat \<Rightarrow> time) \<Rightarrow> string list \<Rightarrow> Store \<Rightarrow> Value \<times> Store" where
  "handleExpireAt clk args s =
     (if length args \<noteq> 2 then (wrong_args ''pexpireat'', s)
      else case ParseInt (args ! 1) of
             None \<Rightarrow> (not_integer, s)
           | Some ms \<Rightarrow>
               let (ok, s) = ExpireAt clk (args ! 0) (UnixMilli ms) s
               in (if \<not> ok then NewInteger 0 else NewInteger 1, s))"

definition handleTTL :: "(nat \<Rightarrow> time) \<Rightarrow> string list \<Rightarrow> Store \<Rightarrow> Value \<times> Store" where
  "handleTTL clk args s =
     (if length args \<noteq> 1 then (wrong_args ''ttl'', s)
      else let (n, s) = TTL clk (args ! 0) s in (NewInteger n, s))"

subsection \<open>List commands\<close>

text \<open>\<open>parseListInteger\<close>; its error is the reply the callers send.\<close>

definition parseListInteger :: "string \<Rightarrow> Value + int" where
  "parseListInteger value = (case ParseInt value of None \<Rightarrow> Inl not_integer | Some n \<Rightarrow> Inr n)"

definition parseListDirection :: "unicode \<Rightarrow> string \<Rightarrow> bool option" where
  "parseListDirection U value =
     (if ToUpper U value = ''LEFT'' then Some True
      else if ToUpper U value = ''RIGHT'' then Some False else None)"

definition stringArray :: "string list \<Rightarrow> Value" where
  "stringArray values = NewArray (map NewBulkString values)"

text \<open>How the handlers turn a storage result into a reply.\<close>

definition int_reply :: "(store_error + int) \<times> Store \<Rightarrow> Value \<times> Store" where
  "int_reply r = (case r of (Inl e, s) \<Rightarrow> (storageError e, s) | (Inr n, s) \<Rightarrow> (NewInteger n, s))"

definition bulk_reply :: "(store_error + string option) \<times> Store \<Rightarrow> Value \<times> Store" where
  "bulk_reply r =
     (case r of
        (Inl e, s) \<Rightarrow> (storageError e, s)
      | (Inr None, s) \<Rightarrow> (NewNullBulkString, s)
      | (Inr (Some v), s) \<Rightarrow> (NewBulkString v, s))"

definition handleListPush :: "unicode \<Rightarrow> (nat \<Rightarrow> time) \<Rightarrow> string \<Rightarrow> string list \<Rightarrow> Store \<Rightarrow> Value \<times> Store" where
  "handleListPush U clk name args s =
     (if length args < 2 then (wrong_args (ToLower U name), s)
      else let left = (name = ''LPUSH'' \<or> name = ''LPUSHX'');
               onlyExisting = (name = ''LPUSHX'' \<or> name = ''RPUSHX'')
           in int_reply (ListPush clk (hd args) (tl args) left onlyExisting s))"

definition handleListPop :: "unicode \<Rightarrow> (nat \<Rightarrow> time) \<Rightarrow> string \<Rightarrow> string list \<Rightarrow> Store \<Rightarrow> Value \<times> Store" where
  "handleListPop U clk name args s =
     (if length args \<noteq> 1 \<and> length args \<noteq> 2 then (wrong_args (ToLower U name), s)
      else let withCount = (length args = 2)
           in case (if withCount
                    then case parseListInteger (args ! 1) of
                           Inl v \<Rightarrow> Inl v
                         | Inr parsed \<Rightarrow>
                             if parsed < 0 then Inl (NewError ''ERR count must be a positive integer'') else Inr parsed
                    else Inr 1) of
                Inl v \<Rightarrow> (v, s)
              | Inr count \<Rightarrow>
                  (case ListPop clk (args ! 0) (name = ''LPOP'') count s of
                     (Inl e, s) \<Rightarrow> (storageError e, s)
                   | (Inr values, s) \<Rightarrow>
                       if withCount then (stringArray values, s)
                       else case values of
                              [] \<Rightarrow> (NewNullBulkString, s)
                            | v # _ \<Rightarrow> (NewBulkString v, s)))"

text \<open>The option loop of \<open>handleListPosition\<close>: rank, count, maxLen and whether a count was given.\<close>

fun position_options ::
  "unicode \<Rightarrow> string list \<Rightarrow> int \<times> int \<times> int \<times> bool \<Rightarrow> Value + int \<times> int \<times> int \<times> bool"
where
  "position_options U [] r = Inr r"
| "position_options U [opt] r = Inl syntax_error"
| "position_options U (opt # arg # rest) (rank, count, maxLen, given) =
     (case parseListInteger arg of
        Inl v \<Rightarrow> Inl v
      | Inr value \<Rightarrow>
          if ToUpper U opt = ''RANK'' then
            if value = 0 \<or> value = - (2 ^ 63) then Inl (NewError (''ERR RANK can'' @ [CHR 0x27] @ ''t be zero''))
            else position_options U rest (value, count, maxLen, given)
          else if ToUpper U opt = ''COUNT'' then
            if value < 0 then Inl (NewError (''ERR COUNT can'' @ [CHR 0x27] @ ''t be negative''))
            else position_options U rest (rank, value, maxLen, True)
          else if ToUpper U opt = ''MAXLEN'' then
            if value < 0 then Inl (NewError (''ERR MAXLEN can'' @ [CHR 0x27] @ ''t be negative''))
            else position_options U rest (rank, count, value, given)
          else Inl syntax_error)"

definition handleListPosition :: "unicode \<Rightarrow> (nat \<Rightarrow> time) \<Rightarrow> string list \<Rightarrow> Store \<Rightarrow> Value \<times> Store" where
  "handleListPosition U clk args s =
     (case args of
        key # value # opts \<Rightarrow>
          (case position_options U opts (1, 1, 0, False) of
             Inl v \<Rightarrow> (v, s)
           | Inr (rank, count, maxLen, countSpecified) \<Rightarrow>
               (case ListPosition clk key value rank count maxLen s of
                  (Inl e, s) \<Rightarrow> (storageError e, s)
                | (Inr ps, s) \<Rightarrow>
                    if \<not> countSpecified \<or> count = 1
                    then (case ps of [] \<Rightarrow> (NewNullBulkString, s) | p # _ \<Rightarrow> (NewInteger p, s))
                    else (NewArray (map NewInteger ps), s)))
      | _ \<Rightarrow> (wrong_args ''lpos'', s))"

definition handleListCommand :: "unicode \<Rightarrow> (nat \<Rightarrow> time) \<Rightarrow> string \<Rightarrow> string list \<Rightarrow> Store \<Rightarrow> Value \<times> Store" where
  "handleListCommand U clk name args s =
     (if name \<in> {''LPUSH'', ''RPUSH'', ''LPUSHX'', ''RPUSHX''} then handleListPush U clk name args s
      else if name \<in> {''LPOP'', ''RPOP''} then handleListPop U clk name args s
      else if name = ''LLEN'' then
        if length args \<noteq> 1 then (wrong_args (ToLower U name), s)
        else int_reply (ListLen clk (args ! 0) s)
      else if name = ''LRANGE'' then
        if length args \<noteq> 3 then (wrong_args ''lrange'', s)
        else case parseListInteger (args ! 1) of
               Inl v \<Rightarrow> (v, s)
             | Inr start \<Rightarrow>
                 (case parseListInteger (args ! 2) of
                    Inl v \<Rightarrow> (v, s)
                  | Inr stop \<Rightarrow>
                      (case ListRange clk (args ! 0) start stop s of
                         (Inl e, s) \<Rightarrow> (storageError e, s)
                       | (Inr values, s) \<Rightarrow> (stringArray values, s)))
      else if name = ''LINDEX'' then
        if length args \<noteq> 2 then (wrong_args ''lindex'', s)
        else case parseListInteger (args ! 1) of
               Inl v \<Rightarrow> (v, s)
             | Inr index \<Rightarrow> bulk_reply (ListIndex clk (args ! 0) index s)
      else if name = ''LSET'' then
        if length args \<noteq> 3 then (wrong_args ''lset'', s)
        else case parseListInteger (args ! 1) of
               Inl v \<Rightarrow> (v, s)
             | Inr index \<Rightarrow>
                 (case ListSet clk (args ! 0) index (args ! 2) s of
                    (Some e, s) \<Rightarrow> (storageError e, s)
                  | (None, s) \<Rightarrow> (NewSimpleString ''OK'', s))
      else if name = ''LTRIM'' then
        if length args \<noteq> 3 then (wrong_args ''ltrim'', s)
        else case parseListInteger (args ! 1) of
               Inl v \<Rightarrow> (v, s)
             | Inr start \<Rightarrow>
                 (case parseListInteger (args ! 2) of
                    Inl v \<Rightarrow> (v, s)
                  | Inr stop \<Rightarrow>
                      (case ListTrim clk (args ! 0) start stop s of
                         (Inl e, s) \<Rightarrow> (storageError e, s)
                       | (Inr _, s) \<Rightarrow> (NewSimpleString ''OK'', s)))
      else if name = ''LREM'' then
        if length args \<noteq> 3 then (wrong_args ''lrem'', s)
        else case parseListInteger (args ! 1) of
               Inl v \<Rightarrow> (v, s)
             | Inr count \<Rightarrow> int_reply (ListRem clk (args ! 0) count (args ! 2) s)
      else if name = ''LINSERT'' then
        if length args \<noteq> 4 then (wrong_args ''linsert'', s)
        else let before = EqualFold U (args ! 1) ''BEFORE''
             in if \<not> before \<and> \<not> EqualFold U (args ! 1) ''AFTER'' then (syntax_error, s)
                else int_reply (ListInsert clk (args ! 0) (args ! 2) (args ! 3) before s)
      else if name = ''LMOVE'' then
        if length args \<noteq> 4 then (wrong_args ''lmove'', s)
        else case parseListDirection U (args ! 2) of
               None \<Rightarrow> (syntax_error, s)
             | Some fromLeft \<Rightarrow>
                 (case parseListDirection U (args ! 3) of
                    None \<Rightarrow> (syntax_error, s)
                  | Some toLeft \<Rightarrow> bulk_reply (ListMove clk (args ! 0) (args ! 1) fromLeft toLeft s))
      else if name = ''RPOPLPUSH'' then
        if length args \<noteq> 2 then (wrong_args ''rpoplpush'', s)
        else bulk_reply (ListMove clk (args ! 0) (args ! 1) False True s)
      else if name = ''LPOS'' then handleListPosition U clk args s
      else (NewError (''ERR unknown list command '' @ Quote U name), s))"

subsection \<open>Dispatch\<close>

definition list_commands :: "string list" where
  "list_commands = [''LPUSH'', ''RPUSH'', ''LPUSHX'', ''RPUSHX'', ''LPOP'', ''RPOP'', ''LLEN'', ''LRANGE'',
     ''LINDEX'', ''LSET'', ''LTRIM'', ''LREM'', ''LINSERT'', ''LMOVE'', ''RPOPLPUSH'', ''LPOS'']"

definition execute :: "unicode \<Rightarrow> (nat \<Rightarrow> time) \<Rightarrow> Command \<Rightarrow> Store \<Rightarrow> Value \<times> Store" where
  "execute U clk cmd s =
     (let name = cmd_name cmd; args = cmd_args cmd
      in if name = ''PING'' then (handlePing args, s)
         else if name = ''GET'' then handleGet clk args s
         else if name = ''SET'' then handleSet U clk args s
         else if name = ''TTL'' then handleTTL clk args s
         else if name = ''DEL'' then handleDel clk args s
         else if name = ''EXPIRE'' then handleExpire clk args s
         else if name = ''PEXPIREAT'' then handleExpireAt clk args s
         else if name \<in> set list_commands then handleListCommand U clk name args s
         else (NewError (''ERR unknown command '' @ [CHR 0x27] @ ToLower U name @ [CHR 0x27]), s))"

definition IsMutation :: "string \<Rightarrow> bool" where
  "IsMutation name \<longleftrightarrow> name \<in> set [''SET'', ''DEL'', ''EXPIRE'', ''PEXPIREAT'', ''LPUSH'', ''RPUSH'', ''LPUSHX'',
     ''RPUSHX'', ''LPOP'', ''RPOP'', ''LSET'', ''LTRIM'', ''LREM'', ''LINSERT'', ''LMOVE'', ''RPOPLPUSH'']"

definition growsMemory :: "string \<Rightarrow> bool" where
  "growsMemory name \<longleftrightarrow> name \<in> set [''SET'', ''LPUSH'', ''RPUSH'', ''LPUSHX'', ''RPUSHX'', ''LINSERT'', ''LSET'',
     ''LMOVE'', ''RPOPLPUSH'']"

end
