(* ===== verification/CommandCorrect.thy ===== *)
theory CommandCorrect
  imports Command
begin

text \<open>
  What a command does to the store. Every command other than \<open>DEL\<close> either only replies or
  makes one storage call, chosen without looking at the store or the clock; the refinement
  of the storage calls then gives the behaviour of commands.
\<close>

subsection \<open>Commands as storage calls\<close>

definition args_ok :: "store_call \<Rightarrow> bool" where
  "args_ok c \<longleftrightarrow>
     (case c of
        CPush k vs left only \<Rightarrow> vs \<noteq> []
      | CPop k left n \<Rightarrow> 0 \<le> n
      | CRem k n v \<Rightarrow> in_int64 n
      | _ \<Rightarrow> True)"

lemma call_ok_args: "call_ok (clk, c) \<longleftrightarrow> clock_ok clk \<and> args_ok c"
  by (simp add: call_ok_def args_ok_def)

definition reply_error :: "call_reply \<Rightarrow> bool" where
  "reply_error r =
     (case r of
        Text (Inl _) \<Rightarrow> True
      | Count (Inl _) \<Rightarrow> True
      | Items (Inl _) \<Rightarrow> True
      | Status (Some _) \<Rightarrow> True
      | Indexes (Inl _) \<Rightarrow> True
      | _ \<Rightarrow> False)"

definition call_reads :: "store_call \<Rightarrow> bool" where
  "call_reads c =
     (case c of
        CGet k \<Rightarrow> True | CTTL k \<Rightarrow> True | CLen k \<Rightarrow> True | CRange k a b \<Rightarrow> True | CIndex k i \<Rightarrow> True
      | CPosition k v r n m \<Rightarrow> True | _ \<Rightarrow> False)"

text \<open>Calls that commands make; the periodic deletion of expired keys is not one of them.\<close>

definition call_shrinks :: "store_call \<Rightarrow> bool" where
  "call_shrinks c =
     (case c of
        CDel k \<Rightarrow> True | CExpire k n \<Rightarrow> True | CExpireAt k t \<Rightarrow> True | CPop k l n \<Rightarrow> True
      | CTrim k a b \<Rightarrow> True | CRem k n v \<Rightarrow> True | _ \<Rightarrow> False)"

definition call_of_command :: "store_call \<Rightarrow> bool" where
  "call_of_command c = (case c of CDeleteExpired ks \<Rightarrow> False | CActiveExpire rnd \<Rightarrow> False | _ \<Rightarrow> True)"

abbreviation is_error :: "Value \<Rightarrow> bool" where
  "is_error v \<equiv> v_type v = Error"

definition shaped :: "(store_call \<Rightarrow> bool) \<Rightarrow> ((nat \<Rightarrow> time) \<Rightarrow> Store \<Rightarrow> Value \<times> Store) \<Rightarrow> bool" where
  "shaped P h \<longleftrightarrow>
     (\<exists>v. \<forall>clk s. h clk s = (v, s)) \<or>
     (\<exists>c render. P c \<and> args_ok c \<and> call_of_command c \<and>
        (\<forall>clk s. h clk s = apfst render (run_call (clk, c) s)) \<and>
        (\<forall>r. is_error (render r) \<longrightarrow> reply_error r))"

named_theorems shaped_intros

lemma shaped_reply [shaped_intros]: "shaped P (\<lambda>clk s. (v, s))"
  unfolding shaped_def by blast

lemma shaped_if [shaped_intros]:
  "(b \<Longrightarrow> shaped P f) \<Longrightarrow> (\<not> b \<Longrightarrow> shaped P g) \<Longrightarrow> shaped P (\<lambda>clk s. if b then f clk s else g clk s)"
  by (cases b) simp_all

lemma shaped_sum [shaped_intros]:
  "(\<And>x. r = Inl x \<Longrightarrow> shaped P (f x)) \<Longrightarrow> (\<And>y. r = Inr y \<Longrightarrow> shaped P (g y)) \<Longrightarrow>
    shaped P (\<lambda>clk s. case r of Inl x \<Rightarrow> f x clk s | Inr y \<Rightarrow> g y clk s)"
  by (cases r) simp_all

lemma shaped_option [shaped_intros]:
  "(r = None \<Longrightarrow> shaped P f) \<Longrightarrow> (\<And>y. r = Some y \<Longrightarrow> shaped P (g y)) \<Longrightarrow>
    shaped P (\<lambda>clk s. case r of None \<Rightarrow> f clk s | Some y \<Rightarrow> g y clk s)"
  by (cases r) simp_all

lemma shaped_list [shaped_intros]:
  "shaped P f \<Longrightarrow> (\<And>y ys. r = y # ys \<Longrightarrow> shaped P (g y ys)) \<Longrightarrow>
    shaped P (\<lambda>clk s. case r of [] \<Rightarrow> f clk s | y # ys \<Rightarrow> g y ys clk s)"
  by (cases r) simp_all

lemma shaped_call:
  assumes "P c" "args_ok c" "call_of_command c" "\<And>clk s. h clk s = apfst render (run_call (clk, c) s)"
    "\<And>r. is_error (render r) \<Longrightarrow> reply_error r"
  shows "shaped P h"
  unfolding shaped_def using assms by blast

text \<open>The renderings of the handlers, on the reply kinds their calls return.\<close>

definition render_int :: "call_reply \<Rightarrow> Value" where
  "render_int r = (case r of Count (Inl e) \<Rightarrow> storageError e | Count (Inr n) \<Rightarrow> NewInteger n | _ \<Rightarrow> NewInteger 0)"

definition render_bulk :: "call_reply \<Rightarrow> Value" where
  "render_bulk r =
     (case r of Text (Inl e) \<Rightarrow> storageError e | Text (Inr (Some v)) \<Rightarrow> NewBulkString v | _ \<Rightarrow> NewNullBulkString)"

definition render_items :: "bool \<Rightarrow> call_reply \<Rightarrow> Value" where
  "render_items arr r =
     (case r of
        Items (Inl e) \<Rightarrow> storageError e
      | Items (Inr vs) \<Rightarrow> if arr then stringArray vs else (case vs of [] \<Rightarrow> NewNullBulkString | v # _ \<Rightarrow> NewBulkString v)
      | _ \<Rightarrow> NewNullBulkString)"

definition render_status :: "call_reply \<Rightarrow> Value" where
  "render_status r = (case r of Status (Some e) \<Rightarrow> storageError e | _ \<Rightarrow> NewSimpleString ''OK'')"

definition render_flag :: "call_reply \<Rightarrow> Value" where
  "render_flag r = (case r of Flag ok \<Rightarrow> if \<not> ok then NewInteger 0 else NewInteger 1 | _ \<Rightarrow> NewInteger 0)"

definition render_number :: "call_reply \<Rightarrow> Value" where
  "render_number r = (case r of Number n \<Rightarrow> NewInteger n | _ \<Rightarrow> NewInteger 0)"

definition render_indexes :: "bool \<Rightarrow> call_reply \<Rightarrow> Value" where
  "render_indexes one r =
     (case r of
        Indexes (Inl e) \<Rightarrow> storageError e
      | Indexes (Inr ps) \<Rightarrow> if one then (case ps of [] \<Rightarrow> NewNullBulkString | p # _ \<Rightarrow> NewInteger p)
                           else NewArray (map NewInteger ps)
      | _ \<Rightarrow> NewNullBulkString)"

lemmas renders = render_int_def render_bulk_def render_items_def render_status_def render_flag_def
  render_number_def render_indexes_def

lemma render_errors:
  "is_error (render_int r) \<Longrightarrow> reply_error r" "is_error (render_bulk r) \<Longrightarrow> reply_error r"
  "is_error (render_items arr r) \<Longrightarrow> reply_error r" "is_error (render_status r) \<Longrightarrow> reply_error r"
  "is_error (render_flag r) \<Longrightarrow> reply_error r" "is_error (render_number r) \<Longrightarrow> reply_error r"
  "is_error (render_indexes arr r) \<Longrightarrow> reply_error r" "is_error (NewSimpleString t) \<Longrightarrow> reply_error r"
  by (auto simp: renders reply_error_def new_values stringArray_def
      split: call_reply.splits sum.splits option.splits list.splits if_splits)

text \<open>One storage call per rendering.\<close>

lemma shaped_int_reply:
  assumes "P c" "args_ok c" "call_of_command c" "\<And>clk s. run_call (clk, c) s = apfst Count (f clk s)"
  shows "shaped P (\<lambda>clk s. int_reply (f clk s))"
proof (rule shaped_call[where P = P and c = c, OF assms(1-3)])
  show "int_reply (f clk s) = apfst render_int (run_call (clk, c) s)" for clk s
    by (simp add: assms(4) int_reply_def render_int_def split: prod.splits sum.splits)
qed (rule render_errors)

lemma shaped_bulk_reply:
  assumes "P c" "args_ok c" "call_of_command c" "\<And>clk s. run_call (clk, c) s = apfst Text (f clk s)"
  shows "shaped P (\<lambda>clk s. bulk_reply (f clk s))"
proof (rule shaped_call[where P = P and c = c, OF assms(1-3)])
  show "bulk_reply (f clk s) = apfst render_bulk (run_call (clk, c) s)" for clk s
    by (simp add: assms(4) bulk_reply_def render_bulk_def split: prod.splits sum.splits option.splits)
qed (rule render_errors)

lemmas run_eqs = run_call_def Let_def fst_conv snd_conv store_call.case

lemmas call_kinds = args_ok_def call_of_command_def

lemma handleGet_shaped:
  "(length args = 1 \<Longrightarrow> P (CGet (args ! 0))) \<Longrightarrow> shaped P (\<lambda>clk s. handleGet clk args s)"
proof -
  assume P: "length args = 1 \<Longrightarrow> P (CGet (args ! 0))"
  have "shaped P (\<lambda>clk s. bulk_reply (GetString clk (args ! 0) s))" if "\<not> length args \<noteq> 1"
    using that by (intro shaped_bulk_reply[of P "CGet (args ! 0)"]) (simp_all add: P call_kinds run_eqs)
  then show ?thesis
    unfolding handleGet_def bulk_reply_def by (intro shaped_if shaped_reply)
qed

definition set_call :: "key \<Rightarrow> string \<Rightarrow> int \<times> time \<times> bool \<Rightarrow> store_call" where
  "set_call k v r = (case r of (ttl, t, fixed) \<Rightarrow> if fixed then CSetAt k v t else CSet k v ttl)"

lemma handleSet_shaped:
  assumes "\<And>k v opts r. args = k # v # opts \<Longrightarrow> set_options U opts (0, zero_time, False) = Inr r \<Longrightarrow> P (set_call k v r)"
  shows "shaped P (\<lambda>clk s. handleSet U clk args s)"
proof -
  have "shaped P (\<lambda>clk s. (NewSimpleString ''OK'', if b then SetAt clk k v t s else Set clk k v ttl s))"
    if P: "P (set_call k v (ttl, t, b))" for b k v t ttl
  proof (cases b)
    case True
    then show ?thesis
      by (intro shaped_call[where P = P and c = "CSetAt k v t" and render = "\<lambda>_. NewSimpleString ''OK''"])
        (use P in \<open>simp_all add: set_call_def call_kinds run_eqs render_errors\<close>)
  next
    case False
    then show ?thesis
      by (intro shaped_call[where P = P and c = "CSet k v ttl" and render = "\<lambda>_. NewSimpleString ''OK''"])
        (use P in \<open>simp_all add: set_call_def call_kinds run_eqs render_errors\<close>)
  qed
  with assms show ?thesis
    unfolding handleSet_def
    by (intro shaped_list shaped_reply shaped_sum) (auto split: prod.splits)
qed

lemma shaped_flag:
  assumes "P c" "args_ok c" "call_of_command c" "\<And>clk s. run_call (clk, c) s = apfst Flag (f clk s)"
  shows "shaped P (\<lambda>clk s. let (ok, s) = f clk s in (if \<not> ok then NewInteger 0 else NewInteger 1, s))"
proof (rule shaped_call[where P = P and c = c, OF assms(1-3)])
  show "(let (ok, s) = f clk s in (if \<not> ok then NewInteger 0 else NewInteger 1, s)) =
      apfst render_flag (run_call (clk, c) s)" for clk s
    by (simp add: assms(4) render_flag_def split: prod.splits)
qed (rule render_errors)

lemma handleExpire_shaped: "(\<And>n. length args = 2 \<Longrightarrow> P (CExpire (args ! 0) n)) \<Longrightarrow> shaped P (\<lambda>clk s. handleExpire clk args s)"
  unfolding handleExpire_def
  by (intro shaped_if shaped_reply shaped_option, rule shaped_flag) (auto simp: call_kinds run_eqs)

lemma handleExpireAt_shaped:
  "(\<And>ms. length args = 2 \<Longrightarrow> ParseInt (args ! 1) = Some ms \<Longrightarrow> P (CExpireAt (args ! 0) (UnixMilli ms))) \<Longrightarrow>
    shaped P (\<lambda>clk s. handleExpireAt clk args s)"
  unfolding handleExpireAt_def
  by (intro shaped_if shaped_reply shaped_option, rule shaped_flag)
    (auto simp: call_kinds run_eqs)

lemma handleTTL_shaped:
  "(length args = 1 \<Longrightarrow> P (CTTL (args ! 0))) \<Longrightarrow> shaped P (\<lambda>clk s. handleTTL clk args s)"
proof -
  assume P: "length args = 1 \<Longrightarrow> P (CTTL (args ! 0))"
  have "shaped P (\<lambda>clk s. let (n, s) = TTL clk (args ! 0) s in (NewInteger n, s))" if "\<not> length args \<noteq> 1"
    using that by (intro shaped_call[where P = P and c = "CTTL (args ! 0)" and render = render_number])
      (simp_all add: P call_kinds run_eqs render_errors render_number_def split: prod.splits)
  then show ?thesis unfolding handleTTL_def by (intro shaped_if shaped_reply)
qed

lemma handleListPush_shaped:
  "(\<And>vs l b. args \<noteq> [] \<Longrightarrow> P (CPush (args ! 0) vs l b)) \<Longrightarrow> shaped P (\<lambda>clk s. handleListPush U clk name args s)"
proof -
  assume P: "\<And>vs l b. args \<noteq> [] \<Longrightarrow> P (CPush (args ! 0) vs l b)"
  have "shaped P (\<lambda>clk s. int_reply (ListPush clk (hd args) (tl args) l b s))" if "\<not> length args < 2" for l b
    using that by (intro shaped_int_reply[of P "CPush (args ! 0) (tl args) l b"])
      (auto simp: P call_kinds run_eqs hd_conv_nth simp flip: length_greater_0_conv)
  then show ?thesis unfolding handleListPush_def Let_def by (intro shaped_if shaped_reply)
qed

lemma handleListPop_shaped:
  "(\<And>l n. args \<noteq> [] \<Longrightarrow> P (CPop (args ! 0) l n)) \<Longrightarrow> shaped P (\<lambda>clk s. handleListPop U clk name args s)"
proof -
  assume P: "\<And>l n. args \<noteq> [] \<Longrightarrow> P (CPop (args ! 0) l n)"
  have pop: "shaped P (\<lambda>clk s. case ListPop clk (args ! 0) l n s of
      (Inl e, s) \<Rightarrow> (storageError e, s)
    | (Inr values, s) \<Rightarrow> if w then (stringArray values, s)
        else case values of [] \<Rightarrow> (NewNullBulkString, s) | v # _ \<Rightarrow> (NewBulkString v, s))"
    if "0 \<le> n" "args \<noteq> []" for l n w
    using that
    by (intro shaped_call[where P = P and c = "CPop (args ! 0) l n" and render = "render_items w"])
      (auto simp: P call_kinds run_eqs render_errors render_items_def split: prod.splits sum.splits list.splits)
  show ?thesis
    unfolding handleListPop_def Let_def
    by (intro shaped_if shaped_reply shaped_sum) (auto intro!: pop split: sum.splits if_splits)
qed

lemma handleListPosition_shaped:
  "(\<And>k v opts r n m. args = k # v # opts \<Longrightarrow> P (CPosition k v r n m)) \<Longrightarrow> shaped P (\<lambda>clk s. handleListPosition U clk args s)"
proof -
  assume P: "\<And>k v opts r n m. args = k # v # opts \<Longrightarrow> P (CPosition k v r n m)"
  have pos: "shaped P (\<lambda>clk s. case ListPosition clk k v r n m s of
      (Inl e, s) \<Rightarrow> (storageError e, s)
    | (Inr ps, s) \<Rightarrow> if \<not> g \<or> n = 1 then (case ps of [] \<Rightarrow> (NewNullBulkString, s) | p # _ \<Rightarrow> (NewInteger p, s))
        else (NewArray (map NewInteger ps), s))" if "args = k # v # opts" for k v opts r n m g
    using P[OF that] by (intro shaped_call[where P = P and c = "CPosition k v r n m" and render = "render_indexes (\<not> g \<or> n = 1)"])
      (auto simp: call_kinds run_eqs render_errors render_indexes_def split: prod.splits sum.splits list.splits)
  show ?thesis
    unfolding handleListPosition_def
    by (intro shaped_list shaped_reply shaped_sum) (auto intro: pos split: prod.splits)
qed

text \<open>
  The keys whose entries a call looks at; a call that overwrites or removes its key looks at
  none. A command looks at its first argument, or at its first two when it moves an element.
\<close>

definition reads_keys :: "store_call \<Rightarrow> key list" where
  "reads_keys c =
     (case c of
        CSet k v ttl \<Rightarrow> [] | CSetAt k v t \<Rightarrow> [] | CDel k \<Rightarrow> []
      | CGet k \<Rightarrow> [k] | CTTL k \<Rightarrow> [k] | CExpire k n \<Rightarrow> [k] | CExpireAt k t \<Rightarrow> [k] | CPush k vs l b \<Rightarrow> [k]
      | CPop k l n \<Rightarrow> [k] | CLen k \<Rightarrow> [k] | CRange k a b \<Rightarrow> [k] | CIndex k i \<Rightarrow> [k] | CSetIndex k i v \<Rightarrow> [k]
      | CTrim k a b \<Rightarrow> [k] | CRem k n v \<Rightarrow> [k] | CInsert k p v b \<Rightarrow> [k] | CPosition k v r n m \<Rightarrow> [k]
      | CMove a b l r \<Rightarrow> [a, b] | CDeleteExpired ks \<Rightarrow> ks | CActiveExpire rnd \<Rightarrow> [])"

definition command_keys :: "string \<Rightarrow> string list \<Rightarrow> key list" where
  "command_keys name args =
     (if name = ''SET'' \<or> name = ''DEL'' then []
      else if name = ''LMOVE'' \<or> name = ''RPOPLPUSH'' then take 2 args else take 1 args)"

text \<open>
  Calls and commands whose effect on a deadline does not depend on the clock; the deadlines
  they set are whole milliseconds.
\<close>

definition whole_ms :: "time \<Rightarrow> bool" where
  "whole_ms t \<longleftrightarrow> in_int64 (unixMilli t) \<and> UnixMilli (unixMilli t) = t"

lemma whole_ms_UnixMilli [simp]: "in_int64 ms \<Longrightarrow> whole_ms (UnixMilli ms)"
  by (simp add: whole_ms_def)

definition absolute_call :: "store_call \<Rightarrow> bool" where
  "absolute_call c =
     (case c of CSet k v ttl \<Rightarrow> ttl \<le> 0 | CSetAt k v t \<Rightarrow> whole_ms t | CExpireAt k t \<Rightarrow> whole_ms t | CExpire k n \<Rightarrow> False | CDeleteExpired ks \<Rightarrow> False | CActiveExpire rnd \<Rightarrow> False
      | _ \<Rightarrow> True)"

definition absolute_command :: "unicode \<Rightarrow> string \<Rightarrow> string list \<Rightarrow> bool" where
  "absolute_command U name args \<longleftrightarrow> name \<noteq> ''EXPIRE'' \<and>
     (name = ''SET'' \<longrightarrow>
       (case set_options U (drop 2 args) (0, zero_time, False) of
          Inl _ \<Rightarrow> True | Inr (ttl, t, fixed) \<Rightarrow> fixed \<or> ttl \<le> 0))"

text \<open>The deadlines a call or a command may set, each with its key.\<close>

definition call_deadlines :: "store_call \<Rightarrow> (key \<times> time) list" where
  "call_deadlines c = (case c of CSetAt k v t \<Rightarrow> [(k, t)] | CExpireAt k t \<Rightarrow> [(k, t)] | _ \<Rightarrow> [])"

definition command_deadlines :: "unicode \<Rightarrow> string \<Rightarrow> string list \<Rightarrow> (key \<times> time) list" where
  "command_deadlines U name args =
     (if name = ''SET'' then
        case set_options U (drop 2 args) (0, zero_time, False) of
          Inr (ttl, t, True) \<Rightarrow> [(args ! 0, t)]
        | _ \<Rightarrow> []
      else if name = ''PEXPIREAT'' then
        case ParseInt (args ! 1) of Some ms \<Rightarrow> [(args ! 0, UnixMilli ms)] | None \<Rightarrow> []
      else [])"

text \<open>The calls a command allows: readers read, and only the listed names add data.\<close>

definition allowed :: "unicode \<Rightarrow> string \<Rightarrow> string list \<Rightarrow> store_call \<Rightarrow> bool" where
  "allowed U name args c \<longleftrightarrow>
     (IsMutation name \<longleftrightarrow> \<not> call_reads c) \<and> (\<not> growsMemory name \<longrightarrow> call_reads c \<or> call_shrinks c) \<and>
     set (reads_keys c) \<subseteq> set (command_keys name args) \<and> (absolute_command U name args \<longrightarrow> absolute_call c) \<and>
     set (call_deadlines c) \<subseteq> set (command_deadlines U name args)"

lemmas allowed_defs = allowed_def IsMutation_def growsMemory_def call_reads_def call_shrinks_def reads_keys_def
  command_keys_def absolute_call_def call_deadlines_def

lemma set_options_whole:
  "set_options U opts (ttl, t, fixed) = Inr (ttl', t', True) \<Longrightarrow> (fixed \<Longrightarrow> whole_ms t) \<Longrightarrow> whole_ms t'"
proof (induction U opts "(ttl, t, fixed)" arbitrary: ttl t fixed rule: set_options.induct)
  case (3 U opt arg rest)
  then show ?case by (auto simp: ParseInt_int64 split: if_splits option.splits)
qed auto

lemma allowed_set:
  "args = k # v # opts \<Longrightarrow> set_options U opts (0, zero_time, False) = Inr r \<Longrightarrow> allowed U ''SET'' args (set_call k v r)"
  using set_options_whole[of U opts 0 zero_time False]
  by (auto simp: allowed_defs absolute_command_def command_deadlines_def set_call_def split: prod.splits)

lemmas name_kinds = IsMutation_def growsMemory_def call_reads_def call_shrinks_def reads_keys_def absolute_call_def
  call_deadlines_def

lemma allowed_one:
  assumes "IsMutation name \<longleftrightarrow> \<not> call_reads c" "growsMemory name \<or> call_reads c \<or> call_shrinks c" "absolute_call c"
    "reads_keys c = [args ! 0]" "0 < length args" "name \<notin> {''SET'', ''DEL''}" "call_deadlines c = []"
  shows "allowed U name args c"
proof -
  have "args = args ! 0 # tl args" using assms(5) by (cases args) auto
  with assms show ?thesis by (cases args) (auto simp: allowed_def command_keys_def)
qed

lemma allowed_two:
  assumes "IsMutation name" "growsMemory name" "absolute_call c" "\<not> call_reads c"
    "reads_keys c = [args ! 0, args ! 1]" "1 < length args" "name \<in> {''LMOVE'', ''RPOPLPUSH''}" "call_deadlines c = []"
  shows "allowed U name args c"
  using assms by (cases args; cases "tl args") (auto simp: allowed_def command_keys_def)

lemma allowed_expire: "length args = 2 \<Longrightarrow> allowed U ''EXPIRE'' args (CExpire (args ! 0) n)"
  by (cases args) (auto simp: allowed_defs absolute_command_def)

lemma allowed_expireAt:
  "length args = 2 \<Longrightarrow> ParseInt (args ! 1) = Some ms \<Longrightarrow> allowed U ''PEXPIREAT'' args (CExpireAt (args ! 0) (UnixMilli ms))"
  by (cases args) (auto simp: allowed_defs command_deadlines_def dest: ParseInt_int64)

lemma parseListInteger_int64: "parseListInteger x = Inr n \<Longrightarrow> in_int64 n"
  by (auto simp: parseListInteger_def dest: ParseInt_int64 split: option.splits)

lemma shaped_items:
  assumes "P c" "args_ok c" "call_of_command c" "\<And>clk s. run_call (clk, c) s = apfst Items (f clk s)"
  shows "shaped P (\<lambda>clk s. case f clk s of (Inl e, s) \<Rightarrow> (storageError e, s) | (Inr vs, s) \<Rightarrow> (stringArray vs, s))"
proof (rule shaped_call[where P = P and c = c and render = "render_items True", OF assms(1-3)])
  show "(case f clk s of (Inl e, s) \<Rightarrow> (storageError e, s) | (Inr vs, s) \<Rightarrow> (stringArray vs, s)) =
      apfst (render_items True) (run_call (clk, c) s)" for clk s
    by (simp add: assms(4) render_items_def split: prod.splits sum.splits)
qed (rule render_errors)

lemma shaped_set_index:
  assumes "P (CSetIndex k i v)"
  shows "shaped P (\<lambda>clk s. case ListSet clk k i v s of (Some e, s) \<Rightarrow> (storageError e, s) | (None, s) \<Rightarrow> (NewSimpleString ''OK'', s))"
  by (rule shaped_call[where P = P and c = "CSetIndex k i v" and render = render_status])
    (auto simp: assms call_kinds run_eqs render_errors render_status_def split: prod.splits option.splits)

lemma shaped_trim:
  assumes "P (CTrim k a b)"
  shows "shaped P (\<lambda>clk s. case ListTrim clk k a b s of (Inl e, s) \<Rightarrow> (storageError e, s) | (Inr _, s) \<Rightarrow> (NewSimpleString ''OK'', s))"
  by (rule shaped_call[where P = P and c = "CTrim k a b" and render = render_status])
    (auto simp: assms call_kinds run_eqs render_errors render_status_def split: prod.splits sum.splits)

lemma list_int_calls:
  "P (CLen k) \<Longrightarrow> shaped P (\<lambda>clk s. int_reply (ListLen clk k s))"
  "P (CRem k n v) \<Longrightarrow> in_int64 n \<Longrightarrow> shaped P (\<lambda>clk s. int_reply (ListRem clk k n v s))"
  "P (CInsert k p v b) \<Longrightarrow> shaped P (\<lambda>clk s. int_reply (ListInsert clk k p v b s))"
  "P (CIndex k n) \<Longrightarrow> shaped P (\<lambda>clk s. bulk_reply (ListIndex clk k n s))"
  "P (CMove k q l r) \<Longrightarrow> shaped P (\<lambda>clk s. bulk_reply (ListMove clk k q l r s))"
  "P (CRange k n m) \<Longrightarrow> shaped P (\<lambda>clk s. case ListRange clk k n m s of
     (Inl e, s) \<Rightarrow> (storageError e, s) | (Inr vs, s) \<Rightarrow> (stringArray vs, s))"
  by (rule shaped_int_reply[of P "CLen k"] shaped_int_reply[of P "CRem k n v"]
      shaped_int_reply[of P "CInsert k p v b"] shaped_bulk_reply[of P "CIndex k n"]
      shaped_bulk_reply[of P "CMove k q l r"] shaped_items[of P "CRange k n m"];
      simp add: call_kinds run_eqs)+

lemma handleListCommand_shaped:
  "shaped (allowed U name args) (\<lambda>clk s. handleListCommand U clk name args s)"
  unfolding handleListCommand_def Let_def
  by (intro shaped_if shaped_reply shaped_sum shaped_option handleListPush_shaped handleListPop_shaped
      handleListPosition_shaped list_int_calls shaped_set_index shaped_trim)
    ((rule allowed_one; force simp: name_kinds)+, erule parseListInteger_int64,
      (rule allowed_one; force simp: name_kinds), (rule allowed_two; force simp: name_kinds),
      (rule allowed_two; force simp: name_kinds), (rule allowed_one; force simp: name_kinds))

lemma execute_shaped:
  assumes "cmd_name cmd \<noteq> ''DEL''"
  shows "shaped (allowed U (cmd_name cmd) (cmd_args cmd)) (\<lambda>clk s. execute U clk cmd s)"
  unfolding execute_def Let_def
  by (intro shaped_if shaped_reply handleGet_shaped handleSet_shaped handleTTL_shaped handleExpire_shaped
      handleExpireAt_shaped handleListCommand_shaped)
    ((rule allowed_one; force simp: name_kinds), simp add: allowed_set, (rule allowed_one; force simp: name_kinds),
      use assms in simp, simp add: allowed_expire, simp add: allowed_expireAt)

end
