(* ===== verification/CommandEffects.thy ===== *)
theory CommandEffects
  imports CommandCorrect
begin

text \<open>
  What commands do to the contents of the store: every command keeps the store invariant,
  commands that are not mutations and commands that reply with an error remove nothing but
  expired keys.
\<close>

subsection \<open>DEL\<close>

lemma clock_ok_later: "clock_ok clk \<Longrightarrow> clock_ok (\<lambda>n. clk (n + j))"
  unfolding clock_ok_def mono_def by (meson add_le_cancel_right le0 order_less_le_trans)

lemma del_keys_refines:
  assumes "store_inv s" "clock_ok clk" "del_keys clk ks n s = (m, s')"
  shows "store_inv s' \<and> abs_store s' = abs_store s |` (- set ks) \<and> n \<le> m \<and> m \<le> n + int (length ks)"
  using assms
proof (induction clk ks n s rule: del_keys.induct)
  case (2 clk key keys c s)
  obtain ok s1 where d: "Del clk key s = (ok, s1)" by fastforce
  have s1: "store_inv s1" "abs_store s1 = (abs_store s)(key := None)"
    using Del_refines[OF 2(2), of clk key] d by (auto simp: refines_def spec_del_def)
  have step: "del_keys (\<lambda>n. clk (n + 1)) keys (if ok then c + 1 else c) s1 = (m, s')"
    using 2(4) d by (simp split: prod.splits)
  have "store_inv s' \<and> abs_store s' = abs_store s1 |` (- set keys) \<and> (if ok then c + 1 else c) \<le> m \<and>
      m \<le> (if ok then c + 1 else c) + int (length keys)"
    by (rule 2(1)[OF d[symmetric] refl s1(1) clock_ok_later[OF 2(3)] step])
  moreover have "abs_store s1 |` (- set keys) = abs_store s |` (- set (key # keys))"
    by (auto simp: s1(2) restrict_map_def fun_eq_iff)
  ultimately show ?case by (auto split: if_splits)
qed (auto simp: restrict_map_def)

subsection \<open>All commands\<close>

text \<open>Either only a reply, or one storage call, or a \<open>DEL\<close>.\<close>

lemma execute_cases:
  obtains (Reply) v where "\<And>clk s. execute U clk cmd s = (v, s)"
    | (Call) c render where "allowed U (cmd_name cmd) (cmd_args cmd) c" "args_ok c" "call_of_command c"
        "\<And>clk s. execute U clk cmd s = apfst render (run_call (clk, c) s)"
        "\<And>r. is_error (render r) \<Longrightarrow> reply_error r"
    | (Del) "cmd_name cmd = ''DEL''" "cmd_args cmd \<noteq> []"
        "\<And>clk s. execute U clk cmd s = apfst NewInteger (del_keys clk (cmd_args cmd) 0 s)"
proof (cases "cmd_name cmd = ''DEL''")
  case True
  then have e: "execute U clk cmd s = handleDel clk (cmd_args cmd) s" for clk s
    by (simp add: execute_def)
  show ?thesis
  proof (cases "cmd_args cmd = []")
    case True
    show ?thesis by (rule Reply[of "wrong_args ''del''"]) (simp add: e handleDel_def True)
  next
    case False
    show ?thesis by (rule Del[OF True False]) (simp add: e handleDel_def False apfst_def map_prod_def split_beta)
  qed
next
  case False
  from execute_shaped[OF this, of U] Reply Call show ?thesis unfolding shaped_def by blast
qed

lemma run_call_apfst:
  assumes "store_inv s" "clock_ok clk" "args_ok c" "apfst render (run_call (clk, c) s) = (v, s')"
  obtains r where "v = render r" "store_inv s'" "call_spec (clk, c) (abs_store s) (r, abs_store s')"
proof -
  obtain r where "run_call (clk, c) s = (r, s')" "v = render r"
    using assms(4) by (cases "run_call (clk, c) s") auto
  with run_call_refines[OF assms(1), of "(clk, c)"] assms(2,3) that show ?thesis
    by (simp add: call_ok_args)
qed

lemma execute_inv:
  assumes "store_inv s" "clock_ok clk" "execute U clk cmd s = (v, s')"
  shows "store_inv s'"
proof (cases rule: execute_cases[of U cmd])
  case (Call c render)
  from assms(3) show ?thesis
    unfolding Call(4) by (rule run_call_apfst[OF assms(1,2) Call(2)])
next
  case Del
  from assms(3) obtain n where "del_keys clk (cmd_args cmd) 0 s = (n, s')"
    unfolding Del(3) by (cases "del_keys clk (cmd_args cmd) 0 s") auto
  with del_keys_refines[OF assms(1,2)] show ?thesis by blast
qed (use assms in simp)

lemma purge_only_expired: "only_expired now m (purge now k m)"
  using only_expired_purge[of now m "[k]"] by simp

lemma on_list_reads:
  "(\<And>xs d m. snd (f xs d m) = m) \<Longrightarrow> only_expired now m (snd (on_list now k x f m))"
  by (auto simp: on_list_def Let_def purge_only_expired split: option.splits aval.splits prod.splits)
    (metis purge_only_expired snd_conv)

lemma on_list_error: "fst (on_list now k x f m) = Inl e \<Longrightarrow> only_expired now m (snd (on_list now k x f m))"
  by (auto simp: on_list_def Let_def purge_only_expired split: option.splits aval.splits prod.splits)

lemmas reads_specs = spec_get_def spec_ttl_def spec_len_def spec_range_def spec_index_def spec_position_def

lemma call_reads_only_expired:
  assumes "call_reads c" "call_spec (clk, c) m (r, m')"
  shows "only_expired (clk 0) m m'"
  using assms
  by (cases c)
    (auto simp: call_reads_def call_spec_def reads_specs Let_def purge_only_expired on_list_reads
      dest!: arg_cong[where f = snd] split: if_splits)

lemma spec_move_error:
  "fst (spec_move now1 now2 a b l r m) = Inl e \<Longrightarrow> now1 \<le> now2 \<Longrightarrow>
    only_expired now2 m (snd (spec_move now1 now2 a b l r m))"
  unfolding spec_move_def Let_def
  by (auto split: option.splits aval.splits prod.splits if_splits
      intro: only_expired_mono[OF purge_only_expired] only_expired_trans[OF _ purge_only_expired])

lemma spec_lset_error:
  "fst (spec_lset now k i v m) = Some e \<Longrightarrow> only_expired now m (snd (spec_lset now k i v m))"
  unfolding spec_lset_def Let_def
  by (auto simp: purge_only_expired split: option.splits aval.splits prod.splits)

lemma spec_push_error:
  "fst (spec_push now k vs l b m) = Inl e \<Longrightarrow> only_expired now m (snd (spec_push now k vs l b m))"
  unfolding spec_push_def by (auto dest: on_list_error split: if_splits)

lemma spec_error:
  "fst (spec_pop now k l n m) = Inl e \<Longrightarrow> only_expired now m (snd (spec_pop now k l n m))"
  "fst (spec_rem now k c v m) = Inl e \<Longrightarrow> only_expired now m (snd (spec_rem now k c v m))"
  "fst (spec_insert now k p v bf m) = Inl e \<Longrightarrow> only_expired now m (snd (spec_insert now k p v bf m))"
  "fst (spec_trim now k a b m) = Inl e \<Longrightarrow> only_expired now m (snd (spec_trim now k a b m))"
  unfolding spec_pop_def spec_rem_def spec_insert_def spec_trim_def by (rule on_list_error; assumption)+

lemma call_error_only_expired:
  assumes "reply_error r" "call_spec (clk, c) m (r, m')" "clk 0 \<le> clk 1"
  shows "only_expired (clk 1) m m'"
proof (cases "call_reads c")
  case True
  with assms show ?thesis by (blast intro: only_expired_mono call_reads_only_expired)
next
  case False
  show ?thesis
  proof (cases c)
    case (CMove a b l t)
    with assms spec_move_error[of "clk 0" "clk 1" a b l t m] show ?thesis
      by (auto simp: call_spec_def reply_error_def apfst_def map_prod_def split_beta split: sum.splits)
  next
    case (CActiveExpire rnd)
    with assms show ?thesis by (auto simp: call_spec_def reply_error_def)
  qed (use False assms in \<open>auto simp: call_spec_def reply_error_def call_reads_def apfst_def map_prod_def split_beta
      split: sum.splits option.splits
      intro: only_expired_mono[OF spec_error(1)] only_expired_mono[OF spec_error(2)] only_expired_mono[OF spec_error(3)]
        only_expired_mono[OF spec_error(4)] only_expired_mono[OF spec_push_error] only_expired_mono[OF spec_lset_error]\<close>)
qed

lemma execute_reads:
  assumes "store_inv s" "clock_ok clk" "\<not> IsMutation (cmd_name cmd)" "execute U clk cmd s = (v, s')"
  shows "only_expired (clk 0) (abs_store s) (abs_store s')"
proof (cases rule: execute_cases[of U cmd])
  case (Call c render)
  then have "call_reads c" using assms(3) by (simp add: allowed_def)
  from assms(4) show ?thesis
    unfolding Call(4) by (rule run_call_apfst[OF assms(1,2) Call(2)]) (rule call_reads_only_expired[OF \<open>call_reads c\<close>])
next
  case Del
  then show ?thesis using assms(3) by (simp add: IsMutation_def)
qed (use assms in simp)

lemma execute_error:
  assumes "store_inv s" "clock_ok clk" "execute U clk cmd s = (v, s')" "is_error v"
  shows "only_expired (clk 1) (abs_store s) (abs_store s')"
proof (cases rule: execute_cases[of U cmd])
  case (Call c render)
  have "clk 0 \<le> clk 1" using assms(2) by (simp add: clock_ok_def mono_def)
  obtain r where "v = render r" "call_spec (clk, c) (abs_store s) (r, abs_store s')"
    using assms(3) unfolding Call(4) by (rule run_call_apfst[OF assms(1,2) Call(2)])
  with Call(5) assms(4) show ?thesis
    using call_error_only_expired[OF _ _ \<open>clk 0 \<le> clk 1\<close>] by blast
next
  case Del
  with assms(3,4) show ?thesis by (cases "del_keys clk (cmd_args cmd) 0 s") (auto simp: new_values)
qed (use assms in simp)

end
