(* ===== verification/Recovery.thy ===== *)
theory Recovery
  imports CommandEffects
begin

text \<open>
  Two runs of the same commands at different times: the live run, whose commands are
  journaled as they are applied, and the run that replays them when the server restarts.
  The relation \<open>recovers\<close> compares the contents key by key. It is kept by every command
  with absolute deadlines unless the command looks at an entry whose deadline passes
  between its live execution and the end of the replay.
\<close>

subsection \<open>The relation\<close>

definition recovers :: "time \<Rightarrow> time \<Rightarrow> amap \<Rightarrow> amap \<Rightarrow> bool" where
  "recovers r0 r1 live rep \<longleftrightarrow>
     (\<forall>k. rep k = live k \<or>
        rep k = None \<and> (\<exists>e. live k = Some e \<and> expired r1 e) \<or>
        live k = None \<and> (\<exists>e. rep k = Some e \<and> expired r0 e))"

text \<open>No deadline of the entry lies between the two times.\<close>

definition decided :: "time \<Rightarrow> time \<Rightarrow> aentry option \<Rightarrow> bool" where
  "decided l r1 e \<longleftrightarrow> (case e of None \<Rightarrow> True | Some e \<Rightarrow> expired r1 e \<longrightarrow> expired l e)"

lemma recovers_refl [simp]: "recovers r0 r1 m m"
  by (simp add: recovers_def)

lemma recovers_purge_all:
  "recovers r0 r1 live rep \<Longrightarrow> r0 \<le> r1 \<Longrightarrow> purge r1 k live k = purge r1 k rep k"
  unfolding recovers_def purge_same
  by (drule spec[of _ k]) (auto split: option.splits dest: expired_mono)

lemma decided_mono: "decided l r1 e \<Longrightarrow> l \<le> l' \<Longrightarrow> decided l' r1 e"
  by (auto simp: decided_def split: option.splits dest: expired_mono)

lemma recovers_agree:
  assumes "recovers r0 r1 live rep" "decided l r1 (live k)" "l \<le> r0" "r0 \<le> c" "c \<le> r1"
  shows "purge l k live k = purge c k rep k"
  using assms(1)[unfolded recovers_def, THEN spec, of k] assms(2-5) order_trans[OF assms(3,4)]
  unfolding purge_same decided_def
  by (auto split: option.splits dest: expired_mono[of l _ c] expired_mono[of c _ r1] expired_mono[of r0 _ c])

text \<open>What a call may do to an entry at two different times.\<close>

definition steady :: "(time \<Rightarrow> 'a \<Rightarrow> aentry option) \<Rightarrow> bool" where
  "steady g \<longleftrightarrow> (\<forall>l c x. l \<le> c \<longrightarrow> g c x = g l x \<or> g c x = None \<and> (\<exists>e. g l x = Some e \<and> expired c e))"

lemma steady_const [simp]: "steady (\<lambda>now. g)"
  by (simp add: steady_def)

lemma recovers_update:
  assumes "recovers r0 r1 live rep" "steady g" "l \<le> c" "c \<le> r1"
  shows "recovers r0 r1 (live(k := g l x)) (rep(k := g c x))"
  using assms(1) assms(2)[unfolded steady_def, rule_format, OF assms(3), of x] assms(4)
  unfolding recovers_def by (auto dest: expired_mono)

lemma recovers_restrict: "recovers r0 r1 live rep \<Longrightarrow> recovers r0 r1 (live |` A) (rep |` A)"
  by (auto simp: recovers_def restrict_map_def)

subsection \<open>Calls as functions of the entries they look at\<close>

definition acts_on :: "key \<Rightarrow> store_call \<Rightarrow> (time \<Rightarrow> aentry option \<Rightarrow> aentry option) \<Rightarrow> bool" where
  "acts_on k c g \<longleftrightarrow>
     (\<forall>clk m r m'. call_spec (clk, c) m (r, m') \<longrightarrow> m' = m(k := g (clk 0) (purge (clk 0) k m k)))"

lemma purge_upd: "purge now k m = m(k := purge now k m k)"
  by (simp add: purge_def fun_upd_idem split: option.splits)

definition on_entry :: "(string list \<Rightarrow> time option \<Rightarrow> aentry option) \<Rightarrow> time \<Rightarrow> aentry option \<Rightarrow> aentry option" where
  "on_entry h now e = (case e of Some (AList xs, d) \<Rightarrow> h xs d | e \<Rightarrow> e)"

lemma steady_on_entry [simp]: "steady (on_entry h)"
  by (simp add: steady_def on_entry_def)

definition stored :: "string list \<Rightarrow> time option \<Rightarrow> aentry option" where
  "stored xs d = (if xs = [] then None else Some (AList xs, d))"

lemma store_list_upd: "store_list k xs d m = m(k := stored xs d)"
  by (simp add: store_list_def stored_def)

lemma on_list_entry:
  assumes "\<And>clk m r m'. call_spec (clk, c) m (r, m') \<Longrightarrow> m' = snd (on_list (clk 0) k x f m)"
    "\<And>xs d m. m k = Some (AList xs, d) \<Longrightarrow> snd (f xs d m) = m(k := h xs d)"
  shows "acts_on k c (on_entry h)"
proof -
  have "snd (on_list now k x f m) = m(k := on_entry h now (purge now k m k))" for now m
  proof -
    obtain e where "purge now k m = m(k := e)" using purge_upd by blast
    then show ?thesis
      by (auto simp: assms(2) on_entry_def on_list_def Let_def split_beta split: option.splits aval.splits)
  qed
  with assms(1) show ?thesis unfolding acts_on_def by metis
qed

text \<open>
  A mutation with an absolute deadline acts on one entry, unless it moves an element
  between two lists.
\<close>

lemma apfst_snd: "(r, m') = apfst f x \<Longrightarrow> m' = snd x"
  by (cases x) simp

lemma push_acts:
  "snd (spec_push now k vs l b m) = m(k :=
     case purge now k m k of
       None \<Rightarrow> if b then None else Some (AList (add_ends vs l []), None)
     | Some (AStr v, d) \<Rightarrow> Some (AStr v, d)
     | Some (AList xs, d) \<Rightarrow> stored (add_ends vs l xs) d)"
proof -
  obtain e where "purge now k m = m(k := e)" using purge_upd by blast
  then show ?thesis
    by (auto simp: spec_push_def on_list_def store_list_upd split: option.splits aval.splits)
qed

lemma lset_acts:
  "snd (spec_lset now k i v m) = m(k := on_entry
     (\<lambda>xs d. Some (AList (case position i xs of None \<Rightarrow> xs | Some j \<Rightarrow> xs[j := v]), d)) now (purge now k m k))"
proof -
  obtain e where "purge now k m = m(k := e)" using purge_upd by blast
  then show ?thesis
    by (auto simp: spec_lset_def on_entry_def split: option.splits aval.splits)
qed

lemma expireAt_acts:
  "snd (spec_expireAt now k t m) = m(k :=
     case purge now k m k of None \<Rightarrow> None | Some (v, _) \<Rightarrow> if t \<le> now then None else Some (v, Some t))"
proof -
  obtain e where "purge now k m = m(k := e)" using purge_upd by blast
  then show ?thesis by (auto simp: spec_expireAt_def Let_def split: option.splits)
qed

lemma rotate_acts:
  "snd (spec_move now1 now2 k k l t m) = m(k := on_entry
     (\<lambda>xs d. Some (AList (add_ends [end_value l xs] t (drop_end l xs)), d)) now1 (purge now1 k m k))"
proof -
  obtain e where "purge now1 k m = m(k := e)" using purge_upd by blast
  then show ?thesis
    by (auto simp: spec_move_def on_entry_def Let_def split: option.splits aval.splits)
qed

lemma acts_onI:
  assumes "\<And>clk m r m'. call_spec (clk, c) m (r, m') \<Longrightarrow> m' = m(k := g (clk 0) (purge (clk 0) k m k))"
  shows "acts_on k c g"
  using assms unfolding acts_on_def by blast

text \<open>Where deadlines come from: an entry's deadline is one of the given ones for its key.\<close>

definition sourced :: "(key \<times> time) set \<Rightarrow> key \<Rightarrow> aentry option \<Rightarrow> bool" where
  "sourced D k e \<longleftrightarrow> (\<forall>v d. e = Some (v, Some d) \<longrightarrow> (k, d) \<in> D)"

definition keeps_sourced :: "store_call \<Rightarrow> key \<Rightarrow> (time \<Rightarrow> aentry option \<Rightarrow> aentry option) \<Rightarrow> bool" where
  "keeps_sourced c k g \<longleftrightarrow>
     (\<forall>D now e. set (call_deadlines c) \<subseteq> D \<longrightarrow> sourced D k e \<longrightarrow> sourced D k (g now e))"

lemma stored_cases: "stored xs d = None \<or> (\<exists>ys. stored xs d = Some (AList ys, d))"
  by (simp add: stored_def)

lemma keeps_sourced_on_entry:
  assumes "\<And>xs d. h xs d = None \<or> (\<exists>ys. h xs d = Some (AList ys, d))"
  shows "keeps_sourced c k (on_entry h)"
  unfolding keeps_sourced_def
proof (intro allI impI)
  fix D now e
  assume e: "sourced D k e"
  show "sourced D k (on_entry h now e)"
  proof (cases "\<exists>xs d. e = Some (AList xs, d)")
    case True
    then obtain xs d where "e = Some (AList xs, d)" by blast
    with assms[of xs d] e show ?thesis by (auto simp: on_entry_def sourced_def)
  next
    case False
    then have "on_entry h now e = e" by (auto simp: on_entry_def split: option.splits aval.splits)
    with e show ?thesis by simp
  qed
qed

definition one_key :: "store_call \<Rightarrow> bool" where
  "one_key c = (case c of CMove a b l t \<Rightarrow> a = b | _ \<Rightarrow> True)"

lemma call_acts:
  assumes "absolute_call c" "call_of_command c" "\<not> call_reads c" "one_key c"
  obtains k g where "acts_on k c g" "steady g" "k \<in> set (reads_keys c) \<or> (\<forall>now x y. g now x = g now y)"
    "keeps_sourced c k g"
proof (cases c)
  case (CSet k v ttl)
  with assms(1) have "acts_on k c (\<lambda>_ _. Some (AStr v, None))"
    by (auto simp: acts_on_def absolute_call_def call_spec_def spec_set_def)
  then show ?thesis by (rule that) (simp_all add: keeps_sourced_def sourced_def call_deadlines_def)
next
  case (CSetAt k v t)
  have "acts_on k c (\<lambda>now _. if t \<le> now then None else Some (AStr v, Some t))"
    by (auto simp: CSetAt acts_on_def call_spec_def spec_setAt_def)
  then show ?thesis
    by (rule that)
      (use assms(1) in \<open>auto simp: CSetAt absolute_call_def steady_def expired_def keeps_sourced_def sourced_def call_deadlines_def\<close>)+
next
  case (CDel k)
  have "acts_on k c (\<lambda>_ _. None)" by (auto simp: CDel acts_on_def call_spec_def spec_del_def)
  then show ?thesis by (rule that) (simp_all add: keeps_sourced_def sourced_def call_deadlines_def)
next
  case (CExpireAt k t)
  have "acts_on k c (\<lambda>now e. case e of None \<Rightarrow> None | Some (v, _) \<Rightarrow> if t \<le> now then None else Some (v, Some t))"
    by (rule acts_onI) (auto simp: CExpireAt call_spec_def expireAt_acts dest: apfst_snd)
  then show ?thesis
    by (rule that)
      (use assms(1) in \<open>auto simp: CExpireAt absolute_call_def reads_keys_def steady_def expired_def keeps_sourced_def
        sourced_def call_deadlines_def split: option.splits\<close>)+
next
  case (CPush k vs l b)
  have "acts_on k c (\<lambda>_ e. case e of
       None \<Rightarrow> if b then None else Some (AList (add_ends vs l []), None)
     | Some (AStr v, d) \<Rightarrow> Some (AStr v, d)
     | Some (AList xs, d) \<Rightarrow> stored (add_ends vs l xs) d)"
    by (rule acts_onI) (auto simp: CPush call_spec_def push_acts dest: apfst_snd)
  then show ?thesis
    by (rule that) (auto simp: CPush reads_keys_def keeps_sourced_def sourced_def stored_def split: option.splits aval.splits)
next
  case (CPop k l n)
  have "acts_on k c (on_entry (\<lambda>xs. stored (if l then drop (nat n) xs else take (length xs - nat n) xs)))"
    by (rule on_list_entry) (auto simp: CPop call_spec_def spec_pop_def store_list_upd dest: apfst_snd)
  then show ?thesis
    by (rule that) (auto simp: CPop reads_keys_def intro!: keeps_sourced_on_entry stored_cases)
next
  case (CSetIndex k i v)
  have "acts_on k c (on_entry (\<lambda>xs d. Some (AList (case position i xs of None \<Rightarrow> xs | Some j \<Rightarrow> xs[j := v]), d)))"
    by (rule acts_onI) (auto simp: CSetIndex call_spec_def lset_acts dest: apfst_snd)
  then show ?thesis
    by (rule that) (auto simp: CSetIndex reads_keys_def intro!: keeps_sourced_on_entry stored_cases)
next
  case (CTrim k a b)
  have "acts_on k c (on_entry (\<lambda>xs. stored (slice a b xs)))"
    by (rule on_list_entry) (auto simp: CTrim call_spec_def spec_trim_def store_list_upd dest: apfst_snd)
  then show ?thesis
    by (rule that) (auto simp: CTrim reads_keys_def intro!: keeps_sourced_on_entry stored_cases)
next
  case (CRem k n v)
  have "acts_on k c (on_entry (\<lambda>xs. stored (remove_occurrences n v xs)))"
    by (rule on_list_entry) (auto simp: CRem call_spec_def spec_rem_def store_list_upd Let_def dest: apfst_snd)
  then show ?thesis
    by (rule that) (auto simp: CRem reads_keys_def intro!: keeps_sourced_on_entry stored_cases)
next
  case (CInsert k p v b)
  have "acts_on k c (on_entry (\<lambda>xs d. Some (AList (if p \<notin> set xs then xs
      else let i = length (takeWhile (\<lambda>x. x \<noteq> p) xs); j = (if b then i else i + 1) in take j xs @ v # drop j xs), d)))"
    by (rule on_list_entry) (auto simp: CInsert call_spec_def spec_insert_def Let_def fun_upd_idem dest: apfst_snd)
  then show ?thesis
    by (rule that) (auto simp: CInsert reads_keys_def intro!: keeps_sourced_on_entry stored_cases)
next
  case (CMove a b l t)
  have "acts_on a c (on_entry (\<lambda>xs d. Some (AList (add_ends [end_value l xs] t (drop_end l xs)), d)))"
    using assms(4) by (intro acts_onI) (auto simp: CMove one_key_def call_spec_def rotate_acts dest: apfst_snd)
  then show ?thesis
    by (rule that) (auto simp: CMove reads_keys_def intro!: keeps_sourced_on_entry stored_cases)
qed (use assms in \<open>simp_all add: absolute_call_def call_of_command_def call_reads_def\<close>)

text \<open>Moving between two lists: the new entry of the source and, when it changes, of the destination.\<close>

definition moved :: "bool \<Rightarrow> bool \<Rightarrow> aentry option \<Rightarrow> aentry option \<Rightarrow> aentry option \<times> aentry option option" where
  "moved l t x y =
     (case x of
        Some (AList xs, d) \<Rightarrow>
          (case y of
             None \<Rightarrow> (stored (drop_end l xs) d, Some (Some (AList [end_value l xs], None)))
           | Some (AStr w, e) \<Rightarrow> (x, Some y)
           | Some (AList ys, e) \<Rightarrow> (stored (drop_end l xs) d, Some (Some (AList (add_ends [end_value l xs] t ys), e))))
      | _ \<Rightarrow> (x, None))"

lemma move_acts:
  assumes "a \<noteq> b"
  shows "snd (spec_move now1 now2 a b l t m) =
    (case moved l t (purge now1 a m a) (purge now2 b m b) of
       (x, None) \<Rightarrow> m(a := x)
     | (x, Some y) \<Rightarrow> m(a := x, b := y))"
proof -
  obtain e where e: "purge now1 a m = m(a := e)" using purge_upd by blast
  obtain y where y: "purge now2 b m b = y" by simp
  have f: "purge now2 b (m(a := x)) = m(a := x, b := y)" for x
    using assms by (subst purge_upd) (simp add: purge_same flip: y)
  show ?thesis
    using assms
    by (auto simp: spec_move_def e f y moved_def store_list_upd Let_def fun_eq_iff
        split: option.splits aval.splits)
qed

subsection \<open>Commands\<close>

lemma recovers_same: "recovers r0 r1 live rep \<Longrightarrow> recovers r0 r1 (live(k := x)) (rep(k := x))"
  by (simp add: recovers_def)

definition reading :: "time \<Rightarrow> time \<Rightarrow> (nat \<Rightarrow> time) \<Rightarrow> bool" where
  "reading r0 r1 clk \<longleftrightarrow> (\<forall>n. r0 \<le> clk n \<and> clk n \<le> r1)"

lemma call_recovers:
  assumes rel: "recovers r0 r1 live rep"
    and c: "absolute_call c" "call_of_command c" "\<not> call_reads c"
    and live: "call_spec (clk, c) live (r, live')" and rep: "call_spec (clk', c) rep (r', rep')"
    and now: "mono clk" "clk 1 \<le> r0" "reading r0 r1 clk'"
    and dec: "\<forall>k \<in> set (reads_keys c). decided (clk 0) r1 (live k)"
  shows "recovers r0 r1 live' rep'"
proof (cases "one_key c")
  case True
  have t: "clk 0 \<le> r0" "r0 \<le> clk' 0" "clk' 0 \<le> r1"
    using now order_trans[OF monoD[OF now(1), of 0 1] now(2)] by (auto simp: reading_def)
  obtain k g where g: "acts_on k c g" "steady g" "k \<in> set (reads_keys c) \<or> (\<forall>now x y. g now x = g now y)"
    using call_acts[OF c True] by metis
  have "live' = live(k := g (clk 0) (purge (clk 0) k live k))"
    "rep' = rep(k := g (clk' 0) (purge (clk' 0) k rep k))"
    using g(1) live rep unfolding acts_on_def by blast+
  moreover have "g (clk' 0) (purge (clk' 0) k rep k) = g (clk' 0) (purge (clk 0) k live k)"
    using g(3) recovers_agree[OF rel _ t] dec by metis
  ultimately show ?thesis
    using recovers_update[OF rel g(2) order_trans[OF t(1,2)] t(3)] by simp
next
  case False
  then obtain a b l t where m: "c = CMove a b l t" "a \<noteq> b"
    by (auto simp: one_key_def split: store_call.splits)
  have l0: "clk 0 \<le> r0" using order_trans[OF monoD[OF now(1), of 0 1] now(2)] by simp
  have eq: "purge (clk 0) a live a = purge (clk' 0) a rep a"
    by (rule recovers_agree[OF rel _ l0]) (use now(3) dec m(1) in \<open>auto simp: reading_def reads_keys_def\<close>)
  have "decided (clk 1) r1 (live b)"
    using dec m(1) monoD[OF now(1), of 0 1] by (auto simp: reads_keys_def intro: decided_mono)
  then have eq': "purge (clk 1) b live b = purge (clk' 1) b rep b"
    by (rule recovers_agree[OF rel _ now(2)]) (use now(3) in \<open>auto simp: reading_def\<close>)
  have "live' = snd (spec_move (clk 0) (clk 1) a b l t live)" "rep' = snd (spec_move (clk' 0) (clk' 1) a b l t rep)"
    using live rep by (auto simp: m(1) call_spec_def dest: apfst_snd)
  then show ?thesis
    unfolding move_acts[OF m(2)] eq eq'
    by (auto simp: rel recovers_same split: prod.splits option.splits)
qed

lemma execute_recovers:
  assumes rel: "recovers r0 r1 (abs_store s) (abs_store t)" "store_inv s" "store_inv t"
    and cmd: "IsMutation (cmd_name cmd)" "absolute_command U (cmd_name cmd) (cmd_args cmd)"
    and run: "execute U clk cmd s = (v, s')" "execute U clk' cmd t = (w, t')"
    and now: "clock_ok clk" "clock_ok clk'" "clk 1 \<le> r0" "reading r0 r1 clk'"
    and dec: "\<forall>k \<in> set (command_keys (cmd_name cmd) (cmd_args cmd)). decided (clk 0) r1 (abs_store s k)"
  shows "recovers r0 r1 (abs_store s') (abs_store t')"
proof (cases rule: execute_cases[of U cmd])
  case (Call c render)
  obtain r where live: "call_spec (clk, c) (abs_store s) (r, abs_store s')"
    using run(1) unfolding Call(4) by (rule run_call_apfst[OF rel(2) now(1) Call(2)])
  obtain r' where rep: "call_spec (clk', c) (abs_store t) (r', abs_store t')"
    using run(2) unfolding Call(4) by (rule run_call_apfst[OF rel(3) now(2) Call(2)])
  show ?thesis
    by (rule call_recovers[OF rel(1) _ Call(3) _ live rep _ now(3,4)])
      (use Call(1) cmd now(1) dec in \<open>auto simp: allowed_def clock_ok_def\<close>)
next
  case Del
  have "abs_store s' = abs_store s |` (- set (cmd_args cmd))" "abs_store t' = abs_store t |` (- set (cmd_args cmd))"
    using run del_keys_refines[OF rel(2) now(1) prod.collapse[symmetric], of "cmd_args cmd" 0]
      del_keys_refines[OF rel(3) now(2) prod.collapse[symmetric], of "cmd_args cmd" 0] unfolding Del(3)
    by (auto simp: apfst_def map_prod_def split_beta)
  then show ?thesis using recovers_restrict[OF rel(1)] by simp
qed (use rel run in simp)

definition sourced_map :: "(key \<times> time) set \<Rightarrow> amap \<Rightarrow> bool" where
  "sourced_map D m \<longleftrightarrow> (\<forall>k. sourced D k (m k))"

lemma sourced_None [simp]: "sourced D k None"
  by (simp add: sourced_def)

lemma sourced_purge: "sourced_map D m \<Longrightarrow> sourced D k (purge now k m k)"
  unfolding sourced_map_def purge_same by (cases "m k") (auto simp: sourced_def dest: spec[of _ k])

lemma sourced_upd: "sourced_map D m \<Longrightarrow> sourced D k e \<Longrightarrow> sourced_map D (m(k := e))"
  by (simp add: sourced_map_def)

lemma sourced_restrict: "sourced_map D m \<Longrightarrow> sourced_map D (m |` A)"
  by (simp add: sourced_map_def restrict_map_def)

lemma sourced_only_expired: "sourced_map D m \<Longrightarrow> only_expired t m m' \<Longrightarrow> sourced_map D m'"
  unfolding sourced_map_def only_expired_def by (metis sourced_None)

lemma sourced_mono: "sourced_map D m \<Longrightarrow> D \<subseteq> D' \<Longrightarrow> sourced_map D' m"
  unfolding sourced_map_def sourced_def by blast

lemma sourced_empty [simp]: "sourced_map D Map.empty"
  by (simp add: sourced_map_def)

lemma moved_sourced:
  assumes "sourced D a x" "sourced D b y" "moved l t x y = (x', y')"
  shows "sourced D a x'" "case y' of None \<Rightarrow> True | Some e \<Rightarrow> sourced D b e"
  using assms by (auto simp: moved_def sourced_def stored_def split: option.splits aval.splits prod.splits if_splits)

lemma call_sourced:
  assumes m: "sourced_map D m" "set (call_deadlines c) \<subseteq> D"
    and c: "absolute_call c" "call_of_command c" "\<not> call_reads c"
    and spec: "call_spec (clk, c) m (r, m')"
  shows "sourced_map D m'"
proof (cases "one_key c")
  case True
  obtain k g where g: "acts_on k c g" "keeps_sourced c k g" using call_acts[OF c True] by metis
  then have "m' = m(k := g (clk 0) (purge (clk 0) k m k))" using spec unfolding acts_on_def by blast
  moreover have "sourced D k (g (clk 0) (purge (clk 0) k m k))"
    using g(2) m(2) sourced_purge[OF m(1)] unfolding keeps_sourced_def by blast
  ultimately show ?thesis using sourced_upd[OF m(1)] by simp
next
  case False
  then obtain a b l t where c: "c = CMove a b l t" "a \<noteq> b"
    by (auto simp: one_key_def split: store_call.splits)
  have "m' = snd (spec_move (clk 0) (clk 1) a b l t m)"
    using spec by (auto simp: c(1) call_spec_def dest: apfst_snd)
  moreover obtain x y where xy: "moved l t (purge (clk 0) a m a) (purge (clk 1) b m b) = (x, y)" by fastforce
  ultimately show ?thesis
    using moved_sourced[OF sourced_purge[OF m(1)] sourced_purge[OF m(1)] xy] m(1)
    by (auto simp: move_acts[OF c(2)] sourced_upd split: option.splits)
qed

lemma execute_sourced:
  assumes "store_inv s" "clock_ok clk" "sourced_map D (abs_store s)" "IsMutation (cmd_name cmd)"
    "absolute_command U (cmd_name cmd) (cmd_args cmd)" "execute U clk cmd s = (v, s')"
    "set (command_deadlines U (cmd_name cmd) (cmd_args cmd)) \<subseteq> D"
  shows "sourced_map D (abs_store s')"
proof (cases rule: execute_cases[of U cmd])
  case (Call c render)
  obtain r where "call_spec (clk, c) (abs_store s) (r, abs_store s')"
    using assms(6) unfolding Call(4) by (rule run_call_apfst[OF assms(1,2) Call(2)])
  with call_sourced[OF assms(3) _ _ Call(3)] Call(1) assms(4,5,7) show ?thesis by (auto simp: allowed_def)
next
  case Del
  have "abs_store s' = abs_store s |` (- set (cmd_args cmd))"
    using assms(6) del_keys_refines[OF assms(1,2) prod.collapse[symmetric], of "cmd_args cmd" 0] unfolding Del(3)
    by (auto simp: apfst_def map_prod_def split_beta)
  then show ?thesis using sourced_restrict[OF assms(3)] by simp
qed (use assms in simp)

text \<open>Deadlines that a journal can express: whole milliseconds.\<close>

definition ms_deadlines :: "(key \<times> time) set" where
  "ms_deadlines = {(k, d). whole_ms d}"

lemma command_deadlines_ms: "set (command_deadlines U name args) \<subseteq> ms_deadlines"
proof -
  have "set (case set_options U (drop 2 args) (0, zero_time, False) of
      Inr (ttl, t, True) \<Rightarrow> [(args ! 0, t)] | _ \<Rightarrow> []) \<subseteq> ms_deadlines"
  proof (cases "set_options U (drop 2 args) (0, zero_time, False)")
    case (Inr r)
    obtain ttl t b where r: "r = (ttl, t, b)" by (cases r) auto
    show ?thesis
      using set_options_whole[of U "drop 2 args" 0 zero_time False ttl t] Inr by (cases b) (auto simp: r ms_deadlines_def)
  qed simp
  moreover have "set (case ParseInt (args ! 1) of Some ms \<Rightarrow> [(args ! 0, UnixMilli ms)] | None \<Rightarrow> []) \<subseteq> ms_deadlines"
    using ParseInt_int64[of "args ! 1"] by (cases "ParseInt (args ! 1)") (simp_all add: ms_deadlines_def)
  moreover have "set [] \<subseteq> ms_deadlines" by simp
  ultimately show ?thesis unfolding command_deadlines_def by presburger
qed

end
