(* ===== verification/Executor.thy ===== *)
theory Executor
  imports Recovery
begin

text \<open>
  The executor of \<open>internal/command/executor.go\<close> and \<open>memory.go\<close>: admission under the
  memory limit, journaling before applying, active expiration, and the log rewrite.

  A journal is a value of a type \<open>'j\<close> with the operations of a \<open>journal_ops\<close>; the
  optional interfaces \<open>BatchJournal\<close>, \<open>JournalRewriter\<close> and \<open>AsyncJournalRewriter\<close> are
  optional fields, so that a type assertion is a test of the field. The \<open>i\<close>-th
  operation of an executor that reads the clock, draws random numbers or iterates over a
  map takes its readings from position \<open>i\<close> of the environment. Go errors are their texts.
\<close>

subsection \<open>The environment and the journal interfaces\<close>


record env =
  env_now :: "nat \<Rightarrow> nat \<Rightarrow> time"
  env_rnd :: "nat \<Rightarrow> nat \<Rightarrow> nat \<Rightarrow> nat"
  env_order :: "nat \<Rightarrow> (key \<rightharpoonup> Obj) \<Rightarrow> key list"

record 'j async_rewriter =
  StartRewrite :: "SnapshotEntry list \<Rightarrow> 'j \<Rightarrow> go_error option \<times> 'j"
  rewrite_ready :: "'j \<Rightarrow> go_error option option"
  CompleteRewrite :: "'j \<Rightarrow> go_error option \<times> 'j"
  AbortRewrite :: "go_error \<Rightarrow> 'j \<Rightarrow> go_error option \<times> 'j"

record 'j journal_ops =
  Append :: "(nat \<Rightarrow> time) \<Rightarrow> Command \<Rightarrow> 'j \<Rightarrow> (go_error + Command) \<times> 'j"
  AppendBatch :: "((nat \<Rightarrow> time) \<Rightarrow> Command list \<Rightarrow> 'j \<Rightarrow> (go_error + Command list) \<times> 'j) option"
  Rewrite :: "((nat \<Rightarrow> time) \<Rightarrow> (nat \<Rightarrow> key list) \<Rightarrow> Store \<Rightarrow> 'j \<Rightarrow> go_error option \<times> 'j) option"
  Async :: "'j async_rewriter option"

datatype executorRequest =
    MutationRequest (request_id: nat) Command
  | RewriteRequest (request_id: nat)

record 'j Executor =
  ex_store :: Store
  maxMemory :: int
  evictLRU :: bool
  ex_journal :: "'j option"
  rewriteStatus :: string
  rewriteError :: string
  dispatching :: bool
  writeQueue :: "executorRequest list"
  ex_requests :: nat
  ex_calls :: nat

definition NewExecutor :: "Store \<Rightarrow> 'j Executor" where
  "NewExecutor store = \<lparr>ex_store = store, maxMemory = 0, evictLRU = False, ex_journal = None,
     rewriteStatus = '''', rewriteError = '''', dispatching = False, writeQueue = [], ex_requests = 0, ex_calls = 0\<rparr>"

definition SetJournal :: "'j option \<Rightarrow> 'j Executor \<Rightarrow> 'j Executor" where
  "SetJournal journal e = e\<lparr>ex_journal := journal\<rparr>"

definition SetMemoryLimit :: "int \<Rightarrow> string \<Rightarrow> 'j Executor \<Rightarrow> 'j Executor" where
  "SetMemoryLimit maxBytes policy e = e\<lparr>maxMemory := maxBytes, evictLRU := (policy = ''allkeys-lru'')\<rparr>"

abbreviation clock :: "env \<Rightarrow> 'j Executor \<Rightarrow> nat \<Rightarrow> time" where
  "clock E e \<equiv> env_now E (ex_calls e)"

text \<open>The order in which an iteration visits the keys of each shard.\<close>

definition iteration :: "env \<Rightarrow> 'j Executor \<Rightarrow> nat \<Rightarrow> key list" where
  "iteration E e i = env_order E (ex_calls e) (sh_data (shards (ex_store e) i))"

definition tick :: "'j Executor \<Rightarrow> 'j Executor" where
  "tick e = e\<lparr>ex_calls := Suc (ex_calls e)\<rparr>"

definition batched :: "'j journal_ops \<Rightarrow> 'j Executor \<Rightarrow> bool" where
  "batched J e \<longleftrightarrow> ex_journal e \<noteq> None \<and> AppendBatch J \<noteq> None"

subsection \<open>Admission\<close>

primrec append_each :: "'j journal_ops \<Rightarrow> Command list \<Rightarrow> (nat \<Rightarrow> time) \<Rightarrow> 'j \<Rightarrow> go_error option \<times> 'j" where
  "append_each J [] clk j = (None, j)"
| "append_each J (cmd # cmds) clk j =
     (case Append J clk cmd j of
        (Inl err, j) \<Rightarrow> (Some err, j)
      | (Inr _, j) \<Rightarrow> append_each J cmds (\<lambda>n. clk (n + 1)) j)"

definition appendCommands :: "'j journal_ops \<Rightarrow> Command list \<Rightarrow> (nat \<Rightarrow> time) \<Rightarrow> 'j \<Rightarrow> go_error option \<times> 'j" where
  "appendCommands J commands clk j =
     (case AppendBatch J of
        Some batch \<Rightarrow> (case batch clk commands j of (Inl err, j) \<Rightarrow> (Some err, j) | (Inr _, j) \<Rightarrow> (None, j))
      | None \<Rightarrow> append_each J commands clk j)"

definition oomMessage :: string where
  "oomMessage = ''OOM command not allowed when used memory > '' @ [CHR 0x27] @ ''maxmemory'' @ [CHR 0x27]"

text \<open>Journaling the eviction of a key, when there is a journal, then removing it.\<close>

definition persist_eviction :: "env \<Rightarrow> 'j journal_ops \<Rightarrow> key \<Rightarrow> 'j Executor \<Rightarrow> go_error option \<times> 'j Executor" where
  "persist_eviction E J key e =
     (case ex_journal e of
        None \<Rightarrow> (None, e)
      | Some j \<Rightarrow>
          let (err, j) = appendCommands J [mk_cmd ''DEL'' [key]] (clock E e) j
          in (err, (tick e)\<lparr>ex_journal := Some j\<rparr>))"

definition evict :: "env \<Rightarrow> key \<Rightarrow> 'j Executor \<Rightarrow> 'j Executor" where
  "evict E key e = (tick e)\<lparr>ex_store := snd (Del (clock E e) key (ex_store e))\<rparr>"

partial_function (option) admit_loop ::
  "env \<Rightarrow> 'j journal_ops \<Rightarrow> 'j Executor \<Rightarrow> ((go_error + bool) \<times> 'j Executor) option"
where
  "admit_loop E J e =
     (if UsedMemory (ex_store e) \<le> maxMemory e then Some (Inr True, e)
      else if \<not> evictLRU e then Some (Inr False, e)
      else case LRUVictim (env_rnd E (ex_calls e) 0) (ex_store e) of
             None \<Rightarrow> Some (Inr False, e)
           | Some key \<Rightarrow>
               (case persist_eviction E J key (tick e) of
                  (Some err, e) \<Rightarrow> Some (Inl (''persist eviction: '' @ err), e)
                | (None, e) \<Rightarrow> admit_loop E J (evict E key e)))"

definition admit :: "env \<Rightarrow> 'j journal_ops \<Rightarrow> Command \<Rightarrow> 'j Executor \<Rightarrow> ((go_error + bool) \<times> 'j Executor) option" where
  "admit E J cmd e =
     (if maxMemory e \<le> 0 \<or> \<not> growsMemory (cmd_name cmd) then Some (Inr True, e) else admit_loop E J e)"

text \<open>\<open>Inr None\<close> lets the command run, \<open>Inr (Some reply)\<close> refuses it.\<close>

definition admitOrReject ::
  "env \<Rightarrow> 'j journal_ops \<Rightarrow> Command \<Rightarrow> 'j Executor \<Rightarrow> ((go_error + Value option) \<times> 'j Executor) option"
where
  "admitOrReject E J cmd e =
     map_option (apfst (map_sum id (\<lambda>ok. if ok then None else Some (NewError oomMessage)))) (admit E J cmd e)"

definition apply_command :: "unicode \<Rightarrow> env \<Rightarrow> Command \<Rightarrow> 'j Executor \<Rightarrow> Value \<times> 'j Executor" where
  "apply_command U E cmd e =
     (let (v, s) = execute U (clock E e) cmd (ex_store e) in (v, (tick e)\<lparr>ex_store := s\<rparr>))"

subsection \<open>Rewriting the journal\<close>

definition setRewriteResult :: "string \<Rightarrow> go_error option \<Rightarrow> 'j Executor \<Rightarrow> 'j Executor" where
  "setRewriteResult status err e =
     e\<lparr>rewriteStatus := status, rewriteError := (case err of Some t \<Rightarrow> t | None \<Rightarrow> '''')\<rparr>"

definition aofRewriteStatus :: "'j Executor \<Rightarrow> Value" where
  "aofRewriteStatus e =
     (let status = (if rewriteStatus e = '''' then ''idle'' else rewriteStatus e)
      in NewArray [NewBulkString status, NewBulkString (rewriteError e)])"

text \<open>The flag says whether \<open>finishAOFRewrite\<close> was started and waits for the snapshot.\<close>

definition startAOFRewriteNow ::
  "env \<Rightarrow> 'j journal_ops \<Rightarrow> 'j Executor \<Rightarrow> (go_error + bool) \<times> 'j Executor"
where
  "startAOFRewriteNow E J e =
     (case ex_journal e of
        None \<Rightarrow> (Inl ''AOF rewrite is unavailable because persistence is disabled'', e)
      | Some j \<Rightarrow>
          if rewriteStatus e = ''running'' then (Inl ''AOF rewrite is already in progress'', e)
          else case Rewrite J of
            None \<Rightarrow> (Inl ''configured journal does not support rewrite'', e)
          | Some rewriter \<Rightarrow>
              let e = e\<lparr>rewriteStatus := ''running'', rewriteError := ''''\<rparr>
              in case Async J of
                Some asyncRewriter \<Rightarrow>
                  (case SnapshotEntries (clock E e 0) (iteration E e) (ex_store e) of
                     (Some _, _) \<Rightarrow>
                       (Inl ''snapshot store for AOF rewrite'',
                        setRewriteResult ''failed'' (Some ''snapshot store for AOF rewrite'') (tick e))
                   | (None, entries) \<Rightarrow>
                       let (err, j) = StartRewrite asyncRewriter entries j;
                           e = (tick e)\<lparr>ex_journal := Some j\<rparr>
                       in (case err of
                             Some t \<Rightarrow> (Inl t, setRewriteResult ''failed'' err e)
                           | None \<Rightarrow> (Inr True, e)))
              | None \<Rightarrow>
                  let (err, j) = rewriter (clock E e) (iteration E e) (ex_store e) j;
                      e = (tick e)\<lparr>ex_journal := Some j\<rparr>
                  in (case err of
                        Some t \<Rightarrow> (Inl t, setRewriteResult ''failed'' err e)
                      | None \<Rightarrow> (Inr False, setRewriteResult ''completed'' None e)))"

text \<open>
  The effect of \<open>enqueue\<close> once the channel has taken the request. The mutex \<open>dispatchMu\<close>, which it holds while it
  waits for room, is part of \<open>dispatch_step\<close> in the theory \<open>Dispatch\<close>.
\<close>

definition enqueue :: "(nat \<Rightarrow> executorRequest) \<Rightarrow> 'j Executor \<Rightarrow> 'j Executor" where
  "enqueue request e =
     e\<lparr>dispatching := True, writeQueue := writeQueue e @ [request (ex_requests e)], ex_requests := Suc (ex_requests e)\<rparr>"

definition enqueueAOFRewrite :: "'j journal_ops \<Rightarrow> 'j Executor \<Rightarrow> go_error option \<times> 'j Executor" where
  "enqueueAOFRewrite J e =
     (if ex_journal e = None then (Some ''AOF rewrite is unavailable because persistence is disabled'', e)
      else if Rewrite J = None then (Some ''configured journal does not support rewrite'', e)
      else if rewriteStatus e = ''running'' \<or> rewriteStatus e = ''queued''
      then (Some ''AOF rewrite is already in progress'', e)
      else (None, enqueue RewriteRequest (e\<lparr>rewriteStatus := ''queued'', rewriteError := ''''\<rparr>)))"

text \<open>\<open>finishAOFRewrite\<close> after the message \<open>msg\<close> on the ready channel.\<close>

definition finishAOFRewrite :: "'j async_rewriter \<Rightarrow> go_error option \<Rightarrow> 'j \<Rightarrow> 'j Executor \<Rightarrow> 'j Executor" where
  "finishAOFRewrite rewriter msg j e =
     (case msg of
        Some err \<Rightarrow>
          let (err, j) = AbortRewrite rewriter err j
          in setRewriteResult ''failed'' err (e\<lparr>ex_journal := Some j\<rparr>)
      | None \<Rightarrow>
          let (err, j) = CompleteRewrite rewriter j; e = e\<lparr>ex_journal := Some j\<rparr>
          in case err of
               Some _ \<Rightarrow> setRewriteResult ''failed'' err e
             | None \<Rightarrow> setRewriteResult ''completed'' None e)"

subsection \<open>Execute\<close>

text \<open>A call either returns or waits for the answer to the request it queued.\<close>

datatype outcome = Returned "go_error + Value" | Waiting nat

definition run_admitted ::
  "env \<Rightarrow> 'j journal_ops \<Rightarrow> Command \<Rightarrow> ('j Executor \<Rightarrow> (go_error + Value) \<times> 'j Executor) \<Rightarrow> 'j Executor \<Rightarrow>
   (outcome \<times> 'j Executor) option"
where
  "run_admitted E J cmd f e =
     (case admitOrReject E J cmd e of
        None \<Rightarrow> None
      | Some (Inl err, e) \<Rightarrow> Some (Returned (Inl err), e)
      | Some (Inr (Some reply), e) \<Rightarrow> Some (Returned (Inr reply), e)
      | Some (Inr None, e) \<Rightarrow> Some (apfst Returned (f e)))"

definition persist_and_apply ::
  "unicode \<Rightarrow> env \<Rightarrow> 'j journal_ops \<Rightarrow> 'j \<Rightarrow> Command \<Rightarrow> 'j Executor \<Rightarrow> (go_error + Value) \<times> 'j Executor"
where
  "persist_and_apply U E J j cmd e =
     (let (r, j) = Append J (clock E e) cmd j; e = (tick e)\<lparr>ex_journal := Some j\<rparr>
      in case r of
           Inl err \<Rightarrow> (Inl (''persist command before applying it: '' @ err), e)
         | Inr persisted \<Rightarrow> apfst Inr (apply_command U E persisted e))"

definition Execute :: "unicode \<Rightarrow> env \<Rightarrow> 'j journal_ops \<Rightarrow> Command \<Rightarrow> 'j Executor \<Rightarrow> (outcome \<times> 'j Executor) option" where
  "Execute U E J cmd e =
     (if cmd_name cmd = ''AOFREWRITE'' then
        if length (cmd_args cmd) = 1 \<and> EqualFold U (cmd_args cmd ! 0) ''STATUS''
        then Some (Returned (Inr (aofRewriteStatus e)), e)
        else if cmd_args cmd \<noteq> [] then Some (Returned (Inr (wrong_args ''aofrewrite'')), e)
        else if batched J e then
          (case enqueueAOFRewrite J e of
             (Some err, e) \<Rightarrow> Some (Returned (Inl err), e)
           | (None, e) \<Rightarrow> Some (Returned (Inr (NewSimpleString ''OK'')), e))
        else
          (case startAOFRewriteNow E J e of
             (Inl err, e) \<Rightarrow> Some (Returned (Inl err), e)
           | (Inr _, e) \<Rightarrow> Some (Returned (Inr (NewSimpleString ''OK'')), e))
      else if IsMutation (cmd_name cmd) \<and> ex_journal e \<noteq> None then
        if batched J e then Some (Waiting (ex_requests e), enqueue (\<lambda>i. MutationRequest i cmd) e)
        else run_admitted E J cmd (\<lambda>e. persist_and_apply U E J (the (ex_journal e)) cmd e) e
      else run_admitted E J cmd (\<lambda>e. apfst Inr (apply_command U E cmd e)) e)"

subsection \<open>Active expiration\<close>

definition journalAndDeleteExpired :: "'j journal_ops \<Rightarrow> 'j option remover" where
  "journalAndDeleteExpired J clk candidates st =
     (case st of
        (None, s) \<Rightarrow> let (n, s) = DeleteExpired (clk 0) candidates s in ((n, False), (None, s))
      | (Some j, s) \<Rightarrow>
          let dead = FilterExpired (clk 0) candidates s
          in if dead = [] then ((0, False), st)
             else let (err, j) = appendCommands J (map (\<lambda>key. mk_cmd ''DEL'' [key]) dead) (\<lambda>n. clk (n + 1)) j
                  in case err of
                       Some _ \<Rightarrow> ((0, True), (Some j, s))
                     | None \<Rightarrow> let (n, s) = DeleteExpired (clk 22) dead s in ((n, False), (Some j, s)))"

definition ActiveExpire :: "env \<Rightarrow> 'j journal_ops \<Rightarrow> 'j Executor \<Rightarrow> nat \<times> 'j Executor" where
  "ActiveExpire E J e =
     (if ex_journal e = None
      then let (n, s) = ActiveExpireCycle (clock E e) (env_rnd E (ex_calls e)) (ex_store e)
           in (n, (tick e)\<lparr>ex_store := s\<rparr>)
      else let (n, j, s) = ActiveExpireCycleWith (clock E e) (env_rnd E (ex_calls e))
             (Some (journalAndDeleteExpired J)) (ex_journal e, ex_store e)
           in (n, (tick e)\<lparr>ex_journal := j, ex_store := s\<rparr>))"

subsection \<open>The write loop\<close>

text \<open>
  \<open>commitMutationBatch\<close>: the first pass admits, the second applies what the journal
  returned to the accepted requests, in order.
\<close>

type_synonym answer = "nat \<times> (go_error + Value)"

fun admit_batch ::
  "env \<Rightarrow> 'j journal_ops \<Rightarrow> (nat \<times> Command) list \<Rightarrow> 'j Executor \<Rightarrow>
   ((nat \<times> Command \<times> (go_error + Value) option) list \<times> 'j Executor) option"
where
  "admit_batch E J [] e = Some ([], e)"
| "admit_batch E J ((i, cmd) # batch) e =
     (case admitOrReject E J cmd e of
        None \<Rightarrow> None
      | Some (r, e) \<Rightarrow>
          (case admit_batch E J batch e of
             None \<Rightarrow> None
           | Some (rs, e) \<Rightarrow>
               Some ((i, cmd, case r of Inl err \<Rightarrow> Some (Inl err) | Inr (Some reply) \<Rightarrow> Some (Inr reply) | Inr None \<Rightarrow> None) # rs, e)))"

definition accepted :: "(nat \<times> Command \<times> (go_error + Value) option) list \<Rightarrow> Command list" where
  "accepted rs = map (\<lambda>(i, cmd, r). cmd) (filter (\<lambda>(i, cmd, r). r = None) rs)"

fun apply_batch ::
  "unicode \<Rightarrow> env \<Rightarrow> go_error + Command list \<Rightarrow> (nat \<times> Command \<times> (go_error + Value) option) list \<Rightarrow> 'j Executor \<Rightarrow>
   answer list \<times> 'j Executor"
where
  "apply_batch U E r [] e = ([], e)"
| "apply_batch U E r ((i, cmd, Some v) # rs) e = apfst (Cons (i, v)) (apply_batch U E r rs e)"
| "apply_batch U E (Inl err) ((i, cmd, None) # rs) e =
     apfst (Cons (i, Inl (''persist command before applying it: '' @ err))) (apply_batch U E (Inl err) rs e)"
| "apply_batch U E (Inr persisted) ((i, cmd, None) # rs) e =
     (let (v, e) = apply_command U E (hd persisted) e
      in apfst (Cons (i, Inr v)) (apply_batch U E (Inr (tl persisted)) rs e))"

definition checked_append ::
  "'j journal_ops \<Rightarrow> (nat \<Rightarrow> time) \<Rightarrow> Command list \<Rightarrow> 'j \<Rightarrow> (go_error + Command list) \<times> 'j"
where
  "checked_append J clk commands j =
     (case (case AppendBatch J of Some f \<Rightarrow> if commands = [] then (Inr [], j) else f clk commands j | None \<Rightarrow> (Inr [], j)) of
        (Inl err, j) \<Rightarrow> (Inl err, j)
      | (Inr persisted, j) \<Rightarrow>
          if length persisted \<noteq> length commands
          then (Inl (''journal returned '' @ format_int (int (length persisted)) @ '' commands for batch of '' @
                 format_int (int (length commands))), j)
          else (Inr persisted, j))"

definition commitMutationBatch ::
  "unicode \<Rightarrow> env \<Rightarrow> 'j journal_ops \<Rightarrow> (nat \<times> Command) list \<Rightarrow> 'j Executor \<Rightarrow> (answer list \<times> 'j Executor) option"
where
  "commitMutationBatch U E J batch e =
     (case admit_batch E J batch e of
        None \<Rightarrow> None
      | Some (rs, e) \<Rightarrow>
          (case ex_journal e of
             None \<Rightarrow> None
           | Some j \<Rightarrow>
               let (r, j) = checked_append J (clock E e) (accepted rs) j
               in Some (apply_batch U E r rs ((tick e)\<lparr>ex_journal := Some j\<rparr>))))"

text \<open>
  The step relation of an executor that serves clients through a batch journal. The
  request that \<open>writeLoop\<close> holds back as \<open>pending\<close> is the head of \<open>writeQueue\<close>.
  How long the loop waits for a batch to fill decides where the batch ends: anywhere
  before the next rewrite request, at 64 requests at the latest. \<open>sys_waiting\<close> is set
  while \<open>finishAOFRewrite\<close> waits, \<open>sys_failed\<close> holds the errors that queued rewrites
  still have to report, \<open>sys_answers\<close> what was sent to the clients and \<open>sys_started\<close> the
  rewrite requests that were taken from the queue. The mutex \<open>dispatchMu\<close> is left out, which only
  allows more interleavings; where waiting for it matters, \<open>dispatch_step\<close> restricts these steps.
\<close>

record 'j system =
  sys_ex :: "'j Executor"
  sys_answers :: "answer list"
  sys_waiting :: bool
  sys_failed :: "go_error list"
  sys_started :: "nat list"

definition queue_room :: nat where
  "queue_room = 1025"

inductive system_step :: "unicode \<Rightarrow> env \<Rightarrow> 'j journal_ops \<Rightarrow> 'j system \<Rightarrow> 'j system \<Rightarrow> bool" for U E J where
  client: "Execute U E J cmd (sys_ex s) = Some (r, e) \<Longrightarrow> length (writeQueue e) \<le> queue_room \<Longrightarrow>
    system_step U E J s (s\<lparr>sys_ex := e\<rparr>)"
| expire: "ActiveExpire E J (sys_ex s) = (n, e) \<Longrightarrow> system_step U E J s (s\<lparr>sys_ex := e\<rparr>)"
| commit: "dispatching (sys_ex s) \<Longrightarrow>
    writeQueue (sys_ex s) = map (\<lambda>(i, cmd). MutationRequest i cmd) batch @ rest \<Longrightarrow>
    0 < length batch \<Longrightarrow> length batch \<le> 64 \<Longrightarrow>
    commitMutationBatch U E J batch ((sys_ex s)\<lparr>writeQueue := rest\<rparr>) = Some (answers, e) \<Longrightarrow>
    system_step U E J s (s\<lparr>sys_ex := e, sys_answers := sys_answers s @ answers\<rparr>)"
| rewrite: "dispatching (sys_ex s) \<Longrightarrow> writeQueue (sys_ex s) = RewriteRequest i # rest \<Longrightarrow>
    startAOFRewriteNow E J ((sys_ex s)\<lparr>writeQueue := rest\<rparr>) = (r, e) \<Longrightarrow>
    system_step U E J s (s\<lparr>sys_ex := e, sys_waiting := sys_waiting s \<or> r = Inr True,
      sys_failed := sys_failed s @ (case r of Inl err \<Rightarrow> [err] | Inr _ \<Rightarrow> []), sys_started := sys_started s @ [i]\<rparr>)"
| idle: "dispatching (sys_ex s) \<Longrightarrow> writeQueue (sys_ex s) = [] \<Longrightarrow>
    system_step U E J s (s\<lparr>sys_ex := (sys_ex s)\<lparr>dispatching := False\<rparr>\<rparr>)"
| finish: "sys_waiting s \<Longrightarrow> Async J = Some rw \<Longrightarrow> ex_journal (sys_ex s) = Some j \<Longrightarrow> rewrite_ready rw j = Some msg \<Longrightarrow>
    system_step U E J s (s\<lparr>sys_ex := finishAOFRewrite rw msg j (sys_ex s), sys_waiting := False\<rparr>)"
| report: "sys_failed s = err # errs \<Longrightarrow>
    system_step U E J s (s\<lparr>sys_ex := setRewriteResult ''failed'' (Some err) (sys_ex s), sys_failed := errs\<rparr>)"

end
