(* ===== verification/Bufio.thy ===== *)
theory Bufio
  imports RespCorrect
begin

text \<open>
  The buffered writer \<open>bufio.Writer\<close> the sources use, over any underlying writer, and what
  it promises its users. A \<open>sink\<close> writes all bytes or reports how many it wrote before it
  failed. The locale \<open>byte_sink\<close> is the contract of an underlying writer; inside it the
  buffered writer is shown to pass on exactly the bytes it was given. The locale
  \<open>byte_writer\<close> is the contract the encoder relies on.
\<close>

type_synonym 'u sink = "string \<Rightarrow> 'u \<Rightarrow> (nat \<times> go_error) option \<times> 'u"

record 'u bufw =
  bw_out :: 'u
  bw_buf :: string
  bw_size :: nat
  bw_err :: "go_error option"

definition NewWriterSize :: "'u \<Rightarrow> nat \<Rightarrow> 'u bufw" where
  "NewWriterSize u n = \<lparr>bw_out = u, bw_buf = [], bw_size = n, bw_err = None\<rparr>"

definition Flush :: "'u sink \<Rightarrow> 'u bufw \<Rightarrow> go_error option \<times> 'u bufw" where
  "Flush wr b =
     (case bw_err b of
        Some err \<Rightarrow> (Some err, b)
      | None \<Rightarrow>
          if bw_buf b = [] then (None, b)
          else case wr (bw_buf b) (bw_out b) of
                 (None, u) \<Rightarrow> (None, b\<lparr>bw_out := u, bw_buf := []\<rparr>)
               | (Some (n, err), u) \<Rightarrow>
                   (Some err, b\<lparr>bw_out := u, bw_buf := drop n (bw_buf b), bw_err := Some err\<rparr>))"

lemma Flush_buf:
  "bw_err b = None \<Longrightarrow> bw_err (snd (Flush wr b)) = None \<Longrightarrow> bw_buf (snd (Flush wr b)) = []"
  by (auto simp: Flush_def split: option.splits prod.splits)

function bufio_write :: "'u sink \<Rightarrow> string \<Rightarrow> 'u bufw \<Rightarrow> go_error option \<times> 'u bufw" where
  "bufio_write wr p b =
     (let available = bw_size b - length (bw_buf b)
      in if length p > available \<and> bw_err b = None then
           if bw_buf b = [] then
             (case wr p (bw_out b) of
                (None, u) \<Rightarrow> (None, b\<lparr>bw_out := u\<rparr>)
              | (Some (n, err), u) \<Rightarrow> (Some err, b\<lparr>bw_out := u, bw_err := Some err\<rparr>))
           else bufio_write wr (drop available p) (snd (Flush wr (b\<lparr>bw_buf := bw_buf b @ take available p\<rparr>)))
         else case bw_err b of
                Some err \<Rightarrow> (Some err, b)
              | None \<Rightarrow> (None, b\<lparr>bw_buf := bw_buf b @ p\<rparr>))"
  by pat_completeness auto
termination
proof (relation "measure (\<lambda>(wr, p, b). 2 * length p + (if bw_err b = None \<and> bw_buf b \<noteq> [] then 1 else 0))", goal_cases)
  case (2 wr p b a)
  then show ?case
    using Flush_buf[of "b\<lparr>bw_buf := bw_buf b @ take a p\<rparr>" wr] by (cases "a = 0") auto
qed auto

declare bufio_write.simps [simp del]

text \<open>A property of single writes that is reflexive and transitive holds of buffered writes.\<close>

lemma Flush_related:
  assumes "\<And>u. R u u" "\<And>p u. R u (snd (wr p u))"
  shows "R (bw_out w) (bw_out (snd (Flush wr w)))"
  using assms(1) assms(2)[of "bw_out w" "bw_buf w"] by (auto simp: Flush_def split: option.splits prod.splits)

lemma bufio_write_related:
  assumes "\<And>u. R u u" "\<And>u v x. R u v \<Longrightarrow> R v x \<Longrightarrow> R u x" "\<And>p u. R u (snd (wr p u))"
  shows "R (bw_out w) (bw_out (snd (bufio_write wr p w)))"
  using assms(3)
proof (induction wr p w rule: bufio_write.induct)
  case (1 wr p w)
  let ?a = "bw_size w - length (bw_buf w)"
  let ?w = "w\<lparr>bw_buf := bw_buf w @ take ?a p\<rparr>"
  consider (full) "length p > ?a \<and> bw_err w = None" "bw_buf w \<noteq> []" | (direct) "length p > ?a \<and> bw_err w = None" "bw_buf w = []"
    | (fits) "\<not> (length p > ?a \<and> bw_err w = None)" by blast
  then show ?case
  proof cases
    case full
    have "R (bw_out (snd (Flush wr ?w))) (bw_out (snd (bufio_write wr (drop ?a p) (snd (Flush wr ?w)))))"
      by (rule 1(1)[OF refl full 1(2)])
    moreover have "R (bw_out w) (bw_out (snd (Flush wr ?w)))" using Flush_related[of R wr ?w, OF assms(1) 1(2)] by simp
    moreover have "bufio_write wr p w = bufio_write wr (drop ?a p) (snd (Flush wr ?w))"
      unfolding bufio_write.simps[of wr p w] Let_def using full by (simp only: if_True if_False simp_thms)
    ultimately show ?thesis using assms(2) by (simp only:)
  next
    case direct
    then show ?thesis
      unfolding bufio_write.simps[of wr p w] Let_def using 1(2)[of "bw_out w" p]
      by (cases "wr p (bw_out w)") (auto split: option.splits)
  next
    case fits
    have "bw_out (snd (bufio_write wr p w)) = bw_out w"
      unfolding bufio_write.simps[of wr p w] Let_def if_not_P[OF fits] by (cases "bw_err w") simp_all
    then show ?thesis using assms(1) by simp
  qed
qed

locale byte_sink =
  fixes wr :: "'u sink"
    and ok :: "'u \<Rightarrow> bool"
    and content :: "'u \<Rightarrow> string"
    and refuses :: "string \<Rightarrow> bool"
  assumes wr_all: "ok u \<Longrightarrow> wr p u = (None, u') \<Longrightarrow> ok u' \<and> content u' = content u @ p"
    and wr_part: "ok u \<Longrightarrow> wr p u = (Some (n, err), u') \<Longrightarrow>
      ok u' \<and> content u' = content u @ take n p \<and> refuses (content u @ p)"
    and refuses_more: "refuses t \<Longrightarrow> refuses (t @ s)"
begin

text \<open>The writer holds the bytes written so far, or failed on a prefix of them.\<close>

definition holds :: "string \<Rightarrow> 'u bufw \<Rightarrow> bool" where
  "holds t b \<longleftrightarrow> ok (bw_out b) \<and> bw_err b = None \<and> content (bw_out b) @ bw_buf b = t"

definition broken :: "string \<Rightarrow> go_error \<Rightarrow> 'u bufw \<Rightarrow> bool" where
  "broken t err b \<longleftrightarrow> ok (bw_out b) \<and> bw_err b = Some err \<and> (\<exists>r. t = content (bw_out b) @ r) \<and> refuses t"

lemma broken_more: "broken t err b \<Longrightarrow> broken (t @ s) err b"
  by (auto simp: broken_def refuses_more)

lemma part_prefix: "\<exists>r. c @ p = (c @ take n p) @ r"
  by (metis append.assoc append_take_drop_id)

lemma flush_holds:
  assumes "holds t b" "Flush wr b = (None, b')"
  shows "holds t b'" "bw_buf b' = []" "content (bw_out b') = t"
  using assms wr_all[of "bw_out b" "bw_buf b"]
  by (auto simp: Flush_def holds_def split: option.splits prod.splits if_splits)

lemma flush_broken:
  assumes "holds t b" "Flush wr b = (Some err, b')"
  shows "broken t err b'"
proof -
  from assms obtain n u where "wr (bw_buf b) (bw_out b) = (Some (n, err), u)"
    "b' = b\<lparr>bw_out := u, bw_buf := drop n (bw_buf b), bw_err := Some err\<rparr>" "ok (bw_out b)" "t = content (bw_out b) @ bw_buf b"
    by (auto simp: Flush_def holds_def split: option.splits prod.splits if_splits)
  with wr_part[of "bw_out b" "bw_buf b" n err u] part_prefix show ?thesis by (simp add: broken_def)
qed

lemma write_broken: "broken t err b \<Longrightarrow> bufio_write wr p b = (Some err, b)"
  by (subst bufio_write.simps) (simp add: broken_def)

definition written :: "string \<Rightarrow> go_error option \<times> 'u bufw \<Rightarrow> bool" where
  "written t r = (case r of (None, b) \<Rightarrow> holds t b | (Some err, b) \<Rightarrow> broken t err b)"

lemma write_written:
  assumes "holds t b"
  shows "written (t @ p) (bufio_write wr p b)"
  using assms
proof (induction "2 * length p + (if bw_buf b \<noteq> [] then 1 else 0)" arbitrary: t p b rule: less_induct)
  case less
  let ?a = "bw_size b - length (bw_buf b)"
  let ?b = "b\<lparr>bw_buf := bw_buf b @ take ?a p\<rparr>"
  have b: "ok (bw_out b)" "bw_err b = None" "content (bw_out b) @ bw_buf b = t"
    using less.prems by (auto simp: holds_def)
  consider "\<not> length p > ?a" | "length p > ?a" "bw_buf b = []" | "length p > ?a" "bw_buf b \<noteq> []" by blast
  then show ?case
  proof cases
    case 1
    then show ?thesis using b by (subst bufio_write.simps) (simp add: written_def holds_def flip: b(3))
  next
    case 2
    obtain r u where w: "wr p (bw_out b) = (r, u)" by fastforce
    with 2 b have e: "bufio_write wr p b = (case r of None \<Rightarrow> (None, b\<lparr>bw_out := u\<rparr>)
        | Some (n, err) \<Rightarrow> (Some err, b\<lparr>bw_out := u, bw_err := Some err\<rparr>))"
      by (subst bufio_write.simps) (simp split: option.splits prod.splits)
    show ?thesis
    proof (cases r)
      case None
      with w wr_all[OF b(1), of p u] 2 b show ?thesis by (simp add: e written_def holds_def)
    next
      case (Some x)
      obtain n err where x: "x = (n, err)" by fastforce
      have "ok u" "content u = t @ take n p" "refuses (t @ p)"
        using wr_part[OF b(1), of p n err u] w 2 b(3) by (auto simp: Some x)
      with part_prefix[of t p n] show ?thesis by (simp add: e Some x written_def broken_def)
    qed
  next
    case 3
    obtain r b2 where f: "Flush wr ?b = (r, b2)" by fastforce
    have e: "bufio_write wr p b = bufio_write wr (drop ?a p) b2"
      using 3 b(2) f by (subst bufio_write.simps) simp
    have h: "holds (t @ take ?a p) ?b" using b by (auto simp: holds_def)
    have t: "(t @ take ?a p) @ drop ?a p = t @ p" by simp
    show ?thesis
    proof (cases r)
      case None
      note fl = flush_holds[OF h f[unfolded None]]
      have "written ((t @ take ?a p) @ drop ?a p) (bufio_write wr (drop ?a p) b2)"
        by (rule less.hyps[OF _ fl(1)]) (use 3 fl(2) in auto)
      then show ?thesis unfolding t e .
    next
      case (Some err)
      note br = flush_broken[OF h f[unfolded Some]]
      from broken_more[OF br, of "drop ?a p"] write_broken[OF br] show ?thesis
        unfolding t e by (simp add: written_def)
    qed
  qed
qed

end

text \<open>What the encoder relies on.\<close>

locale byte_writer =
  fixes put_bytes :: "('w, 'e) writer"
    and good :: "string \<Rightarrow> 'w \<Rightarrow> bool"
    and bad :: "string \<Rightarrow> 'e \<Rightarrow> 'w \<Rightarrow> bool"
  assumes write_good: "good t w \<Longrightarrow> put_bytes s w = (None, w') \<Longrightarrow> good (t @ s) w'"
    and write_bad: "good t w \<Longrightarrow> put_bytes s w = (Some e, w') \<Longrightarrow> bad (t @ s) e w'"
    and bad_more: "bad t e w \<Longrightarrow> bad (t @ s) e w"
begin

definition encoded :: "string \<Rightarrow> 'e encode_error option \<times> 'w \<Rightarrow> bool" where
  "encoded t r = (case r of (None, w) \<Rightarrow> good t w | (Some err, w) \<Rightarrow> \<exists>e. err = WriteError e \<and> bad t e w)"

lemma encoded_Fprintf: "good t w \<Longrightarrow> encoded (t @ s) (Fprintf put_bytes s w)"
  using write_good[of t w s] write_bad[of t w s]
  by (cases "put_bytes s w") (auto simp: encoded_def Fprintf_def split: option.splits)

lemma encoded_more: "encoded t (Some err, w) \<Longrightarrow> encoded (t @ s) (Some err, w)"
  by (auto simp: encoded_def bad_more)

lemma encoded_elements:
  assumes "\<forall>v \<in> set vs. \<forall>t w. good t w \<longrightarrow> encoded (t @ encoding v) (Encode put_bytes v w)" "good t w"
  shows "encoded (t @ concat (map encoding vs)) (encodeElements put_bytes vs w)"
  using assms
proof (induction vs arbitrary: t w)
  case Nil
  then show ?case by (simp add: encoded_def)
next
  case (Cons v vs)
  then have v: "encoded (t @ encoding v) (Encode put_bytes v w)" by simp
  obtain r w1 where e: "Encode put_bytes v w = (r, w1)" by fastforce
  show ?case
  proof (cases r)
    case None
    with v e have "good (t @ encoding v) w1" by (simp add: encoded_def)
    from Cons.IH[OF _ this] Cons.prems(1) show ?thesis by (simp add: e None)
  next
    case (Some err)
    from encoded_more[OF v[unfolded e Some]] show ?thesis by (simp add: e Some)
  qed
qed

lemma Encode_encoded: "typed v \<Longrightarrow> good t w \<Longrightarrow> encoded (t @ encoding v) (Encode put_bytes v w)"
proof (induction v arbitrary: t w)
  case (Value y null s n vs)
  have els: "encoded (t @ concat (map encoding vs)) (encodeElements put_bytes vs w)"
    if "list_all typed vs" "good t w" for t w
    using Value.IH that by (intro encoded_elements) (auto simp: list_all_iff)
  show ?case
  proof (cases "y = Array")
    case True
    with Value.prems(1) have "list_all typed vs" by auto
    let ?h = "''*'' @ format_int (int (length vs)) @ CRLF"
    have hd: "encoded (t @ ?h) (Fprintf put_bytes ?h w)" by (rule encoded_Fprintf[OF Value.prems(2)])
    obtain r w1 where f: "Fprintf put_bytes ?h w = (r, w1)" by fastforce
    show ?thesis
    proof (cases r)
      case None
      with hd f have "good (t @ ?h) w1" by (simp add: encoded_def)
      from els[OF \<open>list_all typed vs\<close> this] f None True show ?thesis by simp
    next
      case (Some err)
      from encoded_more[OF hd[unfolded f Some], of "concat (map encoding vs)"] f Some True show ?thesis by simp
    qed
  next
    case False
    then show ?thesis
      using Value.prems encoded_Fprintf
      by (auto simp: encodeSimpleString_def encodeError_def encodeInteger_def encodeBulkString_def)
  qed
qed

end

sublocale byte_sink \<subseteq> enc: byte_writer "bufio_write wr" holds broken
proof
  fix t b s e b'
  show "holds t b \<Longrightarrow> bufio_write wr s b = (None, b') \<Longrightarrow> holds (t @ s) b'"
    and "holds t b \<Longrightarrow> bufio_write wr s b = (Some e, b') \<Longrightarrow> broken (t @ s) e b'"
    using write_written[of t b s] by (auto simp: written_def)
  show "broken t e b \<Longrightarrow> broken (t @ s) e b" by (rule broken_more)
qed

end
