(* ===== verification/Aof.thy ===== *)
theory Aof
  imports Executor Bufio
begin

text \<open>
  The append-only file of \<open>internal/aof/aof.go\<close>. An open file is its bytes, the position,
  how many bytes are known to be on disk and the outcome of each system call on it: the
  error of the call and, for a write that fails, how many bytes it wrote before. The
  calls on directories and locks have their own outcomes in the log. The log file is the
  file under the buffered writer \<open>l_writer\<close>. The background snapshot writer of a rewrite
  touches nothing but the temporary file, which no one else uses before the writer has
  reported, so it runs as part of \<open>StartRewrite\<close>.
\<close>

subsection \<open>Files\<close>

record osfile =
  f_data :: string
  f_pos :: nat
  f_synced :: nat
  f_calls :: nat
  f_faults :: "nat \<Rightarrow> nat \<times> go_error option"

definition put_bytes :: "string \<Rightarrow> osfile \<Rightarrow> osfile" where
  "put_bytes p f = f\<lparr>f_data := take (f_pos f) (f_data f) @ p @ drop (f_pos f + length p) (f_data f),
     f_pos := f_pos f + length p\<rparr>"

definition file_write :: "osfile sink" where
  "file_write p f =
     (let (n, err) = f_faults f (f_calls f); f = f\<lparr>f_calls := Suc (f_calls f)\<rparr>
      in case err of
           None \<Rightarrow> (None, put_bytes p f)
         | Some t \<Rightarrow> (Some (n, t), put_bytes (take n p) f))"

definition file_call :: "(osfile \<Rightarrow> osfile) \<Rightarrow> osfile \<Rightarrow> go_error option \<times> osfile" where
  "file_call effect f =
     (let err = snd (f_faults f (f_calls f)); f = f\<lparr>f_calls := Suc (f_calls f)\<rparr>
      in (err, if err = None then effect f else f))"

definition file_sync :: "osfile \<Rightarrow> go_error option \<times> osfile" where
  "file_sync = file_call (\<lambda>f. f\<lparr>f_synced := length (f_data f)\<rparr>)"

definition file_seek :: "nat \<Rightarrow> osfile \<Rightarrow> go_error option \<times> osfile" where
  "file_seek offset = file_call (\<lambda>f. f\<lparr>f_pos := offset\<rparr>)"

definition file_truncate :: "nat \<Rightarrow> osfile \<Rightarrow> go_error option \<times> osfile" where
  "file_truncate offset =
     file_call (\<lambda>f. f\<lparr>f_data := take offset (f_data f), f_synced := min offset (f_synced f)\<rparr>)"

text \<open>\<open>errors.Join\<close>: the texts of the errors that are not nil, one per line.\<close>

definition join_errors :: "go_error option list \<Rightarrow> go_error option" where
  "join_errors errs =
     (case List.map_filter id errs of [] \<Rightarrow> None | t # ts \<Rightarrow> Some (fold (\<lambda>u acc. acc @ [LF] @ u) ts t))"

definition wrapIfError :: "go_error option \<Rightarrow> string \<Rightarrow> go_error option" where
  "wrapIfError err operation = map_option (\<lambda>t. operation @ '': '' @ t) err"

subsection \<open>Records\<close>

definition maxRecordBytes :: nat where
  "maxRecordBytes = 4194304"

definition limited_write :: "string sink" where
  "limited_write p b =
     (if int (length p) > int maxRecordBytes - int (length b)
      then (Some (0, ''snapshot command exceeds AOF record limit of '' @ format_int (int maxRecordBytes) @ '' bytes''), b)
      else (None, b @ p))"

definition command_value :: "Command \<Rightarrow> Value" where
  "command_value cmd = NewArray (NewBulkString (cmd_name cmd) # map NewBulkString (cmd_args cmd))"

definition encode_error_text :: "go_error encode_error \<Rightarrow> go_error" where
  "encode_error_text e = (case e of WriteError t \<Rightarrow> t | UnsupportedType \<Rightarrow> ''unsupported RESP type'')"

definition encode_record :: "Command \<Rightarrow> go_error + string" where
  "encode_record cmd =
     (case Encode (bufio_write limited_write) (command_value cmd) (NewWriterSize [] 4096) of
        (Some err, _) \<Rightarrow> Inl (''encode snapshot command '' @ cmd_name cmd @ '': '' @ encode_error_text err)
      | (None, b) \<Rightarrow>
          (case Flush limited_write b of
             (Some err, _) \<Rightarrow> Inl (''flush encoded snapshot command '' @ cmd_name cmd @ '': '' @ err)
           | (None, b) \<Rightarrow> Inr (bw_out b)))"

definition writeRecord :: "Command \<Rightarrow> osfile bufw \<Rightarrow> go_error option \<times> osfile bufw" where
  "writeRecord cmd w =
     (case encode_record cmd of
        Inl err \<Rightarrow> (Some err, w)
      | Inr bytes \<Rightarrow>
          apfst (map_option (\<lambda>t. ''write snapshot command '' @ cmd_name cmd @ '': '' @ t)) (bufio_write file_write bytes w))"

fun writeRecords :: "Command list \<Rightarrow> osfile bufw \<Rightarrow> go_error option \<times> osfile bufw" where
  "writeRecords [] w = (None, w)"
| "writeRecords (cmd # cmds) w =
     (case writeRecord cmd w of
        (Some err, w) \<Rightarrow> (Some err, w)
      | (None, w) \<Rightarrow> writeRecords cmds w)"

definition snapshot_commands :: "SnapshotEntry \<Rightarrow> Command list" where
  "snapshot_commands entry =
     (case se_kind entry of
        StringKind \<Rightarrow>
          [mk_cmd ''SET'' ([se_key entry, se_value entry] @
             (if IsZero (se_expires entry) then [] else [''PXAT'', format_int (unixMilli (se_expires entry))]))]
      | ListKind \<Rightarrow>
          map (\<lambda>value. mk_cmd ''RPUSH'' [se_key entry, value]) (se_list entry) @
          (if IsZero (se_expires entry) then []
           else [mk_cmd ''PEXPIREAT'' [se_key entry, format_int (unixMilli (se_expires entry))]]))"

definition writeSnapshotEntry :: "SnapshotEntry \<Rightarrow> osfile bufw \<Rightarrow> go_error option \<times> osfile bufw" where
  "writeSnapshotEntry entry = writeRecords (snapshot_commands entry)"

subsection \<open>Canonical commands\<close>

text \<open>The option loop of \<open>canonicalCommand\<close> for \<open>SET\<close>.\<close>

fun canonical_options :: "unicode \<Rightarrow> time \<Rightarrow> string list \<Rightarrow> string list option" where
  "canonical_options U now [] = Some []"
| "canonical_options U now [opt] = None"
| "canonical_options U now (opt # arg # rest) =
     (if ToUpper U opt = ''EX'' then
        case ParseInt arg of
          None \<Rightarrow> None
        | Some sec \<Rightarrow>
            if sec \<le> 0 \<or> sec > maxSeconds then None
            else map_option (\<lambda>r. ''PXAT'' # format_int (unixMilli (now + sec * Second)) # r) (canonical_options U now rest)
      else if ToUpper U opt = ''PX'' then
        case ParseInt arg of
          None \<Rightarrow> None
        | Some ms \<Rightarrow>
            if ms \<le> 0 \<or> ms > maxMilliseconds then None
            else map_option (\<lambda>r. ''PXAT'' # format_int (unixMilli (now + ms * Millisecond)) # r) (canonical_options U now rest)
      else if ToUpper U opt = ''PXAT'' then
        case ParseInt arg of
          None \<Rightarrow> None
        | Some _ \<Rightarrow> map_option (\<lambda>r. opt # arg # r) (canonical_options U now rest)
      else None)"

definition canonicalCommand :: "unicode \<Rightarrow> Command \<Rightarrow> time \<Rightarrow> Command option" where
  "canonicalCommand U cmd now =
     (let args = cmd_args cmd
      in if cmd_name cmd = ''SET'' then
           if length args < 2 then None
           else map_option (\<lambda>opts. mk_cmd ''SET'' (take 2 args @ opts)) (canonical_options U now (drop 2 args))
         else if cmd_name cmd = ''EXPIRE'' then
           if length args \<noteq> 2 then None
           else case ParseInt (args ! 1) of
                  None \<Rightarrow> None
                | Some seconds \<Rightarrow>
                    if seconds > maxSeconds then None
                    else let deadline = (if seconds > 0 then now + seconds * Second else now)
                         in Some (mk_cmd ''PEXPIREAT'' [args ! 0, format_int (unixMilli deadline)])
         else if cmd_name cmd = ''DEL'' then
           if args = [] then None else Some (mk_cmd ''DEL'' args)
         else if \<not> IsMutation (cmd_name cmd) then None
         else Some (mk_cmd (cmd_name cmd) args))"

subsection \<open>The log\<close>

record rewriteJob =
  job_temp :: "osfile bufw"
  job_delta :: "osfile bufw"
  job_ready :: "go_error option"
  job_deltaErr :: "go_error option"

record Log =
  l_writer :: "osfile bufw"
  l_policy :: string
  l_closed :: bool
  l_closing :: bool
  l_failed :: "go_error option"
  l_closeErr :: "go_error option"
  l_rewrite :: "rewriteJob option"
  l_calls :: nat
  l_faults :: "nat \<Rightarrow> go_error option"
  l_files :: nat
  l_newfaults :: "nat \<Rightarrow> nat \<Rightarrow> nat \<times> go_error option"

abbreviation l_file :: "Log \<Rightarrow> osfile" where
  "l_file l \<equiv> bw_out (l_writer l)"

abbreviation set_file :: "osfile \<Rightarrow> Log \<Rightarrow> Log" where
  "set_file f l \<equiv> l\<lparr>l_writer := (l_writer l)\<lparr>bw_out := f\<rparr>\<rparr>"

definition dir_call :: "Log \<Rightarrow> go_error option \<times> Log" where
  "dir_call l = (l_faults l (l_calls l), l\<lparr>l_calls := Suc (l_calls l)\<rparr>)"

definition CreateTemp :: "Log \<Rightarrow> (go_error + osfile) \<times> Log" where
  "CreateTemp l =
     (case dir_call l of
        (Some err, l) \<Rightarrow> (Inl err, l)
      | (None, l) \<Rightarrow>
          (Inr \<lparr>f_data = [], f_pos = 0, f_synced = 0, f_calls = 0, f_faults = l_newfaults l (l_files l)\<rparr>,
           l\<lparr>l_files := Suc (l_files l)\<rparr>))"

subsection \<open>Appending\<close>

definition rollback :: "nat \<Rightarrow> go_error \<Rightarrow> Log \<Rightarrow> go_error \<times> Log" where
  "rollback offset cause l =
     (case file_truncate offset (l_file l) of
        (Some err, f) \<Rightarrow>
          let t = the (join_errors [Some cause, Some (''truncate failed AOF append: '' @ err)])
          in (t, (set_file f l)\<lparr>l_failed := Some t\<rparr>)
      | (None, f) \<Rightarrow>
          (case file_seek offset f of
             (Some err, f) \<Rightarrow>
               let t = the (join_errors [Some cause, Some (''seek after failed AOF append: '' @ err)])
               in (t, (set_file f l)\<lparr>l_failed := Some t\<rparr>)
           | (None, f) \<Rightarrow>
               let l = l\<lparr>l_writer := NewWriterSize f (bw_size (l_writer l))\<rparr>
               in (case file_sync f of
                     (Some err, f) \<Rightarrow>
                       let t = the (join_errors [Some cause, Some (''sync AOF rollback: '' @ err)])
                       in (t, (set_file f l)\<lparr>l_failed := Some t\<rparr>)
                   | (None, f) \<Rightarrow> (cause, (set_file f l)\<lparr>l_failed := Some cause\<rparr>))))"

text \<open>The canonical form of the commands, each with the flag \<open>valid\<close>.\<close>

definition canonical_batch :: "unicode \<Rightarrow> (nat \<Rightarrow> time) \<Rightarrow> Command list \<Rightarrow> (Command \<times> bool) list" where
  "canonical_batch U clk commands =
     map (\<lambda>(i, cmd). case canonicalCommand U cmd (clk i) of Some c \<Rightarrow> (c, True) | None \<Rightarrow> (cmd, False))
       (enumerate 0 commands)"

definition valid_commands :: "(Command \<times> bool) list \<Rightarrow> Command list" where
  "valid_commands persisted = map fst (filter snd persisted)"

definition write_delta :: "Command list \<Rightarrow> Log \<Rightarrow> Log" where
  "write_delta cmds l =
     (case l_rewrite l of
        None \<Rightarrow> l
      | Some job \<Rightarrow>
          if job_deltaErr job \<noteq> None then l
          else let (err, w) = writeRecords cmds (job_delta job)
               in l\<lparr>l_rewrite := Some (job\<lparr>job_delta := w, job_deltaErr := err\<rparr>)\<rparr>)"

text \<open>The tail of \<open>AppendBatch\<close> after the records were written: flush, sync, record in the delta.\<close>

definition finish_batch :: "nat \<Rightarrow> Command list \<Rightarrow> Log \<Rightarrow> go_error option \<times> Log" where
  "finish_batch offset cmds l =
     (case (if cmds = [] then (None, l_writer l) else Flush file_write (l_writer l)) of
        (Some err, w) \<Rightarrow> apfst Some (rollback offset (''append AOF command batch: '' @ err) (l\<lparr>l_writer := w\<rparr>))
      | (None, w) \<Rightarrow>
          let l = l\<lparr>l_writer := w\<rparr>
          in (case (if cmds \<noteq> [] \<and> l_policy l = ''always'' then file_sync (l_file l) else (None, l_file l)) of
                (Some err, f) \<Rightarrow> apfst Some (rollback offset (''sync AOF command batch: '' @ err) (set_file f l))
              | (None, f) \<Rightarrow> (None, write_delta cmds (set_file f l))))"

text \<open>\<open>writeRecords\<close> stops at the first command that fails; its name is in the error.\<close>

fun failing_name :: "Command list \<Rightarrow> osfile bufw \<Rightarrow> string" where
  "failing_name [] w = []"
| "failing_name (cmd # cmds) w =
     (case writeRecord cmd w of (Some err, w) \<Rightarrow> cmd_name cmd | (None, w) \<Rightarrow> failing_name cmds w)"

definition log_AppendBatch ::
  "unicode \<Rightarrow> (nat \<Rightarrow> time) \<Rightarrow> Command list \<Rightarrow> Log \<Rightarrow> (go_error + Command list) \<times> Log"
where
  "log_AppendBatch U clk commands l =
     (let persisted = canonical_batch U clk commands; cmds = valid_commands persisted
      in if l_closed l \<or> l_closing l then (Inl ''AOF is closed'', l)
         else case l_failed l of
           Some t \<Rightarrow> (Inl (''AOF is unhealthy: '' @ t), l)
         | None \<Rightarrow>
             if commands = [] then (Inr (map fst persisted), l)
             else case file_call id (l_file l) of
               (Some err, f) \<Rightarrow> (Inl (''get AOF append offset: '' @ err), (set_file f l)\<lparr>l_failed := Some err\<rparr>)
             | (None, f) \<Rightarrow>
                 let offset = f_pos f; l = set_file f l
                 in (case writeRecords cmds (l_writer l) of
                       (Some err, w) \<Rightarrow>
                         apfst Inl (rollback offset
                           (''encode AOF command '' @ failing_name cmds (l_writer l) @ '': '' @ err) (l\<lparr>l_writer := w\<rparr>))
                     | (None, w) \<Rightarrow>
                         (case finish_batch offset cmds (l\<lparr>l_writer := w\<rparr>) of
                            (Some err, l) \<Rightarrow> (Inl err, l)
                          | (None, l) \<Rightarrow> (Inr (map fst persisted), l))))"

definition log_Append :: "unicode \<Rightarrow> (nat \<Rightarrow> time) \<Rightarrow> Command \<Rightarrow> Log \<Rightarrow> (go_error + Command) \<times> Log" where
  "log_Append U clk cmd l = apfst (map_sum id (\<lambda>results. results ! 0)) (log_AppendBatch U clk [cmd] l)"

definition GroupCommitDelay :: "Log \<Rightarrow> int" where
  "GroupCommitDelay l = (if l_policy l = ''always'' then 250 * 1000 else 0)"

subsection \<open>Rewriting\<close>

definition removeRewriteFile :: "Log \<Rightarrow> go_error option \<times> Log" where
  "removeRewriteFile l = (case dir_call l of (err, l) \<Rightarrow> (if err = Some ''file does not exist'' then None else err, l))"

definition cleanupRewriteLocked :: "bool \<Rightarrow> bool \<Rightarrow> Log \<Rightarrow> go_error option \<times> Log" where
  "cleanupRewriteLocked hasTemp hasDelta l =
     (let (e1, l) = (if hasTemp then dir_call l else (None, l));
          (e2, l) = (if hasTemp then dir_call l else (None, l));
          (e3, l) = (if hasDelta then dir_call l else (None, l));
          (e4, l) = removeRewriteFile l;
          (e5, l) = removeRewriteFile l
      in (join_errors [e1, e2, e3, e4, e5], l))"

text \<open>The snapshot writer: all entries, then a flush; its message on the ready channel.\<close>

fun write_snapshot :: "SnapshotEntry list \<Rightarrow> osfile bufw \<Rightarrow> go_error option \<times> osfile bufw" where
  "write_snapshot [] w = apfst (map_option (\<lambda>t. ''flush AOF rewrite snapshot: '' @ t)) (Flush file_write w)"
| "write_snapshot (entry # entries) w =
     (case writeSnapshotEntry entry w of
        (Some err, w) \<Rightarrow> (Some (''write AOF rewrite snapshot: '' @ err), w)
      | (None, w) \<Rightarrow> write_snapshot entries w)"

text \<open>\<open>cleanupTemp\<close> of \<open>StartRewrite\<close>: the file is closed and removed.\<close>

definition abandon_temp :: "go_error \<Rightarrow> Log \<Rightarrow> go_error option \<times> Log" where
  "abandon_temp err l =
     (let (e1, l) = dir_call l; (e2, l) = dir_call l in (join_errors [Some err, join_errors [e1, e2]], l))"

definition start_job :: "SnapshotEntry list \<Rightarrow> osfile \<Rightarrow> osfile \<Rightarrow> rewriteJob" where
  "start_job entries temp delta =
     (let (msg, w) = write_snapshot entries (NewWriterSize temp 65536)
      in \<lparr>job_temp = w, job_delta = NewWriterSize delta 65536, job_ready = msg, job_deltaErr = None\<rparr>)"

definition log_StartRewrite :: "SnapshotEntry list \<Rightarrow> Log \<Rightarrow> go_error option \<times> Log" where
  "log_StartRewrite entries l =
     (if l_closed l \<or> l_closing l then (Some ''AOF is closed'', l)
      else case l_failed l of
        Some t \<Rightarrow> (Some (''AOF is unhealthy: '' @ t), l)
      | None \<Rightarrow>
          if l_rewrite l \<noteq> None then (Some ''AOF rewrite already in progress'', l)
          else case CreateTemp l of
            (Inl err, l) \<Rightarrow> (Some (''create AOF rewrite file: '' @ err), l)
          | (Inr temp, l) \<Rightarrow>
          (case dir_call l of
            (Some err, l) \<Rightarrow> abandon_temp (''set AOF rewrite file permissions: '' @ err) l
          | (None, l) \<Rightarrow>
          (case dir_call l of
            (Some err, l) \<Rightarrow> abandon_temp (''lock AOF rewrite file: '' @ err) l
          | (None, l) \<Rightarrow>
          (case CreateTemp l of
            (Inl err, l) \<Rightarrow> abandon_temp (''create AOF rewrite delta: '' @ err) (snd (dir_call l))
          | (Inr delta, l) \<Rightarrow>
          (case dir_call l of
            (Some err, l) \<Rightarrow>
              abandon_temp (''set AOF rewrite delta permissions: '' @ err)
                (snd (dir_call (snd (dir_call (snd (dir_call l))))))
          | (None, l) \<Rightarrow> (None, l\<lparr>l_rewrite := Some (start_job entries temp delta)\<rparr>))))))"

definition log_AbortRewrite :: "go_error \<Rightarrow> Log \<Rightarrow> go_error option \<times> Log" where
  "log_AbortRewrite cause l =
     (case l_rewrite l of
        None \<Rightarrow> (None, l)
      | Some job \<Rightarrow>
          let (err, l) = cleanupRewriteLocked True True (l\<lparr>l_rewrite := None\<rparr>)
          in (join_errors [Some cause, err], l))"

text \<open>
  Up to the rename: the delta is appended to the snapshot, which is flushed and synced.
  The new file, or the error.
\<close>

definition assemble :: "rewriteJob \<Rightarrow> go_error + osfile" where
  "assemble job =
     (case Flush file_write (job_delta job) of
        (Some err, _) \<Rightarrow> Inl (''flush AOF rewrite delta: '' @ err)
      | (None, d) \<Rightarrow>
     (case file_seek 0 (bw_out d) of
        (Some err, _) \<Rightarrow> Inl (''seek AOF rewrite delta: '' @ err)
      | (None, d) \<Rightarrow>
     (case snd (f_faults d (f_calls d)) of
        Some err \<Rightarrow> Inl (''append AOF rewrite delta: '' @ err)
      | None \<Rightarrow>
     (case bufio_write file_write (f_data d) (job_temp job) of
        (Some err, _) \<Rightarrow> Inl (''append AOF rewrite delta: '' @ err)
      | (None, w) \<Rightarrow>
     (case Flush file_write w of
        (Some err, _) \<Rightarrow> Inl (''flush completed AOF rewrite: '' @ err)
      | (None, w) \<Rightarrow>
     (case file_sync (bw_out w) of
        (Some err, _) \<Rightarrow> Inl (''sync completed AOF rewrite: '' @ err)
      | (None, f) \<Rightarrow> Inr f))))))"

text \<open>After the rename: the new file is the log; what is left is to sync and to tidy up.\<close>

definition install :: "osfile \<Rightarrow> Log \<Rightarrow> go_error option \<times> Log" where
  "install f l =
     (let l = l\<lparr>l_writer := NewWriterSize f 4096\<rparr>;
          (directorySyncErr, l) = dir_call l;
          l = (case directorySyncErr of
                 Some t \<Rightarrow> l\<lparr>l_failed := Some (''sync AOF directory after replacement: '' @ t)\<rparr>
               | None \<Rightarrow> l);
          (unlockErr, l) = dir_call l;
          (closeErr, l) = dir_call l;
          (deltaCloseErr, l) = dir_call l;
          (deltaRemoveErr, l) = dir_call l
      in (join_errors
            [wrapIfError directorySyncErr ''sync AOF directory after replacement'',
             wrapIfError unlockErr ''unlock replaced AOF'',
             wrapIfError closeErr ''close replaced AOF'',
             wrapIfError deltaCloseErr ''close AOF rewrite delta'',
             wrapIfError deltaRemoveErr ''remove AOF rewrite delta''], l))"

text \<open>The deferred function: an error also cleans up; the job is over in any case.\<close>

definition end_rewrite :: "bool \<Rightarrow> go_error option \<times> Log \<Rightarrow> go_error option \<times> Log" where
  "end_rewrite installed r =
     (case r of
        (None, l) \<Rightarrow> (None, l\<lparr>l_rewrite := None\<rparr>)
      | (Some err, l) \<Rightarrow>
          let (err', l) = cleanupRewriteLocked (\<not> installed) (\<not> installed) l
          in (join_errors [Some err, err'], l\<lparr>l_rewrite := None\<rparr>))"

definition log_CompleteRewrite :: "Log \<Rightarrow> go_error option \<times> Log" where
  "log_CompleteRewrite l =
     (case l_rewrite l of
        None \<Rightarrow> (Some ''AOF rewrite is not active'', l)
      | Some job \<Rightarrow>
          if l_closed l then end_rewrite False (Some ''AOF is closed'', l)
          else case l_failed l of
            Some t \<Rightarrow> end_rewrite False (Some (''AOF is unhealthy: '' @ t), l)
          | None \<Rightarrow>
          (case job_deltaErr job of
            Some t \<Rightarrow> end_rewrite False (Some (''record AOF rewrite delta: '' @ t), l)
          | None \<Rightarrow>
          (case Flush file_write (l_writer l) of
            (Some err, w) \<Rightarrow>
              let t = ''flush current AOF before replacement: '' @ err
              in end_rewrite False (Some t, l\<lparr>l_writer := w, l_failed := Some t\<rparr>)
          | (None, w) \<Rightarrow>
              let l = l\<lparr>l_writer := w\<rparr>
              in (case assemble job of
                    Inl err \<Rightarrow> end_rewrite False (Some err, l)
                  | Inr f \<Rightarrow>
                      (case dir_call l of
                         (Some err, l) \<Rightarrow> end_rewrite False (Some (''atomically replace AOF: '' @ err), l)
                       | (None, l) \<Rightarrow> end_rewrite True (install f l))))))"

definition log_Rewrite :: "(nat \<Rightarrow> time) \<Rightarrow> (nat \<Rightarrow> key list) \<Rightarrow> Store \<Rightarrow> Log \<Rightarrow> go_error option \<times> Log" where
  "log_Rewrite clk order s l =
     (case SnapshotEntries (clk 0) order s of
        (Some _, _) \<Rightarrow> (Some ''snapshot'', l)
      | (None, entries) \<Rightarrow>
          (case log_StartRewrite entries l of
             (Some err, l) \<Rightarrow> (Some err, l)
           | (None, l) \<Rightarrow>
               (case l_rewrite l of
                  None \<Rightarrow> (None, l)
                | Some job \<Rightarrow>
                    (case job_ready job of
                       Some err \<Rightarrow> log_AbortRewrite err l
                     | None \<Rightarrow> log_CompleteRewrite l))))"

text \<open>The log as a journal of the executor.\<close>

definition log_ops :: "unicode \<Rightarrow> Log journal_ops" where
  "log_ops U = \<lparr>Append = log_Append U, AppendBatch = Some (log_AppendBatch U), Rewrite = Some log_Rewrite,
     Async = Some \<lparr>StartRewrite = log_StartRewrite, rewrite_ready = (\<lambda>l. map_option job_ready (l_rewrite l)),
       CompleteRewrite = log_CompleteRewrite, AbortRewrite = log_AbortRewrite\<rparr>\<rparr>"

subsection \<open>Closing and periodic syncing\<close>

text \<open>One tick of \<open>syncLoop\<close>.\<close>

definition sync_tick :: "Log \<Rightarrow> Log" where
  "sync_tick l =
     (if \<not> l_closed l \<and> l_failed l = None
      then let (err, f) = file_sync (l_file l) in (set_file f l)\<lparr>l_failed := err\<rparr>
      else l)"

text \<open>\<open>Close\<close>, once the rewrite in progress has ended.\<close>

definition log_Close :: "Log \<Rightarrow> go_error option \<times> Log" where
  "log_Close l =
     (if l_closed l then (l_closeErr l, l)
      else let l = l\<lparr>l_closing := True, l_closed := True\<rparr>;
               (err, w) = Flush file_write (l_writer l);
               l = l\<lparr>l_writer := w\<rparr>;
               (syncErr, f) = (if err = None then file_sync (l_file l) else (None, l_file l));
               l = set_file f l;
               (unlockErr, l) = dir_call l;
               (closeErr, l) = dir_call l;
               e = join_errors [join_errors [join_errors [l_failed l,
                     (case err of Some t \<Rightarrow> Some (''flush AOF: '' @ t)
                      | None \<Rightarrow> wrapIfError syncErr ''sync AOF on close'')],
                     wrapIfError unlockErr ''unlock AOF''], wrapIfError closeErr ''close AOF'']
           in (e, l\<lparr>l_closeErr := e\<rparr>))"

subsection \<open>Recovery\<close>

datatype replay_error =
    SeekFailed go_error
  | TruncateFailed go_error
  | DecodeFailed nat decode_error
  | NoProgress nat
  | ParseFailed nat string
  | NotMutation nat string
  | ReplayFailed nat go_error

text \<open>
  The loop of \<open>replay\<close>. The decoder's remaining input gives the logical offset; at the head
  of the loop that offset is \<open>goodOffset\<close>. The result is an error or, if an incomplete
  record has to be cut off, the offset to truncate to. \<open>None\<close> is a call of the executor
  that does not return.
\<close>

fun is_eof :: "decode_error \<Rightarrow> bool" where
  "is_eof (IO err) \<longleftrightarrow> err = EOF \<or> err = ErrUnexpectedEOF"
| "is_eof (InlineError err) \<longleftrightarrow> is_eof err"
| "is_eof _ \<longleftrightarrow> False"

text \<open>The executor of a replay has no journal, whose operations are never used.\<close>

definition no_journal :: "unit journal_ops" where
  "no_journal = \<lparr>Append = (\<lambda>clk cmd j. (Inr cmd, j)), AppendBatch = None, Rewrite = None, Async = None\<rparr>"

function replay_loop ::
  "unicode \<Rightarrow> env \<Rightarrow> nat \<Rightarrow> Decoder \<Rightarrow> unit Executor \<Rightarrow> ((replay_error + nat option) \<times> unit Executor) option"
where
  "replay_loop U E len d e =
     (let goodOffset = len - length (d_input d); (r, d') = Decode U d; offset = len - length (d_input d')
      in case r of
           Inl err \<Rightarrow>
             if is_eof err then Some (Inr (if offset = goodOffset then None else Some goodOffset), e)
             else Some (Inl (DecodeFailed goodOffset err), e)
         | Inr val \<Rightarrow>
             if offset \<le> goodOffset then Some (Inl (NoProgress goodOffset), e)
             else case Parse U val of
               Inl err \<Rightarrow> Some (Inl (ParseFailed goodOffset err), e)
             | Inr parsed \<Rightarrow>
                 if \<not> IsMutation (cmd_name parsed) then Some (Inl (NotMutation goodOffset (cmd_name parsed)), e)
                 else (case Execute U E no_journal parsed e of
                         None \<Rightarrow> None
                       | Some (Waiting i, e) \<Rightarrow> None
                       | Some (Returned (Inl err), e) \<Rightarrow> Some (Inl (ReplayFailed goodOffset err), e)
                       | Some (Returned (Inr v), e) \<Rightarrow> replay_loop U E len d' e))"
  by pat_completeness auto
termination
  by (relation "measure (\<lambda>(U, E, len, d, e). length (d_input d))") (auto split: if_splits)

declare replay_loop.simps [simp del]

text \<open>\<open>replay\<close> on an open file: \<open>eof\<close> is what reading past its last byte reports.\<close>

definition replay ::
  "unicode \<Rightarrow> env \<Rightarrow> io_error \<Rightarrow> osfile \<Rightarrow> Store \<Rightarrow> ((replay_error option \<times> osfile) \<times> Store) option"
where
  "replay U E eof f store =
     (case file_seek 0 f of
        (Some err, f) \<Rightarrow> Some ((Some (SeekFailed err), f), store)
      | (None, f) \<Rightarrow>
          (case replay_loop U E (length (f_data f)) (NewDecoderWithLimit (f_data f) eof 4096 (int maxRecordBytes))
                  (NewExecutor store) of
             None \<Rightarrow> None
           | Some (Inl err, e) \<Rightarrow> Some ((Some err, f), ex_store e)
           | Some (Inr None, e) \<Rightarrow> Some ((None, f), ex_store e)
           | Some (Inr (Some goodOffset), e) \<Rightarrow>
               (case file_truncate goodOffset f of
                  (Some err, f) \<Rightarrow> Some ((Some (TruncateFailed err), f), ex_store e)
                | (None, f) \<Rightarrow> Some ((None, f), ex_store e))))"

text \<open>
  \<open>Open\<close>: the argument checks, then recovery and the log at the end of the file. The
  calls on the path and the lock report the errors \<open>dir\<close> in the order they are made;
  \<open>existing\<close> is the file, if there is one.
\<close>

datatype open_error = OpenError go_error | RecoverError replay_error "go_error option"

definition new_log :: "string \<Rightarrow> osfile \<Rightarrow> (nat \<Rightarrow> go_error option) \<Rightarrow> (nat \<Rightarrow> nat \<Rightarrow> nat \<times> go_error option) \<Rightarrow> Log" where
  "new_log policy f dir newfaults = \<lparr>l_writer = NewWriterSize f 4096, l_policy = policy, l_closed = False, l_closing = False,
     l_failed = None, l_closeErr = None, l_rewrite = None, l_calls = 0, l_faults = dir, l_files = 0, l_newfaults = newfaults\<rparr>"

definition Open ::
  "unicode \<Rightarrow> env \<Rightarrow> string \<Rightarrow> string \<Rightarrow> osfile option \<Rightarrow> io_error \<Rightarrow> (nat \<Rightarrow> go_error option) \<Rightarrow>
   (nat \<Rightarrow> nat \<Rightarrow> nat \<times> go_error option) \<Rightarrow> Store \<Rightarrow> ((open_error + Log) \<times> Store) option"
where
  "Open U E path policy existing eof dir newfaults store =
     (if path = [] then Some (Inl (OpenError ''AOF path must not be empty''), store)
      else if policy \<notin> {''always'', ''everysec'', ''no''}
      then Some (Inl (OpenError (''unsupported AOF sync policy '' @ Quote U policy)), store)
      else case dir 0 of
        Some err \<Rightarrow> Some (Inl (OpenError (''inspect AOF '' @ Quote U path @ '': '' @ err)), store)
      | None \<Rightarrow>
      (case dir 1 of
        Some err \<Rightarrow> Some (Inl (OpenError (''open AOF '' @ Quote U path @ '': '' @ err)), store)
      | None \<Rightarrow>
      (case dir 2 of
        Some err \<Rightarrow>
          Some (Inl (OpenError (''lock AOF '' @ Quote U path @ '' (another process may be using it): '' @ err)), store)
      | None \<Rightarrow>
          let f = (case existing of Some f \<Rightarrow> f
                   | None \<Rightarrow> \<lparr>f_data = [], f_pos = 0, f_synced = 0, f_calls = 0, f_faults = newfaults 0\<rparr>);
              tidy = join_errors [dir 3, dir 4]
          in (case replay U E eof f store of
                None \<Rightarrow> None
              | Some ((Some err, f), store) \<Rightarrow> Some (Inl (RecoverError err tidy), store)
              | Some ((None, f), store) \<Rightarrow>
                  (case file_seek (length (f_data f)) f of
                     (Some err, f) \<Rightarrow>
                       Some (Inl (OpenError (the (join_errors [Some (''seek AOF '' @ Quote U path @ '': '' @ err), tidy]))), store)
                   | (None, f) \<Rightarrow>
                       (case (if existing = None then dir 5 else None) of
                          Some err \<Rightarrow>
                            Some (Inl (OpenError (the (join_errors [Some (''sync AOF directory: '' @ err), tidy]))), store)
                        | None \<Rightarrow>
                            Some (Inr (new_log policy f (\<lambda>n. dir (n + 6)) (\<lambda>n. newfaults (n + 1))), store)))))))"

end
