(* ===== verification/ExecutorCorrect.thy ===== *)
theory ExecutorCorrect
  imports Executor
begin

text \<open>
  Properties of the executor: admission ends and never refuses a command when eviction is
  allowed, every operation returns and keeps the store invariant, a command is applied
  only after the journal accepted it, and queued requests are answered once, in order.
\<close>

subsection \<open>Admission\<close>

definition env_ok :: "env \<Rightarrow> bool" where
  "env_ok E \<longleftrightarrow> (\<forall>i. clock_ok (env_now E i)) \<and> (\<forall>i n m. env_now E i n \<le> env_now E (Suc i) m) \<and>
     (\<forall>i m. finite (dom m) \<longrightarrow> distinct (env_order E i m) \<and> set (env_order E i m) = dom m)"

lemma env_ok_clock: "env_ok E \<Longrightarrow> clock_ok (env_now E i)"
  by (simp add: env_ok_def)

lemma iteration_ok:
  assumes "env_ok E" "store_inv (ex_store e)"
  shows "order_ok (iteration E e) (ex_store e)"
proof -
  have "finite (dom (sh_data (shards (ex_store e) i)))" if "i < numShards" for i
    using assms(2) that by (simp add: store_inv_def base_inv_def shard_inv_def)
  with assms(1) show ?thesis by (simp add: order_ok_def iteration_def env_ok_def)
qed

lemma dom_abs_store: "dom (abs_store s) = dom (lookup s)"
  by (auto simp: abs_store_def)

lemma finite_abs_store:
  assumes "store_inv s"
  shows "finite (dom (abs_store s))"
proof -
  have "dom (lookup s) \<subseteq> (\<Union>i < numShards. dom (sh_data (shards s i)))"
    by (force simp: lookup_def)
  moreover have "finite (dom (sh_data (shards s i)))" if "i < numShards" for i
    using assms that by (simp add: store_inv_def base_inv_def shard_inv_def)
  ultimately show ?thesis
    unfolding dom_abs_store by (meson finite_UN_I finite_lessThan finite_subset lessThan_iff)
qed

lemma empty_store_memory:
  assumes "store_inv s" "abs_store s = Map.empty"
  shows "UsedMemory s = 0"
proof -
  have "sh_data (shards s i) k = None" if "i < numShards" for i k
  proof (rule ccontr)
    assume k: "sh_data (shards s i) k \<noteq> None"
    have "shard_inv i (shards s i)" using assms(1) that by (simp add: store_inv_def base_inv_def)
    with k have "getShardIndex k = i" by (auto simp: shard_inv_def homed_def)
    with k have "lookup s k \<noteq> None" by (simp add: lookup_def)
    with assms(2) show False using dom_abs_store[of s] by auto
  qed
  then have "sh_data (shards s i) = Map.empty" if "i < numShards" for i
    using that by (auto simp: fun_eq_iff)
  then have "total_memory s = 0"
    by (simp add: total_memory_def shard_memory_def data_memory_def)
  with store_inv_UsedMemory[OF assms(1)] show ?thesis by (simp add: wrap64_def)
qed

lemma tick_simps [simp]:
  "ex_store (tick e) = ex_store e" "maxMemory (tick e) = maxMemory e" "evictLRU (tick e) = evictLRU e"
  "ex_journal (tick e) = ex_journal e" "rewriteStatus (tick e) = rewriteStatus e"
  "rewriteError (tick e) = rewriteError e" "dispatching (tick e) = dispatching e"
  "writeQueue (tick e) = writeQueue e" "ex_requests (tick e) = ex_requests e" "ex_calls (tick e) = Suc (ex_calls e)"
  by (simp_all add: tick_def)

text \<open>Everything but the store, the journal and the position in the environment is kept.\<close>

definition same_frame :: "'j Executor \<Rightarrow> 'j Executor \<Rightarrow> bool" where
  "same_frame e e' \<longleftrightarrow>
     maxMemory e' = maxMemory e \<and> evictLRU e' = evictLRU e \<and> (ex_journal e' = None \<longleftrightarrow> ex_journal e = None) \<and>
     rewriteStatus e' = rewriteStatus e \<and> rewriteError e' = rewriteError e \<and> dispatching e' = dispatching e \<and>
     writeQueue e' = writeQueue e \<and> ex_requests e' = ex_requests e \<and> ex_calls e \<le> ex_calls e'"

lemma same_frame_refl [simp]: "same_frame e e"
  by (simp add: same_frame_def)

lemma same_frame_trans: "same_frame e e' \<Longrightarrow> same_frame e' e'' \<Longrightarrow> same_frame e e''"
  by (auto simp: same_frame_def)

lemma persist_eviction_frame:
  assumes "persist_eviction E J k e = (r, e')"
  shows "same_frame e e'" "ex_store e' = ex_store e"
  using assms by (auto simp: persist_eviction_def same_frame_def Let_def split: option.splits prod.splits)

lemma evict_frame: "same_frame e (evict E k e)"
  by (simp add: evict_def same_frame_def)

lemma evict_store:
  assumes "store_inv (ex_store e)"
  shows "store_inv (ex_store (evict E k e))" "abs_store (ex_store (evict E k e)) = (abs_store (ex_store e))(k := None)"
  using Del_refines[OF assms, of "clock E e" k] by (auto simp: evict_def refines_def spec_del_def)

lemma admit_loop_returns:
  assumes "store_inv (ex_store e)"
  shows "\<exists>r e'. admit_loop E J e = Some (r, e') \<and> store_inv (ex_store e') \<and> same_frame e e' \<and>
    (r = Inr True \<longrightarrow> UsedMemory (ex_store e') \<le> maxMemory e) \<and>
    (r = Inr False \<longrightarrow> maxMemory e < UsedMemory (ex_store e') \<and> (evictLRU e \<longrightarrow> abs_store (ex_store e') = Map.empty))"
  using assms
proof (induction "card (dom (abs_store (ex_store e)))" arbitrary: e rule: less_induct)
  case less
  note [simp] = admit_loop.simps[of E J e]
  consider "UsedMemory (ex_store e) \<le> maxMemory e" | "maxMemory e < UsedMemory (ex_store e)" "\<not> evictLRU e"
    | "maxMemory e < UsedMemory (ex_store e)" "evictLRU e" by linarith
  then show ?case
  proof cases
    case 3
    show ?thesis
    proof (cases "LRUVictim (env_rnd E (ex_calls e) 0) (ex_store e)")
      case None
      with LRUVictim_correct(1)[OF less.prems] have "abs_store (ex_store e) = Map.empty"
        using dom_abs_store[of "ex_store e"] by auto
      with 3 None less.prems show ?thesis by simp
    next
      case (Some k)
      obtain err e1 where p: "persist_eviction E J k (tick e) = (err, e1)" by fastforce
      have e1: "same_frame e e1" "ex_store e1 = ex_store e"
        using persist_eviction_frame[OF p] by (auto simp: same_frame_def)
      show ?thesis
      proof (cases err)
        case (Some t)
        with 3 \<open>LRUVictim _ _ = Some k\<close> p e1 less.prems show ?thesis by simp
      next
        case None
        let ?e = "evict E k e1"
        have "abs_store (ex_store e) k \<noteq> None"
          using LRUVictim_correct(2)[OF less.prems Some] dom_abs_store[of "ex_store e"] by (metis domIff)
        then have "card (dom (abs_store (ex_store e)) - {k}) < card (dom (abs_store (ex_store e)))"
          using finite_abs_store[OF less.prems] by (intro card_Diff1_less) auto
        then have "card (dom (abs_store (ex_store ?e))) < card (dom (abs_store (ex_store e)))"
          using evict_store(2)[of e1 E k] less.prems by (simp only: e1(2) dom_fun_upd simp_thms if_True)
        moreover have "store_inv (ex_store ?e)" using evict_store(1) less.prems e1(2) by metis
        ultimately obtain r e' where r: "admit_loop E J ?e = Some (r, e')" "store_inv (ex_store e')" "same_frame ?e e'"
          "r = Inr True \<longrightarrow> UsedMemory (ex_store e') \<le> maxMemory ?e"
          "r = Inr False \<longrightarrow> maxMemory ?e < UsedMemory (ex_store e') \<and> (evictLRU ?e \<longrightarrow> abs_store (ex_store e') = Map.empty)"
          using less.hyps by blast
        have "same_frame e ?e" using same_frame_trans[OF e1(1) evict_frame] .
        with r 3 Some p None show ?thesis using same_frame_trans by (auto simp: same_frame_def)
      qed
    qed
  qed (use less.prems in simp_all)
qed

subsection \<open>Every operation returns and keeps the store invariant\<close>

lemma admitOrReject_returns:
  assumes "store_inv (ex_store e)"
  shows "\<exists>r e'. admitOrReject E J cmd e = Some (r, e') \<and> store_inv (ex_store e') \<and> same_frame e e'"
proof (cases "maxMemory e \<le> 0 \<or> \<not> growsMemory (cmd_name cmd)")
  case False
  obtain r e' where "admit_loop E J e = Some (r, e')" "store_inv (ex_store e')" "same_frame e e'"
    using admit_loop_returns[OF assms, of E J] by blast
  with False show ?thesis by (simp add: admitOrReject_def admit_def)
qed (simp add: admitOrReject_def admit_def assms)

text \<open>An empty store uses no memory, so eviction always makes room.\<close>

lemma admit_with_eviction:
  assumes "store_inv (ex_store e)" "evictLRU e" "admit E J cmd e = Some (r, e')"
  shows "r \<noteq> Inr False"
proof
  assume r: "r = Inr False"
  then have a: "0 < maxMemory e" "admit_loop E J e = Some (Inr False, e')"
    using assms(3) by (auto simp: admit_def split: if_splits)
  with admit_loop_returns[OF assms(1), of E J] assms(2)
  have "store_inv (ex_store e')" "maxMemory e < UsedMemory (ex_store e')" "abs_store (ex_store e') = Map.empty" by auto
  with empty_store_memory a(1) show False by fastforce
qed

lemma apply_command_inv:
  assumes "store_inv (ex_store e)" "env_ok E" "apply_command U E cmd e = (v, e')"
  shows "store_inv (ex_store e')" "same_frame e e'" "ex_journal e' = ex_journal e"
  using assms(3) execute_inv[OF assms(1) env_ok_clock[OF assms(2)], of U _ cmd]
  by (auto simp: apply_command_def same_frame_def Let_def split: prod.splits)

definition frame_inv :: "'j Executor \<Rightarrow> 'j Executor \<Rightarrow> bool" where
  "frame_inv e e' \<longleftrightarrow> store_inv (ex_store e') \<and> same_frame e e'"

lemma run_admitted_returns:
  assumes "store_inv (ex_store e)"
    "\<And>e'. frame_inv e e' \<Longrightarrow> frame_inv e (snd (f e'))"
  shows "\<exists>r e'. run_admitted E J cmd f e = Some (r, e') \<and> frame_inv e e'"
proof -
  obtain r e' where a: "admitOrReject E J cmd e = Some (r, e')" "frame_inv e e'"
    using admitOrReject_returns[OF assms(1), of E J cmd] unfolding frame_inv_def by blast
  with assms(2)[OF a(2)] show ?thesis
    by (cases "f e'") (auto simp: run_admitted_def split: sum.splits option.splits)
qed

lemma persist_and_apply_inv:
  assumes "store_inv (ex_store e)" "env_ok E" "ex_journal e = Some j"
  shows "frame_inv e (snd (persist_and_apply U E J j cmd e))"
proof -
  obtain r j' where a: "Append J (clock E e) cmd j = (r, j')" by fastforce
  let ?e = "(tick e)\<lparr>ex_journal := Some j'\<rparr>"
  have "same_frame e ?e" using assms(3) by (simp add: same_frame_def)
  moreover have "store_inv (ex_store (snd (apply_command U E p ?e)))" "same_frame ?e (snd (apply_command U E p ?e))" for p
    using apply_command_inv[of ?e E U p] assms(1,2) by (auto simp: prod_eq_iff)
  ultimately show ?thesis
    using assms(1) same_frame_trans[of e ?e]
    by (auto simp: persist_and_apply_def a frame_inv_def Let_def split: sum.splits)
qed

lemma frame_invD: "frame_inv e e' \<Longrightarrow> store_inv (ex_store e')" "frame_inv e e' \<Longrightarrow> same_frame e e'"
  by (simp_all add: frame_inv_def)

lemma frame_inv_trans: "same_frame e e' \<Longrightarrow> frame_inv e' e'' \<Longrightarrow> frame_inv e e''"
  using same_frame_trans by (auto simp: frame_inv_def)

lemma frame_inv_chain: "frame_inv e e' \<Longrightarrow> frame_inv e' e'' \<Longrightarrow> frame_inv e e''"
  using same_frame_trans by (auto simp: frame_inv_def)

lemma apply_command_frame:
  "store_inv (ex_store e) \<Longrightarrow> env_ok E \<Longrightarrow> frame_inv e (snd (apply_command U E cmd e))"
  using apply_command_inv[OF _ _ prod.collapse[symmetric], of e E U cmd] by (simp add: frame_inv_def)

lemma admit_batch_returns:
  assumes "store_inv (ex_store e)"
  shows "\<exists>rs e'. admit_batch E J batch e = Some (rs, e') \<and> frame_inv e e' \<and>
    map (\<lambda>(i, cmd, r). (i, cmd)) rs = batch"
  using assms
proof (induction batch arbitrary: e)
  case (Cons b batch)
  obtain i cmd where b: "b = (i, cmd)" by fastforce
  obtain r e1 where a: "admitOrReject E J cmd e = Some (r, e1)" "frame_inv e e1"
    using admitOrReject_returns[OF Cons.prems, of E J cmd] unfolding frame_inv_def by blast
  obtain rs e' where "admit_batch E J batch e1 = Some (rs, e')" "frame_inv e1 e'" "map (\<lambda>(i, cmd, r). (i, cmd)) rs = batch"
    using Cons.IH[OF frame_invD(1)[OF a(2)]] by blast
  with a frame_inv_chain[OF a(2)] show ?case by (simp add: b)
qed (simp add: frame_inv_def)

lemma apply_batch_inv:
  assumes "store_inv (ex_store e)" "env_ok E"
  shows "frame_inv e (snd (apply_batch U E r rs e)) \<and> map fst (fst (apply_batch U E r rs e)) = map fst rs"
  using assms
proof (induction U E r rs e rule: apply_batch.induct)
  case (4 U E persisted i cmd rs e)
  obtain v e1 where a: "apply_command U E (hd persisted) e = (v, e1)" by fastforce
  have e1: "frame_inv e e1" using apply_command_frame[OF 4(2,3), of U "hd persisted"] a by simp
  show ?case using 4(1)[OF a[symmetric] refl frame_invD(1)[OF e1] 4(3)] frame_inv_chain[OF e1] a by simp
qed (auto simp: frame_inv_def)

lemma commitMutationBatch_returns:
  assumes "store_inv (ex_store e)" "env_ok E" "ex_journal e \<noteq> None"
  shows "\<exists>answers e'. commitMutationBatch U E J batch e = Some (answers, e') \<and> frame_inv e e' \<and>
    map fst answers = map fst batch"
proof -
  obtain rs e1 where a: "admit_batch E J batch e = Some (rs, e1)" "frame_inv e e1"
    "map (\<lambda>(i, cmd, r). (i, cmd)) rs = batch"
    using admit_batch_returns[OF assms(1)] by blast
  obtain j where j: "ex_journal e1 = Some j"
    using frame_invD(2)[OF a(2)] assms(3) by (auto simp: same_frame_def)
  obtain r j' where c: "checked_append J (clock E e1) (accepted rs) j = (r, j')" by fastforce
  let ?e = "(tick e1)\<lparr>ex_journal := Some j'\<rparr>"
  have e: "frame_inv e1 ?e" using frame_invD[OF a(2)] j by (simp add: frame_inv_def same_frame_def)
  note b = apply_batch_inv[OF frame_invD(1)[OF e] assms(2), of U r rs]
  have "map fst rs = map fst batch" using a(3) by (auto simp: comp_def split_beta)
  moreover have "commitMutationBatch U E J batch e = Some (apply_batch U E r rs ?e)"
    by (simp add: commitMutationBatch_def a(1) j c)
  moreover obtain answers e' where "apply_batch U E r rs ?e = (answers, e')" by fastforce
  ultimately show ?thesis using b frame_inv_chain[OF a(2) frame_inv_chain[OF e]] by simp
qed

lemma startAOFRewriteNow_store:
  assumes "startAOFRewriteNow E J e = (r, e')"
  shows "ex_store e' = ex_store e" "writeQueue e' = writeQueue e" "dispatching e' = dispatching e"
    "ex_requests e' = ex_requests e" "ex_journal e' = None \<longleftrightarrow> ex_journal e = None"
    "maxMemory e' = maxMemory e" "evictLRU e' = evictLRU e"
  using assms
  by (auto simp: startAOFRewriteNow_def setRewriteResult_def Let_def
      split: option.splits prod.splits if_splits)

lemma Execute_returns:
  assumes "store_inv (ex_store e)" "env_ok E"
  shows "\<exists>r e'. Execute U E J cmd e = Some (r, e') \<and> store_inv (ex_store e')"
proof -
  consider (rewrite) "cmd_name cmd = ''AOFREWRITE''"
    | (journal) "cmd_name cmd \<noteq> ''AOFREWRITE''" "IsMutation (cmd_name cmd)" "ex_journal e \<noteq> None"
    | (direct) "cmd_name cmd \<noteq> ''AOFREWRITE''" "\<not> (IsMutation (cmd_name cmd) \<and> ex_journal e \<noteq> None)" by blast
  then show ?thesis
  proof cases
    case rewrite
    obtain r e' where s: "startAOFRewriteNow E J e = (r, e')" by fastforce
    with rewrite assms(1) startAOFRewriteNow_store(1)[OF s] show ?thesis
      by (auto simp: Execute_def enqueueAOFRewrite_def enqueue_def split: sum.splits)
  next
    case journal
    have "\<exists>r e'. run_admitted E J cmd (\<lambda>e. persist_and_apply U E J (the (ex_journal e)) cmd e) e = Some (r, e') \<and> frame_inv e e'"
    proof (rule run_admitted_returns[OF assms(1)])
      fix e' assume e': "frame_inv e e'"
      then obtain j where "ex_journal e' = Some j" using journal(3) by (auto simp: frame_inv_def same_frame_def)
      with persist_and_apply_inv[OF frame_invD(1)[OF e'] assms(2)] frame_inv_chain[OF e']
      show "frame_inv e (snd (persist_and_apply U E J (the (ex_journal e')) cmd e'))" by simp
    qed
    with journal assms(1) frame_invD(1) show ?thesis
      by (cases "batched J e") (auto simp: Execute_def enqueue_def)
  next
    case direct
    have "\<exists>r e'. run_admitted E J cmd (\<lambda>e. apfst Inr (apply_command U E cmd e)) e = Some (r, e') \<and> frame_inv e e'"
      by (rule run_admitted_returns[OF assms(1)])
        (auto intro: frame_inv_chain apply_command_frame[OF frame_invD(1) assms(2)])
    with direct assms(1) frame_invD(1) show ?thesis by (auto simp: Execute_def)
  qed
qed

subsection \<open>Active expiration with a journal\<close>

lemma journalAndDeleteExpired_removes:
  assumes "store_inv (snd st)" "mono clk" "remove_expired (Some (journalAndDeleteExpired J)) clk ks st = (r, st')"
  shows "store_inv (snd st') \<and> only_expired (clk 22) (abs_store (snd st)) (abs_store (snd st')) \<and>
    (fst st' = None \<longleftrightarrow> fst st = None)"
proof -
  have del: "store_inv (snd (DeleteExpired now xs s))"
    "only_expired (clk 22) (abs_store s) (abs_store (snd (DeleteExpired now xs s)))"
    if "store_inv s" "now \<le> clk 22" for now xs s
    using DeleteExpired_refines[OF that(1) prod.collapse[symmetric], of now xs] that(2)
    by (auto intro: only_expired_mono[OF only_expired_purge])
  have "clk 0 \<le> clk 22" using assms(2) by (simp add: mono_def)
  then show ?thesis
    using assms(1,3) del[of "snd st"]
    by (cases st) (auto simp: remove_expired_def journalAndDeleteExpired_def Let_def split_beta
        split: if_splits option.splits)
qed

interpretation jd: expiry_callback "\<lambda>st. store_inv (snd st)"
  "\<lambda>now st st'. only_expired now (abs_store (snd st)) (abs_store (snd st')) \<and> (fst st' = None \<longleftrightarrow> fst st = None)"
  "Some (journalAndDeleteExpired J)" for J
  by unfold_locales
    (auto simp: journalAndDeleteExpired_removes intro: only_expired_trans only_expired_mono)

lemma ActiveExpire_inv:
  assumes "store_inv (ex_store e)" "env_ok E" "ActiveExpire E J e = (n, e')"
  shows "frame_inv e e'" "only_expired (clock E e 401) (abs_store (ex_store e)) (abs_store (ex_store e'))"
proof -
  have mn: "mono (clock E e)" using env_ok_clock[OF assms(2)] by (simp add: clock_ok_def)
  have "frame_inv e e' \<and> only_expired (clock E e 401) (abs_store (ex_store e)) (abs_store (ex_store e'))"
  proof (cases "ex_journal e")
    case None
    show ?thesis
      using ActiveExpireCycle_refines[OF assms(1) mn prod.collapse[symmetric]] assms(3) None
      by (auto simp: ActiveExpire_def frame_inv_def same_frame_def split_beta)
  next
    case (Some j)
    obtain m j' s where c: "ActiveExpireCycleWith (clock E e) (env_rnd E (ex_calls e))
        (Some (journalAndDeleteExpired J)) (ex_journal e, ex_store e) = (m, j', s)" by (metis surj_pair)
    from jd.cycle[OF mn _ c] assms(1,3) c Some show ?thesis
      by (auto simp: ActiveExpire_def frame_inv_def same_frame_def)
  qed
  then show "frame_inv e e'" "only_expired (clock E e 401) (abs_store (ex_store e)) (abs_store (ex_store e'))" by auto
qed

subsection \<open>The queue\<close>

inductive_cases system_stepE: "system_step U E J s s'"

definition queued_mutations :: "executorRequest list \<Rightarrow> nat list" where
  "queued_mutations q = map request_id (filter is_MutationRequest q)"

definition queued_rewrites :: "executorRequest list \<Rightarrow> nat list" where
  "queued_rewrites q = map request_id (filter (\<lambda>r. \<not> is_MutationRequest r) q)"

lemma queued_simps [simp]:
  "queued_mutations [] = []" "queued_rewrites [] = []"
  "queued_mutations (MutationRequest i c # q) = i # queued_mutations q"
  "queued_mutations (RewriteRequest i # q) = queued_mutations q"
  "queued_rewrites (MutationRequest i c # q) = queued_rewrites q"
  "queued_rewrites (RewriteRequest i # q) = i # queued_rewrites q"
  "queued_mutations (q @ q') = queued_mutations q @ queued_mutations q'"
  "queued_rewrites (q @ q') = queued_rewrites q @ queued_rewrites q'"
  by (simp_all add: queued_mutations_def queued_rewrites_def)

lemma queued_batch [simp]:
  "queued_mutations (map (\<lambda>(i, cmd). MutationRequest i cmd) batch) = map fst batch"
  "queued_rewrites (map (\<lambda>(i, cmd). MutationRequest i cmd) batch) = []"
  by (induction batch) auto

text \<open>
  The requests numbered so far, each answered, started or still queued, and the answers in
  the order of the requests.
\<close>

definition system_inv :: "'j journal_ops \<Rightarrow> 'j system \<Rightarrow> bool" where
  "system_inv J s \<longleftrightarrow>
     (let e = sys_ex s; mut = map fst (sys_answers s) @ queued_mutations (writeQueue e);
          rew = sys_started s @ queued_rewrites (writeQueue e)
      in store_inv (ex_store e) \<and> batched J e \<and> (writeQueue e \<noteq> [] \<longrightarrow> dispatching e) \<and>
         length (writeQueue e) \<le> queue_room \<and> sorted_wrt (<) mut \<and> sorted_wrt (<) rew \<and>
         set mut \<union> set rew = {..<ex_requests e} \<and> set mut \<inter> set rew = {})"

lemma run_admitted_frame:
  assumes "store_inv (ex_store e)" "\<And>e'. frame_inv e e' \<Longrightarrow> frame_inv e (snd (f e'))"
    "run_admitted E J cmd f e = Some (r, e')"
  shows "frame_inv e e'"
  using run_admitted_returns[OF assms(1), of f E J cmd] assms(2,3) by auto

lemma Execute_queue:
  assumes "store_inv (ex_store e)" "env_ok E" "batched J e" "Execute U E J cmd e = (Some (r, e'))"
  obtains (Kept) "store_inv (ex_store e')" "batched J e'" "writeQueue e' = writeQueue e" "ex_requests e' = ex_requests e"
      "dispatching e' = dispatching e"
    | (Queued) q where "store_inv (ex_store e')" "batched J e'" "writeQueue e' = writeQueue e @ [q]" "request_id q = ex_requests e"
      "ex_requests e' = Suc (ex_requests e)" "dispatching e'"
proof -
  have kept: thesis if "frame_inv e e'"
    using that assms(3) by (intro Kept) (auto simp: frame_inv_def same_frame_def batched_def)
  have q: thesis if "e' = enqueue f (e\<lparr>rewriteStatus := a, rewriteError := b\<rparr>)" "\<And>i. request_id (f i) = i" for f a b
    using that assms(1,3) by (intro Queued[of "f (ex_requests e)"]) (auto simp: enqueue_def batched_def)
  have upd: "e = e\<lparr>rewriteStatus := rewriteStatus e, rewriteError := rewriteError e\<rparr>" by simp
  show thesis
  proof (cases "cmd_name cmd = ''AOFREWRITE''")
    case True
    with assms(3,4) consider "e' = e" | "e' = enqueue RewriteRequest (e\<lparr>rewriteStatus := ''queued'', rewriteError := ''''\<rparr>)"
      by (auto simp: Execute_def enqueueAOFRewrite_def split: if_splits)
    then show thesis
    proof cases
      case 1
      with assms(1) kept show thesis by (simp add: frame_inv_def)
    next
      case 2
      then show thesis by (rule q) simp
    qed
  next
    case False
    show thesis
    proof (cases "IsMutation (cmd_name cmd)")
      case True
      then have "e' = enqueue (\<lambda>i. MutationRequest i cmd) e"
        using False assms(3,4) by (auto simp: Execute_def batched_def)
      with upd show thesis by (metis q executorRequest.sel(1))
    next
      case nm: False
      have "run_admitted E J cmd (\<lambda>e. apfst Inr (apply_command U E cmd e)) e = Some (r, e')"
        using False nm assms(4) by (simp add: Execute_def)
      then have "frame_inv e e'"
        by (rule run_admitted_frame[OF assms(1), rotated])
          (auto intro: frame_inv_chain apply_command_frame[OF frame_invD(1) assms(2)])
      then show thesis by (rule kept)
    qed
  qed
qed

lemma system_inv_step:
  assumes "system_step U E J s s'" "system_inv J s" "env_ok E"
  shows "system_inv J s'"
proof -
  let ?e = "sys_ex s"
  have inv: "store_inv (ex_store ?e)" "batched J ?e" using assms(2) by (simp_all add: system_inv_def Let_def)
  from assms(1) show ?thesis
  proof cases
    case (client cmd r e)
    show ?thesis
    proof (cases rule: Execute_queue[OF inv(1) assms(3) inv(2) client(2)])
      case 1
      with assms(2) client show ?thesis by (simp add: system_inv_def Let_def)
    next
      case (2 q)
      with assms(2) client show ?thesis
        by (cases q) (auto simp: system_inv_def Let_def sorted_wrt_append lessThan_Suc)
    qed
  next
    case (expire n e)
    with ActiveExpire_inv(1)[OF inv(1) assms(3) expire(2)] assms(2) show ?thesis
      by (auto simp: system_inv_def Let_def frame_inv_def same_frame_def batched_def)
  next
    case (commit batch rest answers e)
    have "\<exists>answers e'. commitMutationBatch U E J batch (?e\<lparr>writeQueue := rest\<rparr>) = Some (answers, e') \<and>
        frame_inv (?e\<lparr>writeQueue := rest\<rparr>) e' \<and> map fst answers = map fst batch"
      by (rule commitMutationBatch_returns) (use inv assms(3) in \<open>simp_all add: batched_def\<close>)
    with commit assms(2) show ?thesis
      by (auto simp: system_inv_def Let_def frame_inv_def same_frame_def batched_def)
  next
    case (rewrite i rest r e)
    with startAOFRewriteNow_store[OF rewrite(4)] assms(2) show ?thesis
      by (auto simp: system_inv_def Let_def batched_def sorted_wrt_append)
  next
    case idle
    with assms(2) show ?thesis by (auto simp: system_inv_def Let_def batched_def)
  next
    case (finish rw j msg)
    with assms(2) show ?thesis
      by (auto simp: system_inv_def Let_def batched_def finishAOFRewrite_def setRewriteResult_def
          split: option.splits prod.splits)
  next
    case (report err errs)
    with assms(2) show ?thesis by (simp add: system_inv_def Let_def batched_def setRewriteResult_def)
  qed
qed

end
