(* ===== verification/AofCorrect.thy ===== *)
theory AofCorrect
  imports Aof ExecutorCorrect
begin

text \<open>
  What the append-only file guarantees: a record is the encoding of its command, an
  append that succeeds adds exactly the records of the batch, one that fails leaves no
  record that a later append could follow, and recovery applies the complete records in
  order and cuts off an incomplete one.
\<close>

subsection \<open>Writing records\<close>

interpretation lim: byte_sink limited_write "\<lambda>b. length b \<le> maxRecordBytes" "\<lambda>b. b" "\<lambda>t. maxRecordBytes < length t"
  by unfold_locales (auto simp: limited_write_def split: if_splits)

definition at_end :: "osfile \<Rightarrow> bool" where
  "at_end f \<longleftrightarrow> f_pos f = length (f_data f)"

interpretation fil: byte_sink file_write at_end f_data "\<lambda>_. True"
  by unfold_locales
    (auto simp: file_write_def put_bytes_def at_end_def Let_def split: prod.splits option.splits)

definition record_bytes :: "Command \<Rightarrow> string" where
  "record_bytes cmd = encoding (command_value cmd)"

definition records :: "Command list \<Rightarrow> string" where
  "records cmds = concat (map record_bytes cmds)"

lemma records_simps [simp]:
  "records [] = []" "records (c # cs) = record_bytes c @ records cs" "records (cs @ ds) = records cs @ records ds"
  by (simp_all add: records_def)

definition record_fits :: "Command \<Rightarrow> bool" where
  "record_fits cmd \<longleftrightarrow> length (record_bytes cmd) \<le> maxRecordBytes"

lemma typed_command_value: "typed (command_value cmd)"
  by (auto simp: command_value_def new_values list_all_iff)

lemma encode_record_correct:
  "record_fits cmd \<and> encode_record cmd = Inr (record_bytes cmd) \<or> \<not> record_fits cmd \<and> (\<exists>err. encode_record cmd = Inl err)"
proof -
  let ?w = "NewWriterSize [] 4096"
  have "lim.holds [] ?w" by (simp add: lim.holds_def NewWriterSize_def)
  from lim.enc.Encode_encoded[OF typed_command_value this, of cmd]
  have enc: "lim.enc.encoded (record_bytes cmd) (Encode (bufio_write limited_write) (command_value cmd) ?w)"
    by (simp add: record_bytes_def)
  obtain r b where e: "Encode (bufio_write limited_write) (command_value cmd) ?w = (r, b)" by fastforce
  show ?thesis
  proof (cases r)
    case None
    with enc e have h: "lim.holds (record_bytes cmd) b" by (simp add: lim.enc.encoded_def)
    obtain r2 b2 where f: "Flush limited_write b = (r2, b2)" by fastforce
    show ?thesis
    proof (cases r2)
      case None
      from lim.flush_holds[OF h f[unfolded None]] show ?thesis
        using e f \<open>r = None\<close> None by (auto simp: encode_record_def record_fits_def lim.holds_def)
    next
      case (Some err)
      from lim.flush_broken[OF h f[unfolded Some]] show ?thesis
        using e f \<open>r = None\<close> Some by (auto simp: encode_record_def record_fits_def lim.broken_def)
    qed
  next
    case (Some err)
    with enc e show ?thesis
      by (auto simp: encode_record_def record_fits_def lim.enc.encoded_def lim.broken_def)
  qed
qed

lemma encode_record_fits: "record_fits cmd \<Longrightarrow> encode_record cmd = Inr (record_bytes cmd)"
  using encode_record_correct[of cmd] by simp

lemma encode_record_large: "\<not> record_fits cmd \<Longrightarrow> \<exists>err. encode_record cmd = Inl err"
  using encode_record_correct[of cmd] by auto

text \<open>A prefix of the bytes reached the file, all of them if nothing failed.\<close>

definition prefix_written :: "string \<Rightarrow> osfile bufw \<Rightarrow> bool" where
  "prefix_written t w \<longleftrightarrow> at_end (bw_out w) \<and> (\<exists>r. t = f_data (bw_out w) @ r)"

lemma prefix_written_more: "prefix_written t w \<Longrightarrow> prefix_written (t @ s) w"
  by (auto simp: prefix_written_def)

lemma holds_prefix: "fil.holds t w \<Longrightarrow> prefix_written t w"
  by (auto simp: fil.holds_def prefix_written_def)

definition recorded :: "string \<Rightarrow> Command list \<Rightarrow> go_error option \<times> osfile bufw \<Rightarrow> bool" where
  "recorded t cmds r =
     (case r of
        (None, w) \<Rightarrow> fil.holds (t @ records cmds) w \<and> list_all record_fits cmds
      | (Some _, w) \<Rightarrow> prefix_written (t @ records cmds) w)"

lemma writeRecord_recorded:
  assumes "fil.holds t w"
  shows "recorded t [cmd] (writeRecord cmd w)"
proof (cases "record_fits cmd")
  case True
  with fil.write_written[OF assms, of "record_bytes cmd"] show ?thesis
    by (auto simp: writeRecord_def encode_record_fits recorded_def fil.written_def fil.broken_def prefix_written_def
        split: prod.splits option.splits)
next
  case False
  with encode_record_large[OF False] prefix_written_more[OF holds_prefix[OF assms]] show ?thesis
    by (auto simp: writeRecord_def recorded_def)
qed

lemma writeRecords_recorded:
  assumes "fil.holds t w"
  shows "recorded t cmds (writeRecords cmds w)"
  using assms
proof (induction cmds arbitrary: t w)
  case (Cons c cs)
  obtain r w1 where c: "writeRecord c w = (r, w1)" by fastforce
  note rec = writeRecord_recorded[OF Cons.prems, of c, unfolded c]
  show ?case
  proof (cases r)
    case None
    with rec have "fil.holds (t @ record_bytes c) w1" "record_fits c" by (simp_all add: recorded_def)
    with Cons.IH[of "t @ record_bytes c" w1] c None show ?thesis
      by (auto simp: recorded_def split: prod.splits option.splits)
  next
    case (Some err)
    with rec c prefix_written_more show ?thesis by (fastforce simp: recorded_def)
  qed
qed (simp add: recorded_def)

subsection \<open>Appending\<close>

definition log_inv :: "Log \<Rightarrow> bool" where
  "log_inv l \<longleftrightarrow> (l_failed l = None \<longrightarrow> fil.holds (f_data (l_file l)) (l_writer l)) \<and>
     f_synced (l_file l) \<le> length (f_data (l_file l))"

lemma holds_file: "fil.holds t w \<Longrightarrow> bw_buf w = [] \<Longrightarrow> f_data (bw_out w) = t"
  by (simp add: fil.holds_def)

lemma file_call_cases:
  assumes "file_call effect f = (r, f')"
  shows "r = None \<Longrightarrow> f' = effect (f\<lparr>f_calls := Suc (f_calls f)\<rparr>)"
    and "r \<noteq> None \<Longrightarrow> f' = f\<lparr>f_calls := Suc (f_calls f)\<rparr>"
  using assms by (auto simp: file_call_def Let_def split: if_splits)

lemmas file_ops = file_sync_def file_seek_def file_truncate_def

lemma rollback_shape:
  assumes "rollback offset cause l = (t, l')"
  shows "\<exists>w t. l' = l\<lparr>l_writer := w, l_failed := Some t\<rparr> \<and>
    (f_data (bw_out w) = f_data (l_file l) \<and> f_synced (bw_out w) = f_synced (l_file l) \<or>
     f_data (bw_out w) = take offset (f_data (l_file l)) \<and> f_synced (bw_out w) \<le> length (f_data (bw_out w)) \<or>
     f_data (bw_out w) = take offset (f_data (l_file l)) \<and> f_synced (bw_out w) = min offset (f_synced (l_file l)))"
proof -
  obtain r1 f1 where 1: "file_truncate offset (l_file l) = (r1, f1)" by fastforce
  obtain r2 f2 where 2: "file_seek offset f1 = (r2, f2)" by fastforce
  obtain r3 f3 where 3: "file_sync f2 = (r3, f3)" by fastforce
  have t: "r1 = None \<longrightarrow> f_data f1 = take offset (f_data (l_file l)) \<and> f_synced f1 = min offset (f_synced (l_file l))"
    "r1 \<noteq> None \<longrightarrow> f_data f1 = f_data (l_file l) \<and> f_synced f1 = f_synced (l_file l)"
    using file_call_cases[OF 1[unfolded file_truncate_def]] by auto
  have s: "f_data f2 = f_data f1 \<and> f_synced f2 = f_synced f1"
    using file_call_cases[OF 2[unfolded file_seek_def]] by (cases r2) auto
  have y: "f_data f3 = f_data f2 \<and> (f_synced f3 = f_synced f2 \<or> f_synced f3 = length (f_data f2))"
    using file_call_cases[OF 3[unfolded file_sync_def]] by (cases r3) auto
  note run = assms[unfolded rollback_def 1 prod.case]
  show ?thesis
  proof (cases r1)
    case (Some err)
    with run obtain u where "l' = l\<lparr>l_writer := (l_writer l)\<lparr>bw_out := f1\<rparr>, l_failed := Some u\<rparr>" by (auto simp: Let_def)
    with t Some show ?thesis by (intro exI[of _ "(l_writer l)\<lparr>bw_out := f1\<rparr>"] exI[of _ u]) simp
  next
    case None
    note run = run[unfolded None option.case 2 prod.case]
    show ?thesis
    proof (cases r2)
      case (Some err)
      with run obtain u where "l' = l\<lparr>l_writer := (l_writer l)\<lparr>bw_out := f2\<rparr>, l_failed := Some u\<rparr>" by (auto simp: Let_def)
      with t s None show ?thesis by (intro exI[of _ "(l_writer l)\<lparr>bw_out := f2\<rparr>"] exI[of _ u]) simp
    next
      case none2: None
      let ?w = "(NewWriterSize f2 (bw_size (l_writer l)))\<lparr>bw_out := f3\<rparr>"
      obtain u where "l' = l\<lparr>l_writer := ?w, l_failed := Some u\<rparr>"
        using run 3 none2 by (cases r3) (auto simp: Let_def)
      with t s y None show ?thesis by (intro exI[of _ ?w] exI[of _ u]) auto
    qed
  qed
qed

lemma rollback_result:
  assumes "rollback offset cause l = (t, l')"
  shows "l_failed l' \<noteq> None"
    and "f_data (l_file l') = f_data (l_file l) \<or> f_data (l_file l') = take offset (f_data (l_file l))"
    and "f_synced (l_file l) \<le> length (f_data (l_file l)) \<Longrightarrow> f_synced (l_file l') \<le> length (f_data (l_file l'))"
  using rollback_shape[OF assms] by auto

text \<open>Writing only adds bytes; it does not sync.\<close>

definition extends :: "osfile \<Rightarrow> osfile \<Rightarrow> bool" where
  "extends f f' \<longleftrightarrow> f_synced f' = f_synced f \<and> (at_end f \<longrightarrow> at_end f' \<and> (\<exists>x. f_data f' = f_data f @ x))"

lemma extends_refl [simp]: "extends f f"
  by (simp add: extends_def)

lemma extends_trans: "extends f g \<Longrightarrow> extends g h \<Longrightarrow> extends f h"
  by (auto simp: extends_def)

lemma extends_write: "extends f (snd (file_write p f))"
  by (auto simp: extends_def file_write_def put_bytes_def at_end_def Let_def split: prod.splits option.splits)

lemmas Flush_extends = Flush_related[of extends file_write, OF extends_refl extends_write]
lemmas bufio_write_extends = bufio_write_related[of extends file_write, OF extends_refl extends_trans extends_write]

lemma writeRecords_extends: "extends (bw_out w) (bw_out (snd (writeRecords cmds w)))"
proof (induction cmds arbitrary: w)
  case (Cons c cs)
  have "extends (bw_out w) (bw_out (snd (writeRecord c w)))"
    by (simp add: writeRecord_def bufio_write_extends split: sum.splits)
  moreover obtain r w1 where "writeRecord c w = (r, w1)" by fastforce
  ultimately show ?case using Cons[of w1] extends_trans by (auto split: option.splits)
qed simp

text \<open>Bytes that a failed append may leave behind: a part of the batch after the old contents.\<close>

definition partial :: "string \<Rightarrow> string \<Rightarrow> Log \<Rightarrow> bool" where
  "partial old new l \<longleftrightarrow> l_failed l \<noteq> None \<and> f_synced (l_file l) \<le> length (f_data (l_file l)) \<and>
     (\<exists>n. f_data (l_file l) = old @ take n new)"

lemma prefix_take:
  assumes "a @ b = c @ r" "length a \<le> length c"
  shows "\<exists>n. c = a @ take n b"
proof -
  have "take (length c) (a @ b) = c" using assms(1) by simp
  then have "c = a @ take (length c - length a) b" using assms(2) by simp
  then show ?thesis ..
qed

lemma rollback_partial:
  assumes "rollback (length old) cause l = (t, l')" "prefix_written (old @ new) (l_writer l)"
    "length old \<le> length (f_data (l_file l))" "f_synced (l_file l) \<le> length (f_data (l_file l))"
  shows "partial old new l'"
proof -
  obtain n where n: "f_data (l_file l) = old @ take n new"
    using assms(2,3) prefix_take unfolding prefix_written_def by blast
  then have "f_data (l_file l') = old @ take n new \<or> f_data (l_file l') = old @ take 0 new"
    using rollback_result(2)[OF assms(1)] by auto
  with rollback_result(1,3)[OF assms(1)] assms(4) show ?thesis unfolding partial_def by blast
qed

lemma write_delta_simps [simp]:
  "l_writer (write_delta cmds l) = l_writer l" "l_failed (write_delta cmds l) = l_failed l"
  "l_policy (write_delta cmds l) = l_policy l" "l_closed (write_delta cmds l) = l_closed l"
  "l_closing (write_delta cmds l) = l_closing l"
  by (auto simp: write_delta_def Let_def split: option.splits prod.splits)

text \<open>What a successful append did to the file.\<close>

definition appended :: "Command list \<Rightarrow> Log \<Rightarrow> Log \<Rightarrow> bool" where
  "appended cmds l l' \<longleftrightarrow>
     f_data (l_file l') = f_data (l_file l) @ records cmds \<and> list_all record_fits cmds \<and> log_inv l' \<and>
     l_failed l' = None \<and> l_policy l' = l_policy l \<and> l_closed l' = l_closed l \<and> l_closing l' = l_closing l \<and>
     (cmds \<noteq> [] \<and> l_policy l = ''always'' \<longrightarrow> f_synced (l_file l') = length (f_data (l_file l')))"

lemma file_sync_None: "file_sync f = (None, f') \<Longrightarrow> f' = f\<lparr>f_calls := Suc (f_calls f), f_synced := length (f_data f)\<rparr>"
  by (auto simp: file_sync_def file_call_def Let_def split: if_splits)

lemma file_sync_Some: "file_sync f = (Some err, f') \<Longrightarrow> f' = f\<lparr>f_calls := Suc (f_calls f)\<rparr>"
  by (auto simp: file_sync_def file_call_def Let_def split: if_splits)

lemma finish_batch_correct:
  assumes h: "fil.holds (old @ records cmds) (l_writer l)" "list_all record_fits cmds" "l_failed l = None"
    "length old \<le> length (f_data (l_file l))" "f_synced (l_file l) \<le> length (f_data (l_file l))"
    and cmds: "cmds = [] \<Longrightarrow> bw_buf (l_writer l) = []"
    and run: "finish_batch (length old) cmds l = (r, l')"
    and l0: "f_data (l_file l0) = old" "l_policy l0 = l_policy l" "l_closed l0 = l_closed l" "l_closing l0 = l_closing l"
  shows "case r of None \<Rightarrow> appended cmds l0 l' | Some _ \<Rightarrow> partial old (records cmds) l'"
proof -
  let ?fl = "if cmds = [] then (None, l_writer l) else Flush file_write (l_writer l)"
  obtain r1 w where f: "?fl = (r1, w)" by fastforce
  have ext: "extends (l_file l) (bw_out w)" using f Flush_extends[of "l_writer l"] by (auto split: if_splits)
  have "at_end (l_file l)" using h(1) by (simp add: fil.holds_def)
  with ext h(4,5) have len: "length old \<le> length (f_data (bw_out w))" "f_synced (bw_out w) \<le> length (f_data (bw_out w))"
    by (auto simp: extends_def)
  show ?thesis
  proof (cases r1)
    case (Some err)
    then have "cmds \<noteq> []" "Flush file_write (l_writer l) = (Some err, w)" using f by (auto split: if_splits)
    with fil.flush_broken[OF h(1)] have "prefix_written (old @ records cmds) w"
      by (auto simp: fil.broken_def prefix_written_def)
    moreover obtain t l2 where rb: "rollback (length old) (''append AOF command batch: '' @ err) (l\<lparr>l_writer := w\<rparr>) = (t, l2)"
      by fastforce
    ultimately have "partial old (records cmds) l2"
      using len by (intro rollback_partial[OF rb]) simp_all
    with run f Some rb show ?thesis by (auto simp: finish_batch_def Let_def)
  next
    case None
    have w: "fil.holds (old @ records cmds) w" "bw_buf w = []" "f_data (bw_out w) = old @ records cmds"
      using f None h(1) cmds fil.flush_holds[OF h(1), of w] holds_file[OF h(1)] by (auto split: if_splits)
    let ?l = "l\<lparr>l_writer := w\<rparr>"
    let ?sy = "if cmds \<noteq> [] \<and> l_policy ?l = ''always'' then file_sync (l_file ?l) else (None, l_file ?l)"
    obtain r2 f2 where s: "?sy = (r2, f2)" by fastforce
    note run' = run[unfolded finish_batch_def f None Let_def prod.case option.case s]
    have f2: "f_data f2 = old @ records cmds" "at_end f2" "f_synced f2 \<le> length (f_data f2)"
      using s w len by (auto simp: fil.holds_def at_end_def split: if_splits dest: file_sync_None file_sync_Some)
        (cases r2; auto dest!: file_sync_None file_sync_Some simp: at_end_def)+
    show ?thesis
    proof (cases r2)
      case (Some err)
      obtain t l2 where rb: "rollback (length old) (''sync AOF command batch: '' @ err) (set_file f2 ?l) = (t, l2)"
        by fastforce
      have "partial old (records cmds) l2"
        using f2 by (intro rollback_partial[OF rb]) (auto simp: prefix_written_def)
      with run' Some rb show ?thesis by auto
    next
      case none2: None
      have "l' = write_delta cmds (set_file f2 ?l)" "r = None"
        using run' none2 by auto
      moreover have "cmds \<noteq> [] \<and> l_policy l = ''always'' \<longrightarrow> f_synced f2 = length (f_data f2)"
        using s none2 by (auto dest!: file_sync_None split: if_splits)
      moreover have "fil.holds (f_data f2) (w\<lparr>bw_out := f2\<rparr>)" using f2 w by (simp add: fil.holds_def)
      ultimately show ?thesis
        using f2 h(2,3) l0 by (simp add: appended_def log_inv_def)
    qed
  qed
qed

lemma log_AppendBatch_correct:
  assumes "log_inv l" "log_AppendBatch U clk commands l = (r, l')"
  defines "cmds \<equiv> valid_commands (canonical_batch U clk commands)"
  shows "case r of
      Inr ps \<Rightarrow> ps = map fst (canonical_batch U clk commands) \<and> appended cmds l l' \<and> l_failed l = None
    | Inl _ \<Rightarrow> l' = l \<and> (l_closed l \<or> l_closing l \<or> l_failed l \<noteq> None) \<or> partial (f_data (l_file l)) (records cmds) l'"
proof (cases "l_closed l \<or> l_closing l \<or> l_failed l \<noteq> None")
  case True
  then have "l' = l" "isl r" using assms(2) by (auto simp: log_AppendBatch_def Let_def split: if_splits)
  with True show ?thesis by (auto split: sum.splits)
next
  case False
  then have l: "fil.holds (f_data (l_file l)) (l_writer l)" "f_synced (l_file l) \<le> length (f_data (l_file l))"
    using assms(1) by (auto simp: log_inv_def)
  show ?thesis
  proof (cases "commands = []")
    case True
    with assms(1,2) False l show ?thesis
      by (auto simp: log_AppendBatch_def Let_def cmds_def canonical_batch_def valid_commands_def appended_def)
  next
    case ne: False
    obtain r1 f where s: "file_call id (l_file l) = (r1, f)" by fastforce
    have f: "f_data f = f_data (l_file l)" "f_pos f = length (f_data (l_file l))" "f_synced f = f_synced (l_file l)" "at_end f"
      using s l(1) by (auto simp: file_call_def fil.holds_def at_end_def Let_def split: if_splits)
    show ?thesis
    proof (cases r1)
      case (Some err)
      with assms(2) False ne s f l(2) show ?thesis
        by (auto simp: log_AppendBatch_def Let_def partial_def intro: exI[of _ 0])
    next
      case None
      let ?old = "f_data (l_file l)"
      let ?l = "set_file f l"
      obtain r2 w where wr: "writeRecords cmds (l_writer ?l) = (r2, w)" by fastforce
      have h: "fil.holds ?old (l_writer ?l)" using l(1) f by (simp add: fil.holds_def)
      note rec = writeRecords_recorded[OF h, of cmds, unfolded wr]
      have ext: "extends f (bw_out w)" using writeRecords_extends[of "l_writer ?l" cmds] wr by simp
      then have len: "length ?old \<le> length (f_data (bw_out w))" "f_synced (bw_out w) \<le> length (f_data (bw_out w))"
        using f l(2) by (auto simp: extends_def)
      note run = assms(2)[unfolded log_AppendBatch_def Let_def, folded cmds_def]
      show ?thesis
      proof (cases r2)
        case (Some err)
        obtain t l2 where rb: "rollback (length ?old)
            (''encode AOF command '' @ failing_name cmds (l_writer ?l) @ '': '' @ err) (?l\<lparr>l_writer := w\<rparr>) = (t, l2)"
          by fastforce
        have "partial ?old (records cmds) l2"
          using rec Some len by (intro rollback_partial[OF rb]) (auto simp: recorded_def)
        moreover have "r = Inl t" "l' = l2" using run False ne s None wr Some rb f(2) by auto
        ultimately show ?thesis by simp
      next
        case none2: None
        obtain r3 l3 where fb: "finish_batch (length ?old) cmds (?l\<lparr>l_writer := w\<rparr>) = (r3, l3)" by fastforce
        have "case r3 of None \<Rightarrow> appended cmds l l3 | Some _ \<Rightarrow> partial ?old (records cmds) l3"
          by (rule finish_batch_correct[OF _ _ _ _ _ _ fb])
            (use rec none2 len False h wr f(1) in \<open>auto simp: recorded_def fil.holds_def\<close>)
        moreover have "r = (case r3 of None \<Rightarrow> Inr (map fst (canonical_batch U clk commands)) | Some err \<Rightarrow> Inl err)" "l' = l3"
          using run False ne s None wr none2 fb f(2) by (auto split: option.splits)
        ultimately show ?thesis using False by (auto split: option.splits)
      qed
    qed
  qed
qed

lemma log_Close_closed: "log_Close l = (r, l') \<Longrightarrow> l_closed l'"
  by (auto simp: log_Close_def Let_def dir_call_def split: if_splits prod.splits)

end
