(* ===== verification/Replay.thy ===== *)
theory Replay
  imports AofCorrect
begin

text \<open>
  Recovery from the append-only file. The journal holds canonical commands, which keep
  their meaning when they are executed later; recovery decodes and applies them in order.
\<close>

subsection \<open>Canonical commands\<close>

lemma ToUpper_PXAT: "ToUpper U ''PXAT'' = ''PXAT''"
  by (simp add: ToUpper_def is_ascii_def upper_char_def)

lemma ToUpper_mutation: "IsMutation name \<Longrightarrow> ToUpper U name = name"
  by (auto simp: IsMutation_def ToUpper_def is_ascii_def upper_char_def)

fun all_pxat :: "unicode \<Rightarrow> string list \<Rightarrow> bool" where
  "all_pxat U [] = True"
| "all_pxat U [opt] = False"
| "all_pxat U (opt # arg # rest) \<longleftrightarrow> ToUpper U opt = ''PXAT'' \<and> all_pxat U rest"

lemma canonical_options_pxat: "canonical_options U now opts = Some r \<Longrightarrow> all_pxat U r"
  by (induction U now opts arbitrary: r rule: canonical_options.induct)
    (auto simp: ToUpper_PXAT split: if_splits option.splits)

lemma all_pxat_set_options:
  "all_pxat U r \<Longrightarrow> set_options U r (ttl, t, fixed) = Inr (ttl', t', fixed') \<Longrightarrow>
    r = [] \<and> ttl' = ttl \<and> fixed' = fixed \<or> fixed'"
  by (induction U r arbitrary: ttl t fixed rule: all_pxat.induct) (auto split: option.splits)

lemma canonical_absolute:
  assumes "canonicalCommand U cmd now = Some c"
  shows "IsMutation (cmd_name c)" "absolute_command U (cmd_name c) (cmd_args c)"
proof -
  show "IsMutation (cmd_name c)"
    using assms by (auto simp: canonicalCommand_def Let_def IsMutation_def split: if_splits option.splits)
  show "absolute_command U (cmd_name c) (cmd_args c)"
  proof (cases "cmd_name cmd = ''SET''")
    case True
    with assms obtain opts where c: "c = mk_cmd ''SET'' (take 2 (cmd_args cmd) @ opts)" "all_pxat U opts"
      "length (cmd_args cmd) \<ge> 2"
      by (auto simp: canonicalCommand_def Let_def split: if_splits dest: canonical_options_pxat)
    then have "drop 2 (cmd_args c) = opts" by simp
    with c(1,2) all_pxat_set_options[OF c(2), of 0 zero_time False] show ?thesis
      by (auto simp: absolute_command_def split: sum.splits)
  next
    case False
    with assms show ?thesis
      by (auto simp: canonicalCommand_def absolute_command_def Let_def split: if_splits option.splits)
  qed
qed

text \<open>A mutation that is not journaled does nothing but reply with an error.\<close>

lemma canonical_options_None:
  "canonical_options U now opts = None \<Longrightarrow> \<exists>v. set_options U opts st = Inl v \<and> is_error v"
  by (induction U now opts arbitrary: st rule: canonical_options.induct)
    (auto simp: syntax_error_def bad_expire_def new_values split: if_splits option.splits)

lemma canonical_None:
  assumes "canonicalCommand U cmd now = None" "IsMutation (cmd_name cmd)"
  shows "\<exists>v. is_error v \<and> (\<forall>clk s. execute U clk cmd s = (v, s))"
proof -
  consider "cmd_name cmd = ''SET''" | "cmd_name cmd = ''EXPIRE''" | "cmd_name cmd = ''DEL''"
    using assms by (auto simp: canonicalCommand_def Let_def split: if_splits)
  then show ?thesis
  proof cases
    case 1
    then have e: "execute U clk cmd s = handleSet U clk (cmd_args cmd) s" for clk s by (simp add: execute_def)
    consider "length (cmd_args cmd) < 2" | k v opts where "cmd_args cmd = k # v # opts" "canonical_options U now opts = None"
      using assms(1) 1 by (cases "cmd_args cmd"; cases "tl (cmd_args cmd)")
        (auto simp: canonicalCommand_def split: if_splits)
    then show ?thesis
    proof cases
      case 1
      then show ?thesis
        by (intro exI[of _ "wrong_args ''set''"])
          (auto simp: e handleSet_def wrong_args_def new_values split: list.splits)
    next
      case 2
      then show ?thesis using canonical_options_None[OF 2(2), of "(0, zero_time, False)"]
        by (auto simp: e handleSet_def)
    qed
  next
    case 2
    then have e: "execute U clk cmd s = handleExpire clk (cmd_args cmd) s" for clk s by (simp add: execute_def)
    show ?thesis
    proof (cases "length (cmd_args cmd) = 2")
      case True
      then show ?thesis using assms(1) 2
        by (intro exI[of _ not_integer])
          (auto simp: e handleExpire_def not_integer_def new_values canonicalCommand_def Let_def split: if_splits option.splits)
    next
      case False
      then show ?thesis
        by (intro exI[of _ "wrong_args ''expire''"]) (simp add: e handleExpire_def wrong_args_def new_values)
    qed
  next
    case 3
    then have "cmd_args cmd = []" using assms(1) by (auto simp: canonicalCommand_def Let_def split: if_splits)
    with 3 show ?thesis
      by (intro exI[of _ "wrong_args ''del''"]) (simp add: execute_def handleDel_def wrong_args_def new_values)
  qed
qed

subsection \<open>Replaying records\<close>

text \<open>The commands whose record the decoder accepts.\<close>

definition replayable :: "Command \<Rightarrow> bool" where
  "replayable c \<longleftrightarrow> IsMutation (cmd_name c) \<and> int (length (cmd_args c)) < maxArrayLength \<and>
     (\<forall>a \<in> set (cmd_args c). int (length a) \<le> maxBulkStringLength) \<and> cost (command_value c) \<le> maxRecordBytes"

lemma command_value_wf:
  assumes "replayable c"
  shows "wf_value (command_value c)" "vdepth (command_value c) \<le> maxRESPDepth"
proof -
  have "length (cmd_name c) \<le> 9" using assms by (auto simp: replayable_def IsMutation_def)
  with assms show "wf_value (command_value c)"
    by (auto simp: replayable_def command_value_def new_values list_all_iff maxBulkStringLength_def)
  have d: "foldr max (map vdepth (map NewBulkString xs)) 0 \<le> 1" for xs
    by (induction xs) (simp_all add: new_values)
  have "vdepth (command_value c) = Suc (foldr max (map vdepth (map NewBulkString (cmd_name c # cmd_args c))) 0)"
    by (simp add: command_value_def NewArray_def)
  also have "\<dots> \<le> maxRESPDepth" using d[of "cmd_name c # cmd_args c"] by (simp add: maxRESPDepth_def)
  finally show "vdepth (command_value c) \<le> maxRESPDepth" .
qed

lemma parse_args_bulk: "parse_args (map NewBulkString xs) acc = Inr (acc @ xs)"
  by (induction xs arbitrary: acc) (simp_all add: new_values)

lemma Parse_command_value:
  assumes "ToUpper U (cmd_name c) = cmd_name c"
  shows "Parse U (command_value c) = Inr c"
  using assms parse_args_bulk[of "cmd_args c" "[]"]
  by (cases c) (simp add: Parse_def command_value_def, simp add: new_values)

text \<open>Without a journal and without a limit, a mutation is applied at once.\<close>

lemma Execute_direct:
  assumes "ex_journal e = None" "maxMemory e = 0" "IsMutation (cmd_name c)"
  shows "Execute U E J c e = Some (apfst (Returned \<circ> Inr) (apply_command U E c e))"
proof -
  have "cmd_name c \<noteq> ''AOFREWRITE''" using assms(3) by (auto simp: IsMutation_def)
  then show ?thesis
    using assms by (cases "apply_command U E c e") (simp add: Execute_def run_admitted_def admitOrReject_def admit_def)
qed

primrec apply_all :: "unicode \<Rightarrow> env \<Rightarrow> Command list \<Rightarrow> 'j Executor \<Rightarrow> 'j Executor" where
  "apply_all U E [] e = e"
| "apply_all U E (c # cs) e = apply_all U E cs (snd (apply_command U E c e))"

definition torn_tail :: "string \<Rightarrow> bool" where
  "torn_tail t \<longleftrightarrow> t = [] \<or> (\<exists>c q. replayable c \<and> t @ q = record_bytes c \<and> q \<noteq> [])"

lemma record_bytes_Cons: "\<exists>r. record_bytes c = Array # r"
  by (simp add: record_bytes_def command_value_def new_values)

lemma apply_command_fields [simp]:
  "ex_journal (snd (apply_command U E c e)) = ex_journal e" "maxMemory (snd (apply_command U E c e)) = maxMemory e"
  by (simp_all add: apply_command_def Let_def split: prod.splits)

lemma replay_tail:
  assumes "torn_tail t" "d_input d = t" "d_err d = EOF" "maxMessageBytes d = int maxRecordBytes" "length t \<le> len"
  shows "replay_loop U E len d e = Some (Inr (if t = [] then None else Some (len - length t)), e)"
proof -
  obtain r d' where D: "Decode U d = (r, d')" by fastforce
  show ?thesis
  proof (cases "t = []")
    case True
    then have "r = Inl (IO EOF)" "d_input d' = []"
      using D assms(2,3) by (auto simp: Decode_def maxRESPDepth_def numeral_eq_Suc ReadByte_def dbind_def)
    then show ?thesis using D assms(2) True by (subst replay_loop.simps) simp
  next
    case False
    then obtain c q where c: "replayable c" "t @ q = record_bytes c" "q \<noteq> []" using assms(1) by (auto simp: torn_tail_def)
    have "int (cost (command_value c)) \<le> maxMessageBytes d" using c(1) assms(4) by (simp add: replayable_def)
    then have "torn (Decode U d) d"
      using Decode_cut[OF command_value_wf[OF c(1)] _ c(3)] c(2) assms(2) by (simp add: record_bytes_def)
    then have r: "\<exists>e. r = Inl (IO e) \<and> (e = EOF \<or> e = ErrUnexpectedEOF)" using D assms(3) by (auto simp: torn_def)
    obtain cs where "t = Array # cs" using False c(2) record_bytes_Cons[of c] by (cases t) auto
    then have "length (d_input d') < length t"
      using Decode_array_takes[OF _ _ D, of cs] assms(2,4) by (simp add: maxRecordBytes_def)
    then show ?thesis using D assms(2,5) False r by (subst replay_loop.simps) (auto simp: Let_def)
  qed
qed

lemma replay_applies:
  assumes "list_all replayable cs" "d_input d = records cs @ t" "maxMessageBytes d = int maxRecordBytes"
    "length (records cs @ t) \<le> len" "ex_journal e = None" "maxMemory e = 0"
  shows "\<exists>d'. d_input d' = t \<and> d_err d' = d_err d \<and> maxMessageBytes d' = maxMessageBytes d \<and>
    replay_loop U E len d e = replay_loop U E len d' (apply_all U E cs e)"
  using assms
proof (induction cs arbitrary: d e)
  case (Cons c cs)
  then have c: "replayable c" "IsMutation (cmd_name c)" by (auto simp: replayable_def)
  let ?d = "d\<lparr>d_input := records cs @ t, messageBytes := int (cost (command_value c))\<rparr>"
  have D: "Decode U d = (Inr (command_value c), ?d)"
    by (rule Decode_encoding[OF command_value_wf[OF c(1)]])
      (use Cons.prems c(1) in \<open>simp_all add: record_bytes_def replayable_def\<close>)
  have "record_bytes c \<noteq> []" using record_bytes_Cons[of c] by auto
  then have "\<not> len - length (d_input ?d) \<le> len - length (d_input d)"
    using Cons.prems(2,4) by (cases "record_bytes c") auto
  moreover have "Parse U (command_value c) = Inr c" using Parse_command_value ToUpper_mutation c(2) by blast
  moreover obtain v e1 where a: "apply_command U E c e = (v, e1)" by fastforce
  ultimately have "replay_loop U E len d e = replay_loop U E len ?d e1"
    using D c(2) Execute_direct[OF Cons.prems(5,6) c(2), of U E no_journal]
    by (subst replay_loop.simps) (simp add: Let_def)
  moreover have "\<exists>d'. d_input d' = t \<and> d_err d' = d_err ?d \<and> maxMessageBytes d' = maxMessageBytes ?d \<and>
    replay_loop U E len ?d e1 = replay_loop U E len d' (apply_all U E cs e1)"
    by (rule Cons.IH) (use Cons.prems a apply_command_fields[of U E c e] in simp_all)
  ultimately show ?case using a by simp
qed (simp, blast)

lemma replay_records:
  assumes "list_all replayable cs" "torn_tail t" "d_input d = records cs @ t" "d_err d = EOF"
    "maxMessageBytes d = int maxRecordBytes" "length (records cs @ t) \<le> len" "ex_journal e = None" "maxMemory e = 0"
  shows "replay_loop U E len d e = Some (Inr (if t = [] then None else Some (len - length t)), apply_all U E cs e)"
proof -
  obtain d' where "d_input d' = t" "d_err d' = d_err d" "maxMessageBytes d' = maxMessageBytes d"
    "replay_loop U E len d e = replay_loop U E len d' (apply_all U E cs e)"
    using replay_applies[OF assms(1,3,5-8)] by blast
  with replay_tail[OF assms(2), of d' len] assms(4-6) show ?thesis by simp
qed

text \<open>A record with more than 1024 elements, the name included, is refused by the decoder.\<close>

lemma bulk_encodings_length: "length xs \<le> length (concat (map encoding (map NewBulkString xs)))"
  by (induction xs) (auto simp: new_values)

lemma Decode_long_record:
  assumes "d_input d = record_bytes c @ rest" "maxArrayLength \<le> int (length (cmd_args c))" "record_fits c"
    "maxMessageBytes d = int maxRecordBytes"
  shows "\<exists>d'. Decode U d = (Inl (ArrayTooLong (int (Suc (length (cmd_args c))))), d')"
proof -
  let ?n = "int (Suc (length (cmd_args c)))"
  let ?body = "concat (map encoding (map NewBulkString (cmd_name c # cmd_args c)))"
  have enc: "record_bytes c = Array # format_int ?n @ CRLF @ ?body"
    by (simp add: record_bytes_def command_value_def NewArray_def)
  then have len: "length (format_int ?n) + 3 + length ?body \<le> maxRecordBytes"
    using assms(3) by (simp add: record_fits_def)
  moreover have "Suc (length (cmd_args c)) \<le> length ?body"
    using bulk_encodings_length[of "cmd_name c # cmd_args c"] by simp
  ultimately have "in_int64 ?n" by (simp add: in_int64_def maxRecordBytes_def)
  note i = this
  let ?d0 = "d\<lparr>messageBytes := 0\<rparr>"
  have d0: "d_input ?d0 = Array # (format_int ?n @ CRLF @ ?body @ rest)" "fits 1 ?d0"
    using assms(1,4) enc by (simp_all add: maxRecordBytes_def)
  let ?d1 = "eat 1 (format_int ?n @ CRLF @ ?body @ rest) ?d0"
  have f: "fits (length (format_int ?n) + 2) ?d1" using len assms(4) by simp
  have in1: "d_input ?d1 = format_int ?n @ CRLF @ (?body @ rest)" by simp
  note r = readLine_value[OF in1 line_value_format[OF i] f]
  have "Decode U d = decodeArray (decode_nested U 63) ?d1"
    using decode_nested_prefix[OF d0, of U 63] by (simp add: Decode_def maxRESPDepth_def)
  also have "\<exists>d'. decodeArray (decode_nested U 63) ?d1 = (Inl (ArrayTooLong ?n), d')"
    unfolding decodeArray_def r dbind_simps ParseInt_format_int[OF i] option.case using assms(2) by simp
  finally show ?thesis .
qed

lemma replay_long_record:
  assumes "list_all replayable cs" "d_input d = records cs @ record_bytes c @ t" "maxMessageBytes d = int maxRecordBytes"
    "length (d_input d) = len" "ex_journal e = None" "maxMemory e = 0" "maxArrayLength \<le> int (length (cmd_args c))" "record_fits c"
  shows "replay_loop U E len d e =
    Some (Inl (DecodeFailed (length (records cs)) (ArrayTooLong (int (Suc (length (cmd_args c)))))), apply_all U E cs e)"
proof -
  obtain d' where d': "d_input d' = record_bytes c @ t" "maxMessageBytes d' = maxMessageBytes d"
    "replay_loop U E len d e = replay_loop U E len d' (apply_all U E cs e)"
    using replay_applies[OF assms(1-3) _ assms(5,6), of len U E] assms(2,4) by auto
  obtain d'' where "Decode U d' = (Inl (ArrayTooLong (int (Suc (length (cmd_args c))))), d'')"
    using Decode_long_record[OF d'(1) assms(7,8)] d'(2) assms(3) by auto
  moreover have "len - length (d_input d') = length (records cs)" using assms(2,4) d'(1) by simp
  ultimately show ?thesis unfolding d'(3) by (subst replay_loop.simps) (simp add: Let_def)
qed

end
