(* ===== verification/Durability.thy ===== *)
theory Durability
  imports Replay
begin

text \<open>
  The journal and the store move together. A history lists the journaled commands with the
  time and the contents at which each was applied; a store \<open>tracks\<close> a history when replaying
  its commands later recovers the store's contents. The locale \<open>journal_contract\<close> states
  what the executor needs of a journal for its store to track the journal's records; it is
  interpreted on the append-only file.
\<close>

subsection \<open>Histories\<close>

type_synonym history = "(time \<times> amap \<times> Command) list"

abbreviation commands :: "history \<Rightarrow> Command list" where
  "commands h \<equiv> map (\<lambda>(l, m, c). c) h"

definition quiet :: "time \<Rightarrow> history \<Rightarrow> bool" where
  "quiet r1 h \<longleftrightarrow> (\<forall>(l, m, c) \<in> set h. \<forall>k \<in> set (command_keys (cmd_name c) (cmd_args c)). decided l r1 (m k))"

definition replayed :: "unicode \<Rightarrow> env \<Rightarrow> Command list \<Rightarrow> unit Executor" where
  "replayed U E cs = apply_all U E cs (NewExecutor NewStore)"

definition replay_window :: "time \<Rightarrow> time \<Rightarrow> env \<Rightarrow> bool" where
  "replay_window r0 r1 E \<longleftrightarrow> env_ok E \<and> (\<forall>i. reading r0 r1 (env_now E i))"

text \<open>
  The contents at which a command was applied have their deadlines from the commands before
  it, unless they have passed. A journal is \<open>settled\<close> for a recovery that ends at \<open>r1\<close> if no command depends on a key
  that an earlier command gave a deadline which has passed by then.
\<close>

definition past :: "time \<Rightarrow> (key \<times> time) set" where
  "past now = {(k, d). d \<le> now}"

definition deadlines :: "unicode \<Rightarrow> Command list \<Rightarrow> (key \<times> time) list" where
  "deadlines U cs = concat (map (\<lambda>c. command_deadlines U (cmd_name c) (cmd_args c)) cs)"

fun settled_after :: "unicode \<Rightarrow> time \<Rightarrow> (key \<times> time) list \<Rightarrow> Command list \<Rightarrow> bool" where
  "settled_after U r1 D [] \<longleftrightarrow> True"
| "settled_after U r1 D (c # cs) \<longleftrightarrow>
     list_all (\<lambda>k. list_all (\<lambda>(k', d). k' = k \<longrightarrow> r1 < d) D) (command_keys (cmd_name c) (cmd_args c)) \<and>
     settled_after U r1 (D @ command_deadlines U (cmd_name c) (cmd_args c)) cs"

definition settled :: "unicode \<Rightarrow> time \<Rightarrow> Command list \<Rightarrow> bool" where
  "settled U r1 cs = settled_after U r1 [] cs"

fun genuine_after :: "unicode \<Rightarrow> (key \<times> time) list \<Rightarrow> history \<Rightarrow> bool" where
  "genuine_after U D [] \<longleftrightarrow> True"
| "genuine_after U D ((l, m, c) # h) \<longleftrightarrow>
     sourced_map (set D \<union> past l) m \<and> genuine_after U (D @ command_deadlines U (cmd_name c) (cmd_args c)) h"

definition genuine :: "unicode \<Rightarrow> history \<Rightarrow> bool" where
  "genuine U h = genuine_after U [] h"

definition tracks :: "unicode \<Rightarrow> time \<Rightarrow> Store \<Rightarrow> history \<Rightarrow> bool" where
  "tracks U now s h \<longleftrightarrow> store_inv s \<and> sourced_map ms_deadlines (abs_store s) \<and>
     sourced_map (set (deadlines U (commands h)) \<union> past now) (abs_store s) \<and> genuine U h \<and>
     (\<forall>r0 r1 E. now \<le> r0 \<and> replay_window r0 r1 E \<and> quiet r1 h \<longrightarrow>
        recovers r0 r1 (abs_store s) (abs_store (ex_store (replayed U E (commands h)))))"

lemma deadlines_simps [simp]:
  "deadlines U [] = []" "deadlines U (cs @ ds) = deadlines U cs @ deadlines U ds"
  "deadlines U (c # cs) = command_deadlines U (cmd_name c) (cmd_args c) @ deadlines U cs"
  by (simp_all add: deadlines_def)

lemma past_mono: "now \<le> now' \<Longrightarrow> past now \<subseteq> past now'"
  by (auto simp: past_def)

lemma genuine_after_append:
  "genuine_after U D (h @ h') \<longleftrightarrow> genuine_after U D h \<and> genuine_after U (D @ deadlines U (commands h)) h'"
  by (induction U D h rule: genuine_after.induct) auto

lemma genuine_snoc: "genuine U (h @ [(l, m, c)]) \<longleftrightarrow> genuine U h \<and> sourced_map (set (deadlines U (commands h)) \<union> past l) m"
  by (simp add: genuine_def genuine_after_append)

lemma genuine_unread: "genuine_after U D (map (\<lambda>c. (l, Map.empty, c)) cs)"
  by (induction cs arbitrary: D) simp_all

lemma genuine_append_unread: "genuine U h \<Longrightarrow> genuine U (h @ map (\<lambda>c. (l, Map.empty, c)) cs)"
  by (simp add: genuine_def genuine_after_append genuine_unread)

lemma settled_quiet_after:
  "genuine_after U D h \<Longrightarrow> settled_after U r1 D (commands h) \<Longrightarrow> quiet r1 h"
proof (induction U D h rule: genuine_after.induct)
  case (2 U D l m c h)
  have "decided l r1 (m k)" if k: "k \<in> set (command_keys (cmd_name c) (cmd_args c))" for k
  proof (cases "m k")
    case (Some e)
    obtain v d where e: "e = (v, d)" by fastforce
    have "t \<le> l \<or> r1 < t" if "d = Some t" for t
    proof -
      have "(k, t) \<in> set D \<union> past l" using 2(2) Some that by (auto simp: e sourced_map_def sourced_def)
      with 2(3) k show ?thesis by (auto simp: list_all_iff past_def)
    qed
    then show ?thesis by (cases d) (auto simp: Some e decided_def expired_def)
  qed (simp add: decided_def)
  with 2 show ?case by (auto simp: quiet_def)
qed (simp add: quiet_def)

lemma settled_quiet: "tracks U now s h \<Longrightarrow> settled U r1 (commands h) \<Longrightarrow> quiet r1 h"
  by (auto simp: tracks_def genuine_def settled_def intro: settled_quiet_after)

lemma apply_all_append: "apply_all U E (cs @ ds) e = apply_all U E ds (apply_all U E cs e)"
  by (induction cs arbitrary: e) simp_all

lemma replayed_snoc: "replayed U E (cs @ [c]) = snd (apply_command U E c (replayed U E cs))"
  by (simp add: replayed_def apply_all_append)

lemma apply_all_inv: "store_inv (ex_store e) \<Longrightarrow> env_ok E \<Longrightarrow> store_inv (ex_store (apply_all U E cs e))"
proof (induction cs arbitrary: e)
  case (Cons c cs)
  then show ?case using apply_command_frame[of e E U c] by (simp add: frame_inv_def)
qed simp

lemma replayed_inv: "env_ok E \<Longrightarrow> store_inv (ex_store (replayed U E cs))"
  unfolding replayed_def by (rule apply_all_inv) (simp_all add: NewExecutor_def NewStore_refines)

lemma tracks_empty: "tracks U now NewStore []"
  by (simp add: tracks_def NewStore_refines replayed_def NewExecutor_def genuine_def)

lemma tracks_inv:
  "tracks U now s h \<Longrightarrow> store_inv s" "tracks U now s h \<Longrightarrow> sourced_map ms_deadlines (abs_store s)"
  "tracks U now s h \<Longrightarrow> sourced_map (set (deadlines U (commands h)) \<union> past now) (abs_store s)"
  "tracks U now s h \<Longrightarrow> genuine U h"
  by (simp_all add: tracks_def)

lemma tracks_sourced:
  assumes "tracks U now s h" "now \<le> now'" "set (deadlines U (commands h)) \<subseteq> D"
  shows "sourced_map (D \<union> past now') (abs_store s)"
  by (rule sourced_mono[OF tracks_inv(3)[OF assms(1)]]) (use assms(3) past_mono[OF assms(2)] in blast)

lemma tracks_later: "tracks U now s h \<Longrightarrow> now \<le> now' \<Longrightarrow> tracks U now' s h"
  using tracks_sourced[of U now s h now'] by (auto simp: tracks_def)

lemma quiet_append: "quiet r1 (h @ h') \<longleftrightarrow> quiet r1 h \<and> quiet r1 h'"
  by (simp add: quiet_def ball_Un)

lemma tracks_apply:
  assumes "tracks U now s h" "clock_ok clk" "execute U clk c s = (v, s')" "now \<le> now'" "clk 1 \<le> now'"
    "IsMutation (cmd_name c)" "absolute_command U (cmd_name c) (cmd_args c)" "now \<le> clk 0"
  shows "tracks U now' s' (h @ [(clk 0, abs_store s, c)])"
  unfolding tracks_def
proof (intro conjI allI impI)
  show "store_inv s'" by (rule execute_inv[OF tracks_inv(1)[OF assms(1)] assms(2,3)])
  note ex = execute_sourced[OF tracks_inv(1)[OF assms(1)] assms(2) _ assms(6,7,3)]
  show "sourced_map ms_deadlines (abs_store s')"
    by (rule ex[OF tracks_inv(2)[OF assms(1)] command_deadlines_ms])
  show "sourced_map (set (deadlines U (commands (h @ [(clk 0, abs_store s, c)]))) \<union> past now') (abs_store s')"
    by (rule ex[OF tracks_sourced[OF assms(1,4)]]) auto
  show "genuine U (h @ [(clk 0, abs_store s, c)])"
    using tracks_sourced[OF assms(1,8) order_refl] tracks_inv(4)[OF assms(1)] by (simp add: genuine_snoc)
  fix r0 r1 E
  assume r: "now' \<le> r0 \<and> replay_window r0 r1 E \<and> quiet r1 (h @ [(clk 0, abs_store s, c)])"
  let ?t = "replayed U E (commands h)"
  have E: "env_ok E" "reading r0 r1 (env_now E i)" for i using r by (auto simp: replay_window_def)
  have rel: "recovers r0 r1 (abs_store s) (abs_store (ex_store ?t))"
    using assms(1,4) r by (auto simp: tracks_def quiet_append)
  obtain w t' where t': "execute U (clock E ?t) c (ex_store ?t) = (w, t')" by fastforce
  have "recovers r0 r1 (abs_store s') (abs_store t')"
    by (rule execute_recovers[OF rel tracks_inv(1)[OF assms(1)] replayed_inv[OF E(1)] assms(6,7,3) t' assms(2)
        env_ok_clock[OF E(1)] _ E(2)])
      (use r assms(5) in \<open>auto simp: quiet_def\<close>)
  then show "recovers r0 r1 (abs_store s') (abs_store (ex_store (replayed U E (commands (h @ [(clk 0, abs_store s, c)])))))"
    using t' by (simp add: replayed_snoc apply_command_def)
qed

lemma recovers_only_expired:
  assumes "recovers r0 r1 live rep" "only_expired t live live'" "t \<le> r0"
  shows "recovers r0 r1 live' rep"
  unfolding recovers_def
proof
  fix k
  from assms(2) consider "live' k = live k" | e where "live' k = None" "live k = Some e" "expired t e"
    unfolding only_expired_def by blast
  then show "rep k = live' k \<or> rep k = None \<and> (\<exists>e. live' k = Some e \<and> expired r1 e) \<or>
      live' k = None \<and> (\<exists>e. rep k = Some e \<and> expired r0 e)"
    by cases (use assms(1)[unfolded recovers_def, THEN spec, of k] expired_mono[OF _ assms(3)] in auto)
qed

lemma tracks_expire:
  assumes "tracks U now s h" "store_inv s'" "only_expired t (abs_store s) (abs_store s')" "now \<le> now'" "t \<le> now'"
  shows "tracks U now' s' h"
  unfolding tracks_def
proof (intro conjI allI impI)
  fix r0 r1 E
  assume r: "now' \<le> r0 \<and> replay_window r0 r1 E \<and> quiet r1 h"
  then have "recovers r0 r1 (abs_store s) (abs_store (ex_store (replayed U E (commands h))))"
    using assms(1,4) by (auto simp: tracks_def)
  then show "recovers r0 r1 (abs_store s') (abs_store (ex_store (replayed U E (commands h))))"
    by (rule recovers_only_expired[OF _ assms(3)]) (use r assms(5) in simp)
qed (use assms(2) sourced_only_expired[OF tracks_inv(2)[OF assms(1)] assms(3)] tracks_inv(4)[OF assms(1)]
    sourced_only_expired[OF tracks_sourced[OF assms(1,4) order_refl] assms(3)] in simp_all)

text \<open>Removing keys under a journaled \<open>DEL\<close>.\<close>

lemma execute_DEL:
  assumes "store_inv s" "clock_ok clk"
  shows "abs_store (snd (execute U clk (mk_cmd ''DEL'' [k]) s)) = (abs_store s)(k := None)"
    "store_inv (snd (execute U clk (mk_cmd ''DEL'' [k]) s))"
  using del_keys_refines[OF assms prod.collapse[symmetric], of "[k]" 0]
    execute_inv[OF assms prod.collapse[symmetric], of U "mk_cmd ''DEL'' [k]"]
  by (auto simp: execute_def handleDel_def restrict_map_insert fun_eq_iff restrict_map_def split: prod.splits)

abbreviation deletions :: "key list \<Rightarrow> Command list" where
  "deletions ks \<equiv> map (\<lambda>key. mk_cmd ''DEL'' [key]) ks"

lemma apply_command_store:
  "ex_store (snd (apply_command U E c e)) = snd (execute U (clock E e) c (ex_store e))"
  by (simp add: apply_command_def Let_def split: prod.splits)

lemma replay_deletions:
  assumes "store_inv (ex_store e)" "env_ok E"
  shows "abs_store (ex_store (apply_all U E (deletions ks) e)) = abs_store (ex_store e) |` (- set ks)"
  using assms
proof (induction ks arbitrary: e)
  case (Cons k ks)
  note d = execute_DEL[OF Cons.prems(1) env_ok_clock[OF Cons.prems(2)], of U "ex_calls e" k]
  show ?case
    using Cons.IH[of "snd (apply_command U E (mk_cmd ''DEL'' [k]) e)"] Cons.prems(2) d
    by (auto simp: apply_command_store fun_eq_iff restrict_map_def)
qed (simp add: restrict_map_def)

definition deletion_history :: "key list \<Rightarrow> history" where
  "deletion_history ks = map (\<lambda>c. (0, Map.empty, c)) (deletions ks)"

lemma commands_deletion [simp]: "commands (deletion_history ks) = deletions ks"
  by (simp add: deletion_history_def comp_def)

lemma tracks_delete:
  assumes "tracks U now s h" "store_inv s'" "abs_store s' = abs_store s |` (- set ks)"
  shows "tracks U now s' (h @ deletion_history ks)"
  unfolding tracks_def
proof (intro conjI allI impI)
  fix r0 r1 E
  assume r: "now \<le> r0 \<and> replay_window r0 r1 E \<and> quiet r1 (h @ deletion_history ks)"
  let ?t = "replayed U E (commands h)"
  have E: "env_ok E" using r by (auto simp: replay_window_def)
  have "recovers r0 r1 (abs_store s) (abs_store (ex_store ?t))"
    using assms(1) r by (auto simp: tracks_def quiet_append)
  then have "recovers r0 r1 (abs_store s |` (- set ks)) (abs_store (ex_store ?t) |` (- set ks))"
    by (rule recovers_restrict)
  with replay_deletions[OF replayed_inv[OF E] E, of U ks U "commands h"] assms(3)
  show "recovers r0 r1 (abs_store s') (abs_store (ex_store (replayed U E (commands (h @ deletion_history ks)))))"
    by (simp add: replayed_def apply_all_append)
next
  show "genuine U (h @ deletion_history ks)"
    unfolding deletion_history_def by (rule genuine_append_unread[OF tracks_inv(4)[OF assms(1)]])
  show "sourced_map ms_deadlines (abs_store s')"
    unfolding assms(3) by (rule sourced_restrict[OF tracks_inv(2)[OF assms(1)]])
  show "sourced_map (set (deadlines U (commands (h @ deletion_history ks))) \<union> past now) (abs_store s')"
    unfolding assms(3) by (rule sourced_restrict[OF tracks_sourced[OF assms(1) order_refl]]) simp
qed (rule assms(2))

subsection \<open>Snapshots\<close>

lemma list_entry_nonempty:
  assumes "store_inv s" "abs_store s k = Some (AList xs, d)"
  shows "xs \<noteq> []"
proof -
  obtain obj where o: "lookup s k = Some obj" "obj_abs obj = (AList xs, d)" using assms(2) by (auto simp: abs_store_def)
  then have "obj_inv obj" using assms(1) lookup_obj_inv by (auto simp: store_inv_def)
  with o(2) show ?thesis by (auto simp: obj_abs_def obj_inv_def contents_def split: ValueKind.splits)
qed

text \<open>What the commands of a snapshot do when they are replayed.\<close>

lemma execute_SET:
  assumes "store_inv s" "clock_ok clk"
  shows "store_inv (snd (execute U clk (mk_cmd ''SET'' [k, v]) s))"
    "abs_store (snd (execute U clk (mk_cmd ''SET'' [k, v]) s)) = (abs_store s)(k \<mapsto> (AStr v, None))"
  using Set_refines[OF assms, of k v 0] by (simp_all add: execute_def handleSet_def spec_set_def)

lemma execute_SET_PXAT:
  assumes "store_inv s" "clock_ok clk" "in_int64 ms"
  shows "store_inv (snd (execute U clk (mk_cmd ''SET'' [k, v, ''PXAT'', format_int ms]) s))"
    "abs_store (snd (execute U clk (mk_cmd ''SET'' [k, v, ''PXAT'', format_int ms]) s)) =
      spec_setAt (clk 0) k v (UnixMilli ms) (abs_store s)"
  using SetAt_refines[OF assms(1,2), of k v "UnixMilli ms"]
  by (simp_all add: execute_def handleSet_def ToUpper_PXAT assms(3))

lemma execute_PEXPIREAT:
  assumes "store_inv s" "clock_ok clk" "in_int64 ms"
  shows "store_inv (snd (execute U clk (mk_cmd ''PEXPIREAT'' [k, format_int ms]) s))"
    "abs_store (snd (execute U clk (mk_cmd ''PEXPIREAT'' [k, format_int ms]) s)) =
      snd (spec_expireAt (clk 0) k (UnixMilli ms) (abs_store s))"
  using ExpireAt_refines[OF assms(1,2), of k "UnixMilli ms"]
  by (auto simp: execute_def handleExpireAt_def assms(3) refines_def split: prod.splits)

lemma execute_RPUSH:
  assumes "store_inv s"
  shows "store_inv (snd (execute U clk (mk_cmd ''RPUSH'' [k, v]) s))"
    "abs_store (snd (execute U clk (mk_cmd ''RPUSH'' [k, v]) s)) = snd (spec_push (clk 0) k [v] False False (abs_store s))"
  using ListPush_refines[OF assms, of "[v]" clk k False False]
  by (auto simp: execute_def list_commands_def handleListCommand_def handleListPush_def int_reply_def refines_def
      split: prod.splits sum.splits)

lemma replay_pushes:
  assumes "store_inv (ex_store e)" "env_ok E" "abs_store (ex_store e) = m(k := stored ys None)"
  shows "store_inv (ex_store (apply_all U E (map (\<lambda>v. mk_cmd ''RPUSH'' [k, v]) xs) e))"
    "abs_store (ex_store (apply_all U E (map (\<lambda>v. mk_cmd ''RPUSH'' [k, v]) xs) e)) = m(k := stored (ys @ xs) None)"
proof -
  have "store_inv (ex_store (apply_all U E (map (\<lambda>v. mk_cmd ''RPUSH'' [k, v]) xs) e)) \<and>
      abs_store (ex_store (apply_all U E (map (\<lambda>v. mk_cmd ''RPUSH'' [k, v]) xs) e)) = m(k := stored (ys @ xs) None)"
    using assms
  proof (induction xs arbitrary: e ys)
    case (Cons v xs)
    let ?e = "snd (apply_command U E (mk_cmd ''RPUSH'' [k, v]) e)"
    note x = execute_RPUSH[OF Cons.prems(1), of U "clock E e" k v]
    have "store_inv (ex_store ?e)" using x(1) by (simp add: apply_command_store)
    moreover have "abs_store (ex_store ?e) = m(k := stored (ys @ [v]) None)"
      by (cases "ys = []") (simp_all add: apply_command_store x(2) push_acts Cons.prems(3) purge_same stored_def
          add_ends_def expired_def fun_eq_iff)
    ultimately show ?case using Cons.IH[of ?e "ys @ [v]"] Cons.prems(2) by simp
  qed simp
  then show "store_inv (ex_store (apply_all U E (map (\<lambda>v. mk_cmd ''RPUSH'' [k, v]) xs) e))"
    "abs_store (ex_store (apply_all U E (map (\<lambda>v. mk_cmd ''RPUSH'' [k, v]) xs) e)) = m(k := stored (ys @ xs) None)"
    by auto
qed

definition entry_ok :: "SnapshotEntry \<Rightarrow> bool" where
  "entry_ok en \<longleftrightarrow> sourced ms_deadlines (se_key en) (Some (entry_abs en)) \<and> (se_kind en = ListKind \<longrightarrow> se_list en \<noteq> [])"

text \<open>The entry is restored, or it is gone because its deadline passed during the replay.\<close>

definition restored :: "time \<Rightarrow> SnapshotEntry \<Rightarrow> aentry option \<Rightarrow> bool" where
  "restored r1 en x \<longleftrightarrow> x = Some (entry_abs en) \<or> x = None \<and> expired r1 (entry_abs en)"

lemma replay_entry:
  assumes "store_inv (ex_store e)" "replay_window r0 r1 E" "entry_ok en" "abs_store (ex_store e) (se_key en) = None"
  shows "\<exists>x. store_inv (ex_store (apply_all U E (snapshot_commands en) e)) \<and> restored r1 en x \<and>
    abs_store (ex_store (apply_all U E (snapshot_commands en) e)) = (abs_store (ex_store e))(se_key en := x)"
proof -
  let ?m = "abs_store (ex_store e)"
  let ?k = "se_key en"
  let ?ms = "unixMilli (se_expires en)"
  have E: "env_ok E" "clock_ok (env_now E i)" "env_now E i n \<le> r1" for i n
    using assms(2) env_ok_clock by (auto simp: replay_window_def reading_def)
  have ms: "in_int64 ?ms" "UnixMilli ?ms = se_expires en" if "\<not> IsZero (se_expires en)"
    using assms(3) that by (auto simp: entry_ok_def sourced_def ms_deadlines_def entry_abs_def whole_ms_def)
  show ?thesis
  proof (cases "se_kind en")
    case StringKind
    show ?thesis
    proof (cases "IsZero (se_expires en)")
      case True
      have "abs_store (ex_store (apply_all U E (snapshot_commands en) e)) = ?m(?k := Some (entry_abs en))"
        "store_inv (ex_store (apply_all U E (snapshot_commands en) e))"
        using execute_SET[OF assms(1) E(2), of U _ ?k "se_value en"] StringKind True
        by (simp_all add: snapshot_commands_def apply_command_store entry_abs_def)
      then show ?thesis by (auto simp: restored_def)
    next
      case False
      have "abs_store (ex_store (apply_all U E (snapshot_commands en) e)) =
          spec_setAt (clock E e 0) ?k (se_value en) (se_expires en) ?m"
        "store_inv (ex_store (apply_all U E (snapshot_commands en) e))"
        using execute_SET_PXAT[OF assms(1) E(2) ms(1)[OF False], of U _ ?k "se_value en"] StringKind False ms(2)
        by (simp_all add: snapshot_commands_def apply_command_store)
      then show ?thesis
        using False StringKind E(3)[of "ex_calls e" 0]
        by (auto simp: spec_setAt_def restored_def entry_abs_def expired_def split: if_splits)
    qed
  next
    case ListKind
    let ?ps = "map (\<lambda>v. mk_cmd ''RPUSH'' [?k, v]) (se_list en)"
    let ?e = "apply_all U E ?ps e"
    have "?m = ?m(?k := stored [] None)" using assms(4) by (simp add: stored_def fun_upd_idem)
    note p = replay_pushes[OF assms(1) E(1) this, of U "se_list en"]
    have ne: "se_list en \<noteq> []" using assms(3) ListKind by (simp add: entry_ok_def)
    show ?thesis
    proof (cases "IsZero (se_expires en)")
      case True
      then show ?thesis using p ListKind ne
        by (auto simp: snapshot_commands_def stored_def restored_def entry_abs_def)
    next
      case False
      have "abs_store (ex_store (apply_all U E (snapshot_commands en) e)) =
          snd (spec_expireAt (clock E ?e 0) ?k (se_expires en) (abs_store (ex_store ?e)))"
        "store_inv (ex_store (apply_all U E (snapshot_commands en) e))"
        using execute_PEXPIREAT[OF p(1) E(2) ms(1)[OF False], of U _ ?k] ListKind False ms(2)
        by (simp_all add: snapshot_commands_def apply_all_append apply_command_store)
      then show ?thesis
        using False ListKind ne E(3)[of "ex_calls ?e" 0] p(2)
        by (auto simp: expireAt_acts purge_same stored_def restored_def entry_abs_def expired_def)
    qed
  qed
qed

lemma replay_snapshot:
  assumes "store_inv (ex_store e)" "replay_window r0 r1 E" "list_all entry_ok es" "distinct (map se_key es)"
    "\<forall>en \<in> set es. abs_store (ex_store e) (se_key en) = None"
  shows "store_inv (ex_store (apply_all U E (concat (map snapshot_commands es)) e)) \<and>
    (\<forall>k. if k \<in> se_key ` set es
         then \<exists>en \<in> set es. se_key en = k \<and>
           restored r1 en (abs_store (ex_store (apply_all U E (concat (map snapshot_commands es)) e)) k)
         else abs_store (ex_store (apply_all U E (concat (map snapshot_commands es)) e)) k = abs_store (ex_store e) k)"
  using assms
proof (induction es arbitrary: e)
  case (Cons en es)
  let ?e = "apply_all U E (snapshot_commands en) e"
  obtain x where x: "store_inv (ex_store ?e)" "restored r1 en x" "abs_store (ex_store ?e) = (abs_store (ex_store e))(se_key en := x)"
    using replay_entry[OF Cons.prems(1,2), of en U] Cons.prems(3,5) by auto
  have "\<forall>en' \<in> set es. abs_store (ex_store ?e) (se_key en') = None"
    using Cons.prems(4,5) x(3) by (metis fun_upd_other distinct.simps(2) imageI list.set_intros(2) list.set_map list.simps(9))
  from Cons.IH[OF x(1) Cons.prems(2) _ _ this] Cons.prems(3,4) x(2,3) show ?case
    by (auto simp: apply_all_append)
qed simp

definition snapshot_history :: "SnapshotEntry list \<Rightarrow> history" where
  "snapshot_history es = map (\<lambda>c. (0, Map.empty, c)) (concat (map snapshot_commands es))"

lemma commands_snapshot [simp]: "commands (snapshot_history es) = concat (map snapshot_commands es)"
  by (simp add: snapshot_history_def comp_def)

lemma snapshot_entry:
  assumes "store_inv s" "order_ok order s" "en \<in> set (snapshot_list t order s)"
  shows "abs_store s (se_key en) = Some (entry_abs en)"
proof -
  note sc = snapshot_correct[OF assms(1,2)]
  have "map_of (map (\<lambda>e. (se_key e, entry_abs e)) (snapshot_list t order s)) (se_key en) = Some (entry_abs en)"
    by (rule map_of_is_SomeI) (use sc(2)[of t] assms(3) in \<open>auto simp: comp_def\<close>)
  then have "purge t (se_key en) (abs_store s) (se_key en) = Some (entry_abs en)" by (simp only: sc(1))
  then show ?thesis by (auto simp: purge_same split: option.splits if_splits)
qed

lemma list_kind_entry: "se_kind en = ListKind \<Longrightarrow> \<exists>d. entry_abs en = (AList (se_list en), d)"
  by (simp add: entry_abs_def)

lemma snapshot_deadline:
  assumes "sourced ms_deadlines (se_key en) (Some (entry_abs en))" "entry_abs en = (v, Some d)"
  shows "(se_key en, d) \<in> set (deadlines U (snapshot_commands en))"
proof -
  have d: "in_int64 (unixMilli d)" "UnixMilli (unixMilli d) = d"
    using assms by (simp_all add: sourced_def ms_deadlines_def whole_ms_def)
  have e: "\<not> IsZero (se_expires en)" "se_expires en = d"
    using assms(2) by (auto simp: entry_abs_def split: ValueKind.splits if_splits)
  show ?thesis
    using d e by (cases "se_kind en") (simp_all add: snapshot_commands_def command_deadlines_def ToUpper_PXAT)
qed

lemma snapshot_sourced:
  assumes "store_inv s" "sourced_map ms_deadlines (abs_store s)" "order_ok order s" "t \<le> now"
  shows "sourced_map (set (deadlines U (concat (map snapshot_commands (snapshot_list t order s)))) \<union> past now) (abs_store s)"
  unfolding sourced_map_def sourced_def
proof (intro allI impI)
  fix k v d
  let ?es = "snapshot_list t order s"
  assume k: "abs_store s k = Some (v, Some d)"
  show "(k, d) \<in> set (deadlines U (concat (map snapshot_commands ?es))) \<union> past now"
  proof (cases "d \<le> t")
    case False
    then have "purge t k (abs_store s) k = Some (v, Some d)" using k by (simp add: purge_same expired_def)
    then obtain en where en: "en \<in> set ?es" "se_key en = k" "entry_abs en = (v, Some d)"
      using map_of_SomeD[of "map (\<lambda>e. (se_key e, entry_abs e)) ?es" k] snapshot_correct(1)[OF assms(1,3), of t k] by auto
    have "sourced ms_deadlines (se_key en) (Some (entry_abs en))"
      using assms(2) k en(2,3) unfolding sourced_map_def by metis
    from snapshot_deadline[OF this en(3), of U] en(1,2) show ?thesis unfolding deadlines_def by auto
  qed (use assms(4) in \<open>simp add: past_def\<close>)
qed

lemma tracks_snapshot:
  assumes "store_inv s" "sourced_map ms_deadlines (abs_store s)" "order_ok order s" "t \<le> now"
  shows "tracks U now s (snapshot_history (snapshot_list t order s))"
  unfolding tracks_def
proof (intro conjI allI impI)
  let ?es = "snapshot_list t order s"
  fix r0 r1 E
  assume r: "now \<le> r0 \<and> replay_window r0 r1 E \<and> quiet r1 (snapshot_history ?es)"
  let ?e = "NewExecutor NewStore :: unit Executor"
  have r1: "t \<le> r1" using r assms(4) order_trans by (fastforce simp: replay_window_def reading_def)
  have ok: "list_all entry_ok ?es"
    unfolding list_all_iff
  proof
    fix en
    assume "en \<in> set ?es"
    then have en: "abs_store s (se_key en) = Some (entry_abs en)" by (rule snapshot_entry[OF assms(1,3)])
    then have "sourced ms_deadlines (se_key en) (Some (entry_abs en))" using assms(2) unfolding sourced_map_def by metis
    with en list_entry_nonempty[OF assms(1)] list_kind_entry show "entry_ok en"
      unfolding entry_ok_def by metis
  qed
  have new: "ex_store ?e = NewStore" "store_inv NewStore" "abs_store NewStore = Map.empty"
    by (simp_all add: NewExecutor_def NewStore_refines)
  have "store_inv (ex_store ?e)" "\<forall>en \<in> set ?es. abs_store (ex_store ?e) (se_key en) = None" by (simp_all add: new)
  note rep = replay_snapshot[OF this(1) _ ok snapshot_correct(2)[OF assms(1,3)] this(2), of r0 r1 E U, folded replayed_def]
  let ?m = "abs_store (ex_store (replayed U E (commands (snapshot_history ?es))))"
  show "recovers r0 r1 (abs_store s) ?m"
    unfolding recovers_def
  proof
    fix k
    show "?m k = abs_store s k \<or> ?m k = None \<and> (\<exists>e. abs_store s k = Some e \<and> expired r1 e) \<or>
        abs_store s k = None \<and> (\<exists>e. ?m k = Some e \<and> expired r0 e)"
    proof (cases "k \<in> se_key ` set ?es")
      case True
      then obtain en where "en \<in> set ?es" "se_key en = k" "restored r1 en (?m k)"
        using rep r by (auto split: if_splits)
      then show ?thesis using snapshot_entry[OF assms(1,3), of en t] unfolding restored_def by metis
    next
      case False
      then have "?m k = None" using rep r new by (auto split: if_splits)
      moreover have "purge t k (abs_store s) k = None"
        using False by (simp add: snapshot_correct(1)[OF assms(1,3), symmetric] map_of_eq_None_iff image_comp comp_def)
      ultimately show ?thesis using expired_mono[OF _ r1]
        by (auto simp: purge_same split: option.splits if_splits)
    qed
  qed
next
  show "genuine U (snapshot_history (snapshot_list t order s))"
    using genuine_append_unread[of U "[]" 0] by (simp add: snapshot_history_def genuine_def)
qed (use assms snapshot_sourced[OF assms, of U] in simp_all)

subsection \<open>A batch of journaled commands\<close>

text \<open>
  What the journal returns for a command: the canonical form, or the command itself when
  only an error reply can come of it.
\<close>

definition harmless :: "unicode \<Rightarrow> Command \<Rightarrow> bool" where
  "harmless U c \<longleftrightarrow> (\<forall>clk s. snd (execute U clk c s) = s)"

definition canonical :: "unicode \<Rightarrow> Command \<Rightarrow> bool" where
  "canonical U c \<longleftrightarrow> IsMutation (cmd_name c) \<and> absolute_command U (cmd_name c) (cmd_args c)"

abbreviation mutation :: "Command \<Rightarrow> bool" where
  "mutation c \<equiv> IsMutation (cmd_name c)"

definition persisted_ok :: "unicode \<Rightarrow> Command \<times> bool \<Rightarrow> bool" where
  "persisted_ok U p \<longleftrightarrow> (if snd p then canonical U (fst p) else harmless U (fst p))"

lemma persisted_ok_simps [simp]:
  "persisted_ok U (c, True) \<longleftrightarrow> canonical U c" "persisted_ok U (c, False) \<longleftrightarrow> harmless U c"
  by (simp_all add: persisted_ok_def)

lemma canonicalCommand_ok:
  assumes "mutation cmd"
  shows "persisted_ok U (case canonicalCommand U cmd now of Some c \<Rightarrow> (c, True) | None \<Rightarrow> (cmd, False))"
proof (cases "canonicalCommand U cmd now")
  case None
  obtain v where "\<forall>clk s. execute U clk cmd s = (v, s)" using canonical_None[OF None assms] by blast
  with None show ?thesis by (simp add: harmless_def)
next
  case (Some c)
  with canonical_absolute[OF Some] show ?thesis by (simp add: canonical_def)
qed

lemma canonical_batch_ok: "list_all mutation cmds \<Longrightarrow> list_all (persisted_ok U) (canonical_batch U clk cmds)"
  by (auto simp: canonical_batch_def list_all_iff canonicalCommand_ok in_set_enumerate_eq)

lemma length_canonical_batch [simp]: "length (canonical_batch U clk cmds) = length cmds"
  by (simp add: canonical_batch_def)

lemma valid_commands_simps [simp]:
  "valid_commands [] = []" "valid_commands ((c, True) # ps) = c # valid_commands ps"
  "valid_commands ((c, False) # ps) = valid_commands ps"
  by (simp_all add: valid_commands_def)

lemma valid_commands_canonical: "list_all (persisted_ok U) ps \<Longrightarrow> list_all (canonical U) (valid_commands ps)"
  by (auto simp: list_all_iff valid_commands_def persisted_ok_def)

lemma accepted_simps [simp]:
  "accepted [] = []" "accepted ((i, cmd, None) # rs) = cmd # accepted rs" "accepted ((i, cmd, Some v) # rs) = accepted rs"
  by (simp_all add: accepted_def)

lemma clock_next: "env_ok E \<Longrightarrow> env_now E i n \<le> env_now E (Suc i) m"
  by (simp add: env_ok_def)

lemma clock_le: 
  assumes "env_ok E" "i \<le> j"
  shows "env_now E i 0 \<le> env_now E j 0"
  using assms(2)
proof (induction rule: dec_induct)
  case (step n)
  then show ?case using clock_next[OF assms(1), of n 0 0] by linarith
qed simp

lemma tracks_batch:
  assumes "env_ok E" "list_all (persisted_ok U) ps" "length ps = length (accepted rs)"
    "apply_batch U E (Inr (map fst ps)) rs e = (answers, e')"
  shows "\<exists>h'. commands h' = valid_commands ps \<and>
    (\<forall>h. tracks U (clock E e 0) (ex_store e) h \<longrightarrow> tracks U (clock E e' 0) (ex_store e') (h @ h'))"
  using assms(2-)
proof (induction rs arbitrary: ps e answers)
  case (Cons r rs)
  obtain i cmd x where r: "r = (i, cmd, x)" by (metis surj_pair)
  show ?case
  proof (cases x)
    case (Some v)
    with Cons.prems Cons.IH[of ps e] show ?thesis
      by (cases "apply_batch U E (Inr (map fst ps)) rs e") (auto simp: r)
  next
    case None
    with Cons.prems(2) obtain c valid ps' where ps: "ps = (c, valid) # ps'" by (cases ps) (auto simp: r)
    obtain v s where x: "execute U (clock E e) c (ex_store e) = (v, s)" by fastforce
    let ?e = "(tick e)\<lparr>ex_store := s\<rparr>"
    obtain as where b: "apply_batch U E (Inr (map fst ps')) rs ?e = (as, e')"
      using Cons.prems(3) by (cases "apply_batch U E (Inr (map fst ps')) rs ?e") (simp add: r None ps apply_command_def x)
    obtain h' where h': "commands h' = valid_commands ps'"
      "\<And>h. tracks U (clock E ?e 0) (ex_store ?e) h \<Longrightarrow> tracks U (clock E e' 0) (ex_store e') (h @ h')"
      using Cons.IH[of ps' ?e, OF _ _ b] Cons.prems(1,2) by (auto simp: r None ps)
    note now = clock_next[OF assms(1), of "ex_calls e"]
    show ?thesis
    proof (cases valid)
      case True
      let ?h = "(clock E e 0, abs_store (ex_store e), c)"
      have "tracks U (clock E ?e 0) (ex_store ?e) (h @ [?h])" if "tracks U (clock E e 0) (ex_store e) h" for h
        using tracks_apply[OF that env_ok_clock[OF assms(1)] x, of "clock E ?e 0"] now Cons.prems(1)
        by (simp add: ps True canonical_def)
      with h' show ?thesis by (intro exI[of _ "?h # h'"]) (fastforce simp: ps True)
    next
      case False
      then have "s = ex_store e" using Cons.prems(1) x by (simp add: ps harmless_def) (metis snd_conv)
      then have "tracks U (clock E ?e 0) (ex_store ?e) h" if "tracks U (clock E e 0) (ex_store e) h" for h
        using tracks_later[OF that now] by simp
      with h' False show ?thesis by (auto simp: ps)
    qed
  qed
qed (auto intro!: exI[of _ "[]"])

end
