(* ===== verification/JournalContract.thy ===== *)
theory JournalContract
  imports Durability
begin

text \<open>
  What the executor relies on of its journal, as the locale \<open>journal_contract\<close>, and what
  follows for the executor: in every state the commands on record, replayed later, recover
  the contents of the store, and so would the commands of a rewrite in progress.
\<close>

text \<open>
  \<open>recs j cs\<close>: the journal \<open>j\<close> has the commands \<open>cs\<close> on record. \<open>pend j ds\<close>: if \<open>j\<close> has a
  rewrite in progress that may still complete, then the rewritten journal has the commands \<open>ds\<close>.
\<close>

locale journal_contract =
  fixes U :: unicode
    and J :: "'j journal_ops"
    and batch :: "(nat \<Rightarrow> time) \<Rightarrow> Command list \<Rightarrow> 'j \<Rightarrow> (go_error + Command list) \<times> 'j"
    and rw :: "'j async_rewriter"
    and recs :: "'j \<Rightarrow> Command list \<Rightarrow> bool"
    and pend :: "'j \<Rightarrow> Command list \<Rightarrow> bool"
  assumes batches: "AppendBatch J = Some batch"
    and rewriter: "Async J = Some rw"
    and batch_ok: "recs j cs \<Longrightarrow> pend j ds \<Longrightarrow> batch clk cmds j = (Inr ps, j') \<Longrightarrow>
      ps = map fst (canonical_batch U clk cmds) \<and> recs j' (cs @ valid_commands (canonical_batch U clk cmds)) \<and>
      pend j' (ds @ valid_commands (canonical_batch U clk cmds))"
    and batch_failed: "recs j cs \<Longrightarrow> pend j ds \<Longrightarrow> batch clk cmds j = (Inl err, j') \<Longrightarrow> recs j' cs \<and> pend j' ds"
    and start_ok: "recs j cs \<Longrightarrow> StartRewrite rw entries j = (None, j') \<Longrightarrow>
      recs j' cs \<and> pend j' (concat (map snapshot_commands entries))"
    and start_failed: "recs j cs \<Longrightarrow> pend j ds \<Longrightarrow> StartRewrite rw entries j = (Some err, j') \<Longrightarrow> recs j' cs \<and> pend j' ds"
    and completed: "recs j cs \<Longrightarrow> pend j ds \<Longrightarrow> rewrite_ready rw j = Some None \<Longrightarrow> CompleteRewrite rw j = (r, j') \<Longrightarrow>
      (recs j' cs \<or> recs j' ds) \<and> pend j' ds'"
    and aborted: "recs j cs \<Longrightarrow> AbortRewrite rw cause j = (r, j') \<Longrightarrow> recs j' cs \<and> pend j' ds'"
begin

definition journaled :: "time \<Rightarrow> 'j \<Rightarrow> Store \<Rightarrow> bool" where
  "journaled now j s \<longleftrightarrow> (\<exists>h h'. recs j (commands h) \<and> pend j (commands h') \<and> tracks U now s h \<and> tracks U now s h')"

definition durable :: "env \<Rightarrow> 'j Executor \<Rightarrow> bool" where
  "durable E e \<longleftrightarrow> (\<exists>j. ex_journal e = Some j \<and> journaled (clock E e 0) j (ex_store e))"

lemma journaled_later: "journaled now j s \<Longrightarrow> now \<le> now' \<Longrightarrow> journaled now' j s"
  unfolding journaled_def using tracks_later by blast

lemma journaled_expire:
  "journaled now j s \<Longrightarrow> store_inv s' \<Longrightarrow> only_expired t (abs_store s) (abs_store s') \<Longrightarrow> now \<le> now' \<Longrightarrow> t \<le> now' \<Longrightarrow>
    journaled now' j s'"
  unfolding journaled_def using tracks_expire by blast

lemma journaled_inv: "journaled now j s \<Longrightarrow> store_inv s"
  unfolding journaled_def using tracks_inv(1) by blast

lemma durableD: "durable E e \<Longrightarrow> store_inv (ex_store e)" "durable E e \<Longrightarrow> ex_journal e \<noteq> None"
  unfolding durable_def using journaled_inv by auto

lemma durable_later:
  assumes "env_ok E" "durable E e" "ex_store e' = ex_store e" "ex_journal e' = ex_journal e" "ex_calls e \<le> ex_calls e'"
  shows "durable E e'"
  using assms journaled_later[OF _ clock_le[OF assms(1,5)]] by (auto simp: durable_def)

subsubsection \<open>Journaled deletions: eviction and active expiration\<close>

lemma canonical_deletions:
  "map fst (canonical_batch U clk (deletions ks)) = deletions ks"
  "valid_commands (canonical_batch U clk (deletions ks)) = deletions ks"
proof -
  have "canonicalCommand U (mk_cmd ''DEL'' [k]) t = Some (mk_cmd ''DEL'' [k])" for k t
    by (simp add: canonicalCommand_def)
  then have "canonical_batch U clk (deletions ks) = map (\<lambda>c. (c, True)) (deletions ks)"
    by (intro nth_equalityI) (simp_all add: canonical_batch_def nth_enumerate_eq)
  then show "map fst (canonical_batch U clk (deletions ks)) = deletions ks"
    "valid_commands (canonical_batch U clk (deletions ks)) = deletions ks"
    by (simp_all add: comp_def valid_commands_def)
qed

lemma append_deletions:
  assumes "journaled now j s" "appendCommands J (deletions ks) clk j = (err, j')"
  shows "case err of
      Some _ \<Rightarrow> journaled now j' s
    | None \<Rightarrow> (\<forall>s'. store_inv s' \<longrightarrow> abs_store s' = abs_store s |` (- set ks) \<longrightarrow> journaled now j' s')"
proof -
  obtain h h' where h: "recs j (commands h)" "pend j (commands h')" "tracks U now s h" "tracks U now s h'"
    using assms(1) unfolding journaled_def by blast
  obtain r j1 where b: "batch clk (deletions ks) j = (r, j1)" by fastforce
  show ?thesis
  proof (cases r)
    case (Inl t)
    then have "err = Some t" "j' = j1" using assms(2) b by (simp_all add: appendCommands_def batches)
    with batch_failed[OF h(1,2) b[unfolded Inl]] h(3,4) show ?thesis unfolding journaled_def by auto
  next
    case (Inr ps)
    have "recs j' (commands (h @ deletion_history ks))" "pend j' (commands (h' @ deletion_history ks))" "err = None"
      using batch_ok[OF h(1,2) b[unfolded Inr]] assms(2) b Inr
      by (auto simp: appendCommands_def batches canonical_deletions)
    with tracks_delete[OF h(3)] tracks_delete[OF h(4)] show ?thesis
      unfolding journaled_def by (simp only: option.case) blast
  qed
qed

lemma persist_eviction_durable:
  assumes "env_ok E" "durable E e" "persist_eviction E J key e = (err, e')"
  shows "case err of Some _ \<Rightarrow> durable E e' | None \<Rightarrow> durable E (evict E key e')"
proof -
  obtain j where j: "ex_journal e = Some j" "journaled (clock E e 0) j (ex_store e)"
    using assms(2) unfolding durable_def by blast
  obtain err' j' where a: "appendCommands J (deletions [key]) (clock E e) j = (err', j')" by fastforce
  have e': "err = err'" "e' = (tick e)\<lparr>ex_journal := Some j'\<rparr>"
    using assms(3) a by (simp_all add: persist_eviction_def j)
  note ad = append_deletions[OF journaled_later[OF j(2) clock_next[OF assms(1), of _ _ 0]] a]
  show ?thesis
  proof (cases err)
    case (Some t)
    with ad show ?thesis by (simp add: e' durable_def)
  next
    case None
    let ?s = "ex_store (evict E key e')"
    have "store_inv (ex_store e')" using durableD(1)[OF assms(2)] by (simp add: e')
    note ev = evict_store[OF this, of E key]
    have "abs_store ?s = abs_store (ex_store e) |` (- set [key])"
      unfolding ev(2) by (auto simp: e' restrict_map_def fun_eq_iff)
    with ad None ev(1) have "journaled (env_now E (Suc (ex_calls e)) 0) j' ?s" by (simp add: e'(1))
    from journaled_later[OF this clock_next[OF assms(1), of _ _ 0]] None show ?thesis
      by (simp add: durable_def e' evict_def)
  qed
qed

lemma admit_loop_durable:
  assumes "admit_loop E J e = Some y" "env_ok E" "durable E e"
  shows "durable E (snd y)"
proof -
  have "J' = J \<longrightarrow> env_ok E \<longrightarrow> durable E e \<longrightarrow> durable E (snd y)" if "admit_loop E J' e = Some y" for J' e y
  proof (rule admit_loop.raw_induct[OF _ that, of "\<lambda>E J' e y. J' = J \<longrightarrow> env_ok E \<longrightarrow> durable E e \<longrightarrow> durable E (snd y)"],
      intro impI)
    fix loop E J' e y
    assume IH: "\<And>E J' e y. loop E J' e = Some y \<Longrightarrow> J' = J \<longrightarrow> env_ok E \<longrightarrow> durable E e \<longrightarrow> durable E (snd y)"
      and a: "J' = J" "env_ok E" "durable E e"
      and body: "(if UsedMemory (ex_store e) \<le> maxMemory e then Some (Inr True, e)
        else if \<not> evictLRU e then Some (Inr False, e)
        else case LRUVictim (env_rnd E (ex_calls e) 0) (ex_store e) of
               None \<Rightarrow> Some (Inr False, e)
             | Some key \<Rightarrow>
                 (case persist_eviction E J' key (tick e) of
                    (Some err, e) \<Rightarrow> Some (Inl (''persist eviction: '' @ err), e)
                  | (None, e) \<Rightarrow> loop E J' (evict E key e))) = Some y"
    have d: "durable E (tick e)" by (rule durable_later[OF a(2,3)]) simp_all
    consider "y = (Inr True, e)" | "y = (Inr False, e)"
      | key err e1 where "persist_eviction E J key (tick e) = (Some err, e1)" "snd y = e1"
      | key e1 where "persist_eviction E J key (tick e) = (None, e1)" "loop E J (evict E key e1) = Some y"
      using body[unfolded a(1)] by (auto split: if_splits option.splits prod.splits)
    then show "durable E (snd y)"
    proof cases
      case 3
      with persist_eviction_durable[OF a(2) d 3(1)] show ?thesis by simp
    next
      case 4
      with persist_eviction_durable[OF a(2) d 4(1)] IH[OF 4(2)] a(2) show ?thesis by simp
    qed (use a(3) in simp_all)
  qed
  with assms show ?thesis by blast
qed

lemma admitOrReject_durable:
  assumes "admitOrReject E J cmd e = Some (r, e')" "env_ok E" "durable E e"
  shows "durable E e'"
proof -
  obtain q where "admit E J cmd e = Some q" "e' = snd q" using assms(1) by (auto simp: admitOrReject_def)
  with assms(2,3) admit_loop_durable show ?thesis by (auto simp: admit_def split: if_splits)
qed

subsubsection \<open>Commands\<close>

lemma admit_batch_durable:
  "admit_batch E J b e = Some (rs, e') \<Longrightarrow> env_ok E \<Longrightarrow> durable E e \<Longrightarrow> durable E e'"
proof (induction b arbitrary: e rs)
  case (Cons x b)
  obtain i cmd where x: "x = (i, cmd)" by fastforce
  from Cons.prems(1) obtain r e1 rs1 where "admitOrReject E J cmd e = Some (r, e1)" "admit_batch E J b e1 = Some (rs1, e')"
    by (auto simp: x split: option.splits)
  with Cons.IH[of e1 rs1] admitOrReject_durable[of E cmd e r e1] Cons.prems(2,3) show ?case by blast
qed simp

lemma apply_batch_failed:
  "ex_store (snd (apply_batch U E (Inl err) rs e)) = ex_store e"
  "ex_journal (snd (apply_batch U E (Inl err) rs e)) = ex_journal e"
  "ex_calls (snd (apply_batch U E (Inl err) rs e)) = ex_calls e"
  by (induction U E "Inl err :: go_error + Command list" rs e rule: apply_batch.induct) simp_all

lemma apply_batch_journal: "ex_journal (snd (apply_batch U E r rs e)) = ex_journal e"
  by (induction U E r rs e rule: apply_batch.induct) (auto simp: apply_command_def Let_def split: prod.splits)

lemma checked_append_contract:
  assumes "recs j cs" "pend j ds" "checked_append J clk cmds j = (r, j')"
  defines "ps \<equiv> canonical_batch U clk cmds"
  shows "case r of
      Inl _ \<Rightarrow> recs j' cs \<and> pend j' ds
    | Inr qs \<Rightarrow> qs = map fst ps \<and> recs j' (cs @ valid_commands ps) \<and> pend j' (ds @ valid_commands ps)"
proof (cases "cmds = []")
  case True
  with assms show ?thesis by (auto simp: checked_append_def batches canonical_batch_def)
next
  case False
  obtain q j1 where b: "batch clk cmds j = (q, j1)" by fastforce
  show ?thesis
  proof (cases q)
    case (Inl err)
    with batch_failed[OF assms(1,2) b[unfolded Inl]] assms(3) b False show ?thesis
      by (auto simp: checked_append_def batches)
  next
    case (Inr qs)
    note ok = batch_ok[OF assms(1,2) b[unfolded Inr], folded ps_def]
    then have "length qs = length cmds" by (simp add: ps_def)
    with ok assms(3) b False Inr show ?thesis by (auto simp: checked_append_def batches)
  qed
qed

lemma commit_durable:
  assumes "env_ok E" "durable E e" "list_all (\<lambda>(i, cmd). mutation cmd) b"
    "commitMutationBatch U E J b e = Some (answers, e')"
  shows "durable E e'"
proof -
  obtain rs e1 where a: "admit_batch E J b e = Some (rs, e1)" "map (\<lambda>(i, cmd, r). (i, cmd)) rs = b"
    using admit_batch_returns[OF durableD(1)[OF assms(2)], of E J b] by blast
  have d1: "durable E e1" by (rule admit_batch_durable[OF a(1) assms(1,2)])
  then obtain j h h' where j: "ex_journal e1 = Some j" "recs j (commands h)" "pend j (commands h')"
    "tracks U (clock E e1 0) (ex_store e1) h" "tracks U (clock E e1 0) (ex_store e1) h'"
    unfolding durable_def journaled_def by blast
  obtain r j' where c: "checked_append J (clock E e1) (accepted rs) j = (r, j')" by fastforce
  let ?e = "(tick e1)\<lparr>ex_journal := Some j'\<rparr>"
  have run: "apply_batch U E r rs ?e = (answers, e')"
    using assms(4) by (simp add: commitMutationBatch_def a(1) j(1) c)
  have jr: "ex_journal e' = Some j'" using apply_batch_journal[of E r rs ?e] run by simp
  have tr: "tracks U (clock E ?e 0) (ex_store ?e) h" "tracks U (clock E ?e 0) (ex_store ?e) h'"
    using tracks_later[OF j(4) clock_next[OF assms(1)]] tracks_later[OF j(5) clock_next[OF assms(1)]] by simp_all
  have "list_all mutation (accepted rs)"
    using assms(3) a(2) by (auto simp: accepted_def list_all_iff)
  note ok = canonical_batch_ok[OF this, of U "clock E e1"]
  let ?ps = "canonical_batch U (clock E e1) (accepted rs)"
  show ?thesis
  proof (cases r)
    case (Inl err)
    have "recs j' (commands h) \<and> pend j' (commands h')" using checked_append_contract[OF j(2,3) c] Inl by simp
    moreover have
      "ex_store e' = ex_store ?e" "ex_calls e' = ex_calls ?e"
      using apply_batch_failed[of E err rs ?e] run Inl by simp_all
    ultimately show ?thesis using tr jr by (auto simp: durable_def journaled_def)
  next
    case (Inr ps)
    have ps: "ps = map fst ?ps" and "recs j' (commands h @ valid_commands ?ps)" "pend j' (commands h' @ valid_commands ?ps)"
      using checked_append_contract[OF j(2,3) c] Inr by simp_all
    moreover obtain x where "commands x = valid_commands ?ps"
      "\<And>h. tracks U (clock E ?e 0) (ex_store ?e) h \<Longrightarrow> tracks U (clock E e' 0) (ex_store e') (h @ x)"
      using tracks_batch[OF assms(1) ok _ run[unfolded Inr ps]] by auto
    ultimately have "recs j' (commands (h @ x))" "pend j' (commands (h' @ x))"
      "tracks U (clock E e' 0) (ex_store e') (h @ x)" "tracks U (clock E e' 0) (ex_store e') (h' @ x)"
      using tr by simp_all
    with jr show ?thesis unfolding durable_def journaled_def by blast
  qed
qed

lemma apply_read_durable:
  assumes "env_ok E" "durable E e" "\<not> mutation cmd" "apply_command U E cmd e = (v, e')"
  shows "durable E e'"
proof -
  obtain s where x: "execute U (clock E e) cmd (ex_store e) = (v, s)" "e' = (tick e)\<lparr>ex_store := s\<rparr>"
    using assms(4) by (auto simp: apply_command_def split: prod.splits)
  obtain j where j: "ex_journal e = Some j" "journaled (clock E e 0) j (ex_store e)"
    using assms(2) unfolding durable_def by blast
  note inv = durableD(1)[OF assms(2)] and clk = env_ok_clock[OF assms(1), of "ex_calls e"]
  have "journaled (clock E e' 0) j s"
    by (rule journaled_expire[OF j(2) execute_inv[OF inv clk x(1)] execute_reads[OF inv clk assms(3) x(1)]])
      (use clock_next[OF assms(1)] in \<open>simp_all add: x(2)\<close>)
  with j(1) show ?thesis by (simp add: durable_def x(2))
qed

lemma Execute_durable:
  assumes "env_ok E" "durable E e" "Execute U E J cmd e = Some (r, e')"
  shows "durable E e'"
proof -
  have same: "durable E e'" if "ex_store e' = ex_store e" "ex_journal e' = ex_journal e" "ex_calls e' = ex_calls e" for e'
    by (rule durable_later[OF assms(1,2) that(1,2)]) (simp add: that(3))
  have b: "batched J e" using durableD(2)[OF assms(2)] by (simp add: batched_def batches)
  consider (rewrite) "cmd_name cmd = ''AOFREWRITE''"
    | (queued) "cmd_name cmd \<noteq> ''AOFREWRITE''" "mutation cmd"
    | (direct) "cmd_name cmd \<noteq> ''AOFREWRITE''" "\<not> mutation cmd" by blast
  then show ?thesis
  proof cases
    case direct
    with assms(3) obtain q e1 where q: "admitOrReject E J cmd e = Some (q, e1)"
      "e' = e1 \<or> (\<exists>v. apply_command U E cmd e1 = (v, e'))"
      by (auto simp: Execute_def run_admitted_def apfst_def map_prod_def split: option.splits sum.splits prod.splits)
    with admitOrReject_durable[OF q(1) assms(1,2)] apply_read_durable[OF assms(1) _ direct(2)] show ?thesis by blast
  qed (use assms(3) b durableD(2)[OF assms(2)] in
      \<open>auto simp: Execute_def enqueueAOFRewrite_def enqueue_def intro!: same split: if_splits prod.splits option.splits\<close>)
qed

end

subsection \<open>Active expiration\<close>

lemma fold_purge_dead:
  "(\<And>k e. k \<in> set ks \<Longrightarrow> m k = Some e \<Longrightarrow> expired now e) \<Longrightarrow> fold (purge now) ks m = m |` (- set ks)"
proof (induction ks arbitrary: m)
  case (Cons k ks)
  have "purge now k m = m(k := None)" using Cons.prems[of k] by (auto simp: purge_def split: option.splits)
  moreover have "fold (purge now) ks (m(k := None)) = (m(k := None)) |` (- set ks)"
    by (rule Cons.IH) (use Cons.prems in \<open>auto split: if_splits\<close>)
  moreover have "(m(k := None)) |` (- set ks) = m |` (- set (k # ks))" by (auto simp: restrict_map_def fun_eq_iff)
  ultimately show ?case by simp
qed (simp add: restrict_map_def)

lemma FilterExpired_dead:
  "k \<in> set (FilterExpired now ks s) \<Longrightarrow> abs_store s k = Some e \<Longrightarrow> expired now e"
  by (auto simp: FilterExpired_def abs_store_def lookup_def IsExpired_abs split: option.splits)

lemma delete_dead:
  assumes "store_inv s" "now \<le> later" "DeleteExpired later (FilterExpired now ks s) s = (n, s')"
  shows "store_inv s'" "abs_store s' = abs_store s |` (- set (FilterExpired now ks s))"
proof -
  have "fold (purge later) (FilterExpired now ks s) (abs_store s) = abs_store s |` (- set (FilterExpired now ks s))"
    by (rule fold_purge_dead) (rule expired_mono[OF FilterExpired_dead assms(2)])
  with DeleteExpired_refines[OF assms(1,3)] show "store_inv s'" "abs_store s' = abs_store s |` (- set (FilterExpired now ks s))"
    by auto
qed

lemma tracks_log [simp]: "tracks U now (log_fields p t s) h \<longleftrightarrow> tracks U now s h"
  by (simp add: tracks_def)

sublocale journal_contract \<subseteq> exp: expiry_callback
  "\<lambda>(j, s). \<exists>j'. j = Some j' \<and> journaled T j' s" "\<lambda>now st st'. True" "Some (journalAndDeleteExpired J)" for T
proof
  fix st :: "'j option \<times> Store" and clk ks r st'
  assume rm: "case st of (j, s) \<Rightarrow> \<exists>j'. j = Some j' \<and> journaled T j' s" "mono clk"
    "remove_expired (Some (journalAndDeleteExpired J)) clk ks st = (r, st')"
  obtain j s where st: "st = (Some j, s)" "journaled T j s" using rm(1) by auto
  let ?dead = "FilterExpired (clk 0) ks s"
  obtain err j' where a: "appendCommands J (deletions ?dead) (\<lambda>n. clk (n + 1)) j = (err, j')" by fastforce
  obtain n s' where d: "DeleteExpired (clk 22) ?dead s = (n, s')" by fastforce
  have "clk 0 \<le> clk 22" using rm(2) by (simp add: mono_def)
  note dd = delete_dead[OF journaled_inv[OF st(2)] this d]
  from append_deletions[OF st(2) a] dd st rm(3) a d show "case st' of (j, s) \<Rightarrow> \<exists>j'. j = Some j' \<and> journaled T j' s"
    by (auto simp: remove_expired_def journalAndDeleteExpired_def Let_def split: if_splits option.splits)
qed (auto simp: journaled_def dest: tracks_inv(1))

context journal_contract
begin

lemma ActiveExpire_durable:
  assumes "env_ok E" "durable E e" "ActiveExpire E J e = (n, e')"
  shows "durable E e'"
proof -
  obtain j where j: "ex_journal e = Some j" "journaled (clock E e 0) j (ex_store e)"
    using assms(2) unfolding durable_def by blast
  let ?T = "env_now E (Suc (ex_calls e)) 0"
  have mn: "mono (clock E e)" using env_ok_clock[OF assms(1)] by (simp add: clock_ok_def)
  obtain m j' s where c: "ActiveExpireCycleWith (clock E e) (env_rnd E (ex_calls e))
      (Some (journalAndDeleteExpired J)) (ex_journal e, ex_store e) = (m, j', s)" by (metis surj_pair)
  have "case (ex_journal e, ex_store e) of (j, s) \<Rightarrow> \<exists>j'. j = Some j' \<and> journaled ?T j' s"
    using j journaled_later[OF j(2) clock_next[OF assms(1)]] by simp
  from exp.cycle[OF mn this c] assms(3) c j(1) show ?thesis
    by (auto simp: ActiveExpire_def durable_def)
qed

subsubsection \<open>Rewriting\<close>

lemma start_durable:
  assumes "env_ok E" "durable E e" "startAOFRewriteNow E J e = (r, e')"
  shows "durable E e'"
proof -
  obtain j h h' where j: "ex_journal e = Some j" "recs j (commands h)" "pend j (commands h')"
    "tracks U (clock E e 0) (ex_store e) h" "tracks U (clock E e 0) (ex_store e) h'"
    using assms(2) unfolding durable_def journaled_def by blast
  let ?es = "snapshot_list (clock E e 0) (iteration E e) (ex_store e)"
  let ?T = "env_now E (Suc (ex_calls e)) 0"
  note late = tracks_later[OF _ clock_next[OF assms(1), of "ex_calls e" 0 0]]
  have snap: "tracks U ?T (ex_store e) (snapshot_history ?es)"
    by (rule tracks_snapshot[OF tracks_inv(1)[OF j(4)] tracks_inv(2)[OF j(4)] iteration_ok[OF assms(1) tracks_inv(1)[OF j(4)]] clock_next[OF assms(1)]])
  obtain err j' where s: "StartRewrite rw ?es j = (err, j')" by fastforce
  have "journaled ?T j' (ex_store e)"
  proof (cases err)
    case None
    with start_ok[OF j(2), of ?es j'] s have "recs j' (commands h)" "pend j' (commands (snapshot_history ?es))" by simp_all
    with late[OF j(4)] snap show ?thesis unfolding journaled_def by blast
  next
    case (Some t)
    with start_failed[OF j(2,3), of ?es t j'] s late[OF j(4)] late[OF j(5)] show ?thesis
      unfolding journaled_def by auto
  qed
  moreover have "iteration E (e\<lparr>rewriteStatus := a, rewriteError := b\<rparr>) = iteration E e" for a b
    by (simp add: iteration_def fun_eq_iff)
  then have "e' = e \<or> ex_journal e' = Some j' \<and> ex_store e' = ex_store e \<and> ex_calls e' = Suc (ex_calls e)"
    using assms(3) j(1) s
    by (cases err) (auto simp: startAOFRewriteNow_def SnapshotEntries_list rewriter setRewriteResult_def Let_def
        split: option.splits if_splits)
  ultimately show ?thesis using assms(2) by (auto simp: durable_def)
qed

lemma finish_durable:
  assumes "durable E e" "ex_journal e = Some j" "rewrite_ready rw j = Some msg"
  shows "durable E (finishAOFRewrite rw msg j e)"
proof -
  obtain h h' where j: "recs j (commands h)" "pend j (commands h')"
    "tracks U (clock E e 0) (ex_store e) h" "tracks U (clock E e 0) (ex_store e) h'"
    using assms(1,2) unfolding durable_def journaled_def by auto
  show ?thesis
  proof (cases msg)
    case None
    obtain r j' where c: "CompleteRewrite rw j = (r, j')" by fastforce
    have "journaled (clock E e 0) j' (ex_store e)"
      using completed[OF j(1,2) assms(3)[unfolded None] c] j(3,4) unfolding journaled_def by blast
    with None c show ?thesis
      by (cases r) (auto simp: finishAOFRewrite_def setRewriteResult_def durable_def Let_def)
  next
    case (Some err)
    obtain r j' where c: "AbortRewrite rw err j = (r, j')" by fastforce
    have "journaled (clock E e 0) j' (ex_store e)"
      using aborted[OF j(1) c] j(3,4) unfolding journaled_def by blast
    with Some c show ?thesis by (auto simp: finishAOFRewrite_def setRewriteResult_def durable_def)
  qed
qed

subsubsection \<open>The system\<close>

definition durable_system :: "env \<Rightarrow> 'j system \<Rightarrow> bool" where
  "durable_system E s \<longleftrightarrow> durable E (sys_ex s) \<and>
     (\<forall>i cmd. MutationRequest i cmd \<in> set (writeQueue (sys_ex s)) \<longrightarrow> mutation cmd)"

lemma durable_queue [simp]: "durable E (e\<lparr>writeQueue := q\<rparr>) = durable E e" "durable E (e\<lparr>dispatching := b\<rparr>) = durable E e"
  "durable E (setRewriteResult st err e) = durable E e"
  by (simp_all add: durable_def setRewriteResult_def)

lemma Execute_mutations:
  assumes "env_ok E" "durable E e" "Execute U E J cmd e = Some (r, e')" "MutationRequest i c \<in> set (writeQueue e')"
  shows "MutationRequest i c \<in> set (writeQueue e) \<or> mutation c"
proof -
  note inv = durableD(1)[OF assms(2)]
  have b: "batched J e" using durableD(2)[OF assms(2)] by (simp add: batched_def batches)
  show ?thesis
  proof (cases "cmd_name cmd \<noteq> ''AOFREWRITE'' \<and> \<not> mutation cmd")
    case True
    then have "run_admitted E J cmd (\<lambda>e. apfst Inr (apply_command U E cmd e)) e = Some (r, e')"
      using assms(3) by (simp add: Execute_def)
    then have "frame_inv e e'"
      by (rule run_admitted_frame[OF inv, rotated])
        (auto intro: frame_inv_chain apply_command_frame[OF frame_invD(1) assms(1)])
    with assms(4) show ?thesis by (simp add: frame_inv_def same_frame_def)
  next
    case False
    with assms(3,4) b durableD(2)[OF assms(2)] show ?thesis
      by (auto simp: Execute_def enqueueAOFRewrite_def enqueue_def split: if_splits)
  qed
qed

lemma durable_step:
  assumes "system_step U E J s s'" "env_ok E" "durable_system E s"
  shows "durable_system E s'"
proof -
  have d: "durable E (sys_ex s)" and q: "\<And>i cmd. MutationRequest i cmd \<in> set (writeQueue (sys_ex s)) \<Longrightarrow> mutation cmd"
    using assms(3) by (auto simp: durable_system_def)
  note inv = durableD(1)[OF d]
  from assms(1) show ?thesis
  proof cases
    case (client cmd r e)
    with Execute_durable[OF assms(2) d client(2)] Execute_mutations[OF assms(2) d client(2)] q show ?thesis
      unfolding durable_system_def by (simp, blast)
  next
    case (expire n e)
    with ActiveExpire_durable[OF assms(2) d expire(2)] ActiveExpire_inv(1)[OF inv assms(2) expire(2)] q show ?thesis
      by (auto simp: durable_system_def frame_inv_def same_frame_def)
  next
    case (commit b rest answers e)
    have "list_all (\<lambda>(i, cmd). mutation cmd) b" using q commit(3) by (force simp: list_all_iff)
    with commit_durable[OF assms(2) _ _ commit(6)] d have "durable E e" by simp
    moreover have "writeQueue e = rest"
      using commitMutationBatch_returns[of "(sys_ex s)\<lparr>writeQueue := rest\<rparr>" E U J b] inv assms(2) durableD(2)[OF d] commit(6)
      by (auto simp: frame_inv_def same_frame_def)
    ultimately show ?thesis using q commit(1,3) by (auto simp: durable_system_def)
  next
    case (rewrite i rest r e)
    have "durable E e" using start_durable[OF assms(2) _ rewrite(4)] d by simp
    moreover have "writeQueue e = rest" using startAOFRewriteNow_store(2)[OF rewrite(4)] by simp
    ultimately show ?thesis using q rewrite(1,3) by (auto simp: durable_system_def)
  next
    case (finish rw' j msg)
    have "durable E (finishAOFRewrite rw' msg j (sys_ex s))"
      using finish_durable[OF d finish(4)] finish(3,5) rewriter by simp
    moreover have "writeQueue (finishAOFRewrite rw' msg j (sys_ex s)) = writeQueue (sys_ex s)"
      by (auto simp: finishAOFRewrite_def setRewriteResult_def Let_def split: option.splits prod.splits)
    ultimately show ?thesis using q finish(1) by (auto simp: durable_system_def)
  next
    case (report err errs)
    have "writeQueue (setRewriteResult st er e) = writeQueue e" for st er and e :: "'j Executor"
      by (simp add: setRewriteResult_def)
    with d q report(1) show ?thesis by (auto simp: durable_system_def)
  qed (use d q in \<open>auto simp: durable_system_def\<close>)
qed

lemma durable_run:
  "(system_step U E J)\<^sup>*\<^sup>* s s' \<Longrightarrow> env_ok E \<Longrightarrow> durable_system E s \<Longrightarrow> durable_system E s'"
  by (induction rule: rtranclp_induct) (auto intro: durable_step)

end

end
