(* ===== verification/AofJournal.thy ===== *)
theory AofJournal
  imports JournalContract
begin

text \<open>
  The append-only file fulfils the contract of a journal: the interpretation \<open>aof\<close> of
  \<open>journal_contract\<close> on the operations of the log. The commands on record are the records
  in the file; a failed append may leave a part of its batch behind them, and then the log
  is marked as failed.
\<close>

subsection \<open>What is in the files\<close>

definition log_recs :: "unicode \<Rightarrow> Log \<Rightarrow> Command list \<Rightarrow> bool" where
  "log_recs U l cs \<longleftrightarrow> log_inv l \<and> list_all (canonical U) cs \<and>
     (l_failed l = None \<longrightarrow> f_data (l_file l) = records cs) \<and>
     (\<exists>ds n. list_all (canonical U) ds \<and> f_data (l_file l) = records cs @ take n (records ds))"

definition job_pend :: "unicode \<Rightarrow> rewriteJob \<Rightarrow> Command list \<Rightarrow> bool" where
  "job_pend U job ds \<longleftrightarrow> (job_ready job = None \<and> job_deltaErr job = None \<longrightarrow>
     (\<exists>snap delta. ds = snap @ delta \<and> list_all (canonical U) ds \<and>
        fil.holds (records snap) (job_temp job) \<and> fil.holds (records delta) (job_delta job)))"

definition log_pend :: "unicode \<Rightarrow> Log \<Rightarrow> Command list \<Rightarrow> bool" where
  "log_pend U l ds \<longleftrightarrow> (\<forall>job. l_rewrite l = Some job \<longrightarrow> job_pend U job ds)"

lemma snapshot_canonical: "list_all (canonical U) (snapshot_commands en)"
proof -
  have "absolute_command U ''SET'' ([k, v] @ (if b then [] else [''PXAT'', ms]))" for k v b ms
    by (auto simp: absolute_command_def ToUpper_PXAT split: option.splits)
  moreover have "absolute_command U ''RPUSH'' args" "absolute_command U ''PEXPIREAT'' args" for args
    by (simp_all add: absolute_command_def)
  ultimately show ?thesis
    by (cases "se_kind en") (auto simp: snapshot_commands_def canonical_def list_all_iff IsMutation_def)
qed

lemma snapshots_canonical: "list_all (canonical U) (concat (map snapshot_commands es))"
  by (induction es) (simp_all add: snapshot_canonical)

lemma batch_canonical: "list_all (canonical U) (valid_commands (canonical_batch U clk cmds))"
  using canonical_absolute by (fastforce simp: list_all_iff valid_commands_def canonical_batch_def canonical_def split: option.splits)

subsection \<open>Appending\<close>

lemma rollback_rewrite: "rollback offset cause l = (t, l') \<Longrightarrow> l_rewrite l' = l_rewrite l"
  using rollback_shape by fastforce

lemma finish_batch_rewrite:
  assumes "finish_batch offset cmds l = (r, l')"
  shows "l_rewrite l' = (if r = None then l_rewrite (write_delta cmds l) else l_rewrite l)"
  using assms
  by (auto simp: finish_batch_def write_delta_def Let_def apfst_def map_prod_def
      split: prod.splits option.splits if_splits dest!: rollback_rewrite)

lemma append_rewrite:
  assumes "log_AppendBatch U clk cmds l = (r, l')"
  shows "l_rewrite l' = (if isl r then l_rewrite l else
    if cmds = [] then l_rewrite l else l_rewrite (write_delta (valid_commands (canonical_batch U clk cmds)) l))"
  using assms
  by (auto simp: log_AppendBatch_def write_delta_def Let_def apfst_def map_prod_def
      split: prod.splits option.splits if_splits dest!: rollback_rewrite finish_batch_rewrite)

lemma write_delta_pend:
  assumes "log_pend U l ds" "list_all (canonical U) cmds"
    "l_rewrite l' = l_rewrite (write_delta cmds l)"
  shows "log_pend U l' (ds @ cmds)"
proof (cases "l_rewrite l")
  case None
  with assms(3) show ?thesis by (simp add: log_pend_def write_delta_def)
next
  case (Some job)
  obtain r w where w: "writeRecords cmds (job_delta job) = (r, w)" by fastforce
  show ?thesis
  proof (cases "job_ready job = None \<and> job_deltaErr job = None \<and> r = None")
    case True
    with assms(1) Some obtain snap delta where d: "ds = snap @ delta" "list_all (canonical U) ds"
      "fil.holds (records snap) (job_temp job)" "fil.holds (records delta) (job_delta job)"
      by (auto simp: log_pend_def job_pend_def)
    with writeRecords_recorded[OF d(4), of cmds] w True have "fil.holds (records (delta @ cmds)) w" by (simp add: recorded_def)
    with d assms(2) show ?thesis using assms(3) Some w True
      by (simp add: log_pend_def job_pend_def write_delta_def Let_def)
        (intro exI[of _ snap] exI[of _ "delta @ cmds"], simp)
  qed (use assms(3) Some w in \<open>auto simp: log_pend_def job_pend_def write_delta_def Let_def split: if_splits\<close>)
qed

lemma append_ok:
  assumes "log_recs U l cs" "log_pend U l ds" "log_AppendBatch U clk cmds l = (Inr ps, l')"
  defines "new \<equiv> valid_commands (canonical_batch U clk cmds)"
  shows "ps = map fst (canonical_batch U clk cmds)" "log_recs U l' (cs @ new)" "log_pend U l' (ds @ new)"
proof -
  have inv: "log_inv l" using assms(1) by (simp add: log_recs_def)
  note a = log_AppendBatch_correct[OF inv assms(3), folded new_def, simplified]
  then show "ps = map fst (canonical_batch U clk cmds)" by simp
  have "f_data (l_file l') = records (cs @ new)" using a assms(1) by (simp add: appended_def log_recs_def)
  then have "f_data (l_file l') = records (cs @ new) @ take 0 (records [])" by simp
  with a assms(1) batch_canonical[of U clk cmds, folded new_def] show "log_recs U l' (cs @ new)"
    unfolding log_recs_def by (auto simp: appended_def simp del: take_0)
  show "log_pend U l' (ds @ new)"
  proof (cases "cmds = []")
    case True
    with append_rewrite[OF assms(3)] assms(2) show ?thesis
      by (simp add: log_pend_def new_def canonical_batch_def)
  next
    case False
    with append_rewrite[OF assms(3)] show ?thesis
      by (intro write_delta_pend[OF assms(2)]) (simp_all add: batch_canonical new_def)
  qed
qed

lemma append_failed:
  assumes "log_recs U l cs" "log_pend U l ds" "log_AppendBatch U clk cmds l = (Inl err, l')"
  shows "log_recs U l' cs" "log_pend U l' ds"
proof -
  have inv: "log_inv l" using assms(1) by (simp add: log_recs_def)
  let ?new = "valid_commands (canonical_batch U clk cmds)"
  show "log_pend U l' ds" using append_rewrite[OF assms(3)] assms(2) by (simp add: log_pend_def)
  show "log_recs U l' cs"
  proof (cases "l' = l")
    case False
    then have ok: "\<not> l_closed l \<and> \<not> l_closing l \<and> l_failed l = None"
      using assms(3) by (cases "l_failed l") (auto simp: log_AppendBatch_def Let_def split: if_splits)
    with log_AppendBatch_correct[OF inv assms(3)] False obtain n where
      "l_failed l' \<noteq> None" "f_synced (l_file l') \<le> length (f_data (l_file l'))"
      "f_data (l_file l') = f_data (l_file l) @ take n (records ?new)" by (auto simp: partial_def)
    moreover have "f_data (l_file l) = records cs" "list_all (canonical U) cs" using assms(1) ok by (simp_all add: log_recs_def)
    ultimately show ?thesis using batch_canonical[of U clk cmds] by (auto simp: log_recs_def log_inv_def)
  qed (use assms(1) in simp)
qed

subsection \<open>Rewriting\<close>

text \<open>Calls on the directory and on files that are not the log only count.\<close>

definition calls_only :: "Log \<Rightarrow> Log \<Rightarrow> bool" where
  "calls_only l l' \<longleftrightarrow> l'\<lparr>l_calls := 0, l_files := 0\<rparr> = l\<lparr>l_calls := 0, l_files := 0\<rparr>"

lemma calls_only_refl [simp]: "calls_only l l"
  by (simp add: calls_only_def)

lemma calls_only_trans: "calls_only l l' \<Longrightarrow> calls_only l' l'' \<Longrightarrow> calls_only l l''"
  by (auto simp: calls_only_def)

lemma calls_only_dir: "calls_only l (snd (dir_call l))"
  by (simp add: calls_only_def dir_call_def)

lemma calls_only_create: "calls_only l (snd (CreateTemp l))"
  by (simp add: calls_only_def CreateTemp_def dir_call_def split: option.splits)

lemma calls_only_dirs:
  "dir_call l = (r, l') \<Longrightarrow> calls_only l l'" "CreateTemp l = (q, l') \<Longrightarrow> calls_only l l'"
  using calls_only_dir[of l] calls_only_create[of l] by simp_all

lemma calls_only_remove: "removeRewriteFile l = (r, l') \<Longrightarrow> calls_only l l'"
  by (auto simp: removeRewriteFile_def split: prod.splits intro: calls_only_dirs)

lemma calls_only_cleanup: "cleanupRewriteLocked a b l = (r, l') \<Longrightarrow> calls_only l l'"
  by (auto simp: cleanupRewriteLocked_def Let_def split: prod.splits if_splits
      dest!: calls_only_dirs(1) calls_only_remove elim!: calls_only_trans)

lemma calls_only_abandon: "abandon_temp err l = (r, l') \<Longrightarrow> calls_only l l' \<and> r \<noteq> None"
  by (auto simp: abandon_temp_def Let_def join_errors_def split: prod.splits dest!: calls_only_dirs(1) elim!: calls_only_trans)

lemma calls_only_fields:
  assumes "calls_only l l'"
  shows "l_writer l' = l_writer l" "l_failed l' = l_failed l" "l_rewrite l' = l_rewrite l" "l_closed l' = l_closed l"
    "l_closing l' = l_closing l" "l_policy l' = l_policy l"
  using arg_cong[OF assms[unfolded calls_only_def], of l_writer] arg_cong[OF assms[unfolded calls_only_def], of l_failed]
    arg_cong[OF assms[unfolded calls_only_def], of l_rewrite] arg_cong[OF assms[unfolded calls_only_def], of l_closed]
    arg_cong[OF assms[unfolded calls_only_def], of l_closing] arg_cong[OF assms[unfolded calls_only_def], of l_policy]
  by simp_all

lemma log_recs_fields: "l_writer l' = l_writer l \<Longrightarrow> l_failed l' = l_failed l \<Longrightarrow> log_recs U l' cs = log_recs U l cs"
  by (simp add: log_recs_def log_inv_def)

lemma log_pend_fields: "l_rewrite l' = l_rewrite l \<Longrightarrow> log_pend U l' ds = log_pend U l ds"
  by (simp add: log_pend_def)

lemma write_snapshot_recorded:
  "fil.holds t w \<Longrightarrow> write_snapshot es w = (None, w') \<Longrightarrow> fil.holds (t @ records (concat (map snapshot_commands es))) w'"
proof (induction es arbitrary: t w)
  case Nil
  then show ?case using fil.flush_holds(1)[of t w] by (cases "Flush file_write w") auto
next
  case (Cons en es)
  obtain r w1 where w: "writeRecords (snapshot_commands en) w = (r, w1)" by fastforce
  with Cons.prems(2) have "r = None" "write_snapshot es w1 = (None, w')"
    by (auto simp: writeSnapshotEntry_def split: option.splits)
  with Cons.IH[of "t @ records (snapshot_commands en)" w1] writeRecords_recorded[OF Cons.prems(1), of "snapshot_commands en"] w
  show ?case by (simp add: recorded_def)
qed

definition fresh_file :: "osfile \<Rightarrow> bool" where
  "fresh_file f \<longleftrightarrow> f_data f = [] \<and> f_pos f = 0"

lemma start_job_pend:
  assumes "fresh_file temp" "fresh_file delta"
  shows "job_pend U (start_job es temp delta) (concat (map snapshot_commands es))"
proof -
  have h: "fil.holds [] (NewWriterSize f n)" if "fresh_file f" for f n
    using that by (simp add: fil.holds_def fresh_file_def at_end_def NewWriterSize_def)
  obtain msg w where w: "write_snapshot es (NewWriterSize temp 65536) = (msg, w)" by fastforce
  show ?thesis
    using write_snapshot_recorded[OF h[OF assms(1)], of es 65536] w h[OF assms(2), of 65536] snapshots_canonical[of U es]
    by (simp add: job_pend_def start_job_def)
      (intro impI exI[of _ "concat (map snapshot_commands es)"] exI[of _ "[]"], simp)
qed

lemma CreateTemp_fresh: "CreateTemp l = (Inr f, l') \<Longrightarrow> fresh_file f"
  by (auto simp: CreateTemp_def fresh_file_def split: prod.splits option.splits)

lemma StartRewrite_shape:
  assumes "log_StartRewrite es l = (r, l')"
  shows "case r of
      Some _ \<Rightarrow> calls_only l l'
    | None \<Rightarrow> l_rewrite l = None \<and> (\<exists>l1 temp delta. calls_only l l1 \<and> fresh_file temp \<and> fresh_file delta \<and>
        l' = l1\<lparr>l_rewrite := Some (start_job es temp delta)\<rparr>)"
proof (cases "l_closed l \<or> l_closing l \<or> l_failed l \<noteq> None \<or> l_rewrite l \<noteq> None")
  case True
  then show ?thesis using assms by (cases "l_failed l") (auto simp: log_StartRewrite_def split: if_splits)
next
  case False
  obtain q1 l1 where 1: "CreateTemp l = (q1, l1)" by fastforce
  obtain r2 l2 where 2: "dir_call l1 = (r2, l2)" by fastforce
  obtain r3 l3 where 3: "dir_call l2 = (r3, l3)" by fastforce
  obtain q4 l4 where 4: "CreateTemp l3 = (q4, l4)" by fastforce
  obtain r5 l5 where 5: "dir_call l4 = (r5, l5)" by fastforce
  note c1 = calls_only_dirs(2)[OF 1]
  note c2 = calls_only_trans[OF c1 calls_only_dirs(1)[OF 2]]
  note c3 = calls_only_trans[OF c2 calls_only_dirs(1)[OF 3]]
  note c4 = calls_only_trans[OF c3 calls_only_dirs(2)[OF 4]]
  note c5 = calls_only_trans[OF c4 calls_only_dirs(1)[OF 5]]
  have ab: "r \<noteq> None \<and> calls_only l l'" if "abandon_temp t x = (r, l')" "calls_only l x" for t x
    using calls_only_abandon[OF that(1)] calls_only_trans[OF that(2)] by blast
  note d = calls_only_trans[OF _ calls_only_dir]
  have run:
    "log_StartRewrite es l =
      (case q1 of Inl err \<Rightarrow> (Some (''create AOF rewrite file: '' @ err), l1) | Inr temp \<Rightarrow>
      (case r2 of Some err \<Rightarrow> abandon_temp (''set AOF rewrite file permissions: '' @ err) l2 | None \<Rightarrow>
      (case r3 of Some err \<Rightarrow> abandon_temp (''lock AOF rewrite file: '' @ err) l3 | None \<Rightarrow>
      (case q4 of Inl err \<Rightarrow> abandon_temp (''create AOF rewrite delta: '' @ err) (snd (dir_call l4)) | Inr delta \<Rightarrow>
      (case r5 of
         Some err \<Rightarrow> abandon_temp (''set AOF rewrite delta permissions: '' @ err) (snd (dir_call (snd (dir_call (snd (dir_call l5))))))
       | None \<Rightarrow> (None, l5\<lparr>l_rewrite := Some (start_job es temp delta)\<rparr>))))))"
    using False by (simp add: log_StartRewrite_def 1 2 3 4 5 cong: sum.case_cong option.case_cong)
  show ?thesis
  proof (cases "\<exists>temp delta. q1 = Inr temp \<and> r2 = None \<and> r3 = None \<and> q4 = Inr delta \<and> r5 = None")
    case True
    then obtain temp delta where q: "q1 = Inr temp" "q4 = Inr delta" "r = None"
      "l' = l5\<lparr>l_rewrite := Some (start_job es temp delta)\<rparr>"
      using assms run by auto
    with c5 CreateTemp_fresh[OF 1[unfolded q]] CreateTemp_fresh[OF 4[unfolded q]] have "\<exists>l1 temp delta. calls_only l l1 \<and>
        fresh_file temp \<and> fresh_file delta \<and> l' = l1\<lparr>l_rewrite := Some (start_job es temp delta)\<rparr>" by blast
    with False q(3) show ?thesis by simp
  next
    case fail: False
    have "r \<noteq> None \<and> calls_only l l'"
    proof (cases q1)
      case (Inr temp)
      note run' = assms[unfolded run Inr sum.case]
      consider "r2 \<noteq> None" | "r2 = None" "r3 \<noteq> None" | "r2 = None" "r3 = None" "isl q4"
        | "r2 = None" "r3 = None" "\<not> isl q4" "r5 \<noteq> None"
        using fail Inr by (cases q4) auto
      then show ?thesis
        using run' ab[OF _ c2] ab[OF _ c3] ab[OF _ d[OF c4]] ab[OF _ d[OF d[OF d[OF c5]]]]
        by cases (auto split: option.splits sum.splits)
    qed (use assms run c1 in auto)
    then show ?thesis by auto
  qed
qed

lemma start_rewrite_ok:
  assumes "log_recs U l cs" "log_StartRewrite es l = (None, l')"
  shows "log_recs U l' cs" "log_pend U l' (concat (map snapshot_commands es))"
proof -
  obtain l1 temp delta where s: "calls_only l l1" "fresh_file temp" "fresh_file delta"
    "l' = l1\<lparr>l_rewrite := Some (start_job es temp delta)\<rparr>"
    using StartRewrite_shape[OF assms(2)] by auto
  with assms(1) log_recs_fields[of l' l] calls_only_fields[OF s(1)] show "log_recs U l' cs" by simp
  from s(4) start_job_pend[OF s(2,3)] show "log_pend U l' (concat (map snapshot_commands es))" by (simp add: log_pend_def)
qed

lemma start_rewrite_failed:
  assumes "log_recs U l cs" "log_pend U l ds" "log_StartRewrite es l = (Some err, l')"
  shows "log_recs U l' cs" "log_pend U l' ds"
proof -
  have "calls_only l l'" using StartRewrite_shape[OF assms(3)] by simp
  from calls_only_fields[OF this] assms(1,2) show "log_recs U l' cs" "log_pend U l' ds"
    by (simp_all add: log_recs_fields[of l' l] log_pend_fields[of l' l])
qed

lemma abort_rewrite:
  assumes "log_recs U l cs" "log_AbortRewrite cause l = (r, l')"
  shows "log_recs U l' cs" "l_rewrite l' = None"
proof -
  have "l' = l \<and> l_rewrite l = None \<or> calls_only (l\<lparr>l_rewrite := None\<rparr>) l'"
    using assms(2) calls_only_cleanup[of True True "l\<lparr>l_rewrite := None\<rparr>"]
    by (auto simp: log_AbortRewrite_def split: option.splits prod.splits)
  then have "l_writer l' = l_writer l" "l_failed l' = l_failed l" "l_rewrite l' = None"
    using calls_only_fields[of "l\<lparr>l_rewrite := None\<rparr>" l'] by auto
  with assms(1) show "log_recs U l' cs" "l_rewrite l' = None" by (simp_all add: log_recs_fields[of l' l])
qed

lemma assemble_correct:
  assumes "fil.holds s (job_temp job)" "fil.holds d (job_delta job)" "assemble job = Inr f"
  shows "f_data f = s @ d" "f_pos f = length (s @ d)" "f_synced f = length (s @ d)"
proof -
  obtain r1 w1 where 1: "Flush file_write (job_delta job) = (r1, w1)" by fastforce
  with assms(3) have "r1 = None" by (auto simp: assemble_def split: option.splits)
  with 1 fil.flush_holds[OF assms(2)] have w1: "f_data (bw_out w1) = d" by simp
  obtain r2 f2 where 2: "file_seek 0 (bw_out w1) = (r2, f2)" by fastforce
  with w1 have f2: "f_data f2 = d"
    using file_call_cases[OF 2[unfolded file_seek_def]] by (cases r2) auto
  obtain r3 w3 where 3: "bufio_write file_write (f_data f2) (job_temp job) = (r3, w3)" by fastforce
  obtain r4 w4 where 4: "Flush file_write w3 = (r4, w4)" by fastforce
  obtain r5 f5 where 5: "file_sync (bw_out w4) = (r5, f5)" by fastforce
  note run = assms(3)[unfolded assemble_def 1 \<open>r1 = None\<close> prod.case option.case 2]
  have r: "r3 = None" "r4 = None" "r5 = None" "f = f5"
    using run 3 4 5 by (auto split: option.splits prod.splits)
  have "fil.holds (s @ d) w3" using fil.write_written[OF assms(1), of d] 3 f2 r(1) by (simp add: fil.written_def)
  with fil.flush_holds[of "s @ d" w3 w4] 4 r(2) have "fil.holds (s @ d) w4" "f_data (bw_out w4) = s @ d" by auto
  with file_sync_None[OF 5[unfolded r(3)]] r(4) show "f_data f = s @ d" "f_pos f = length (s @ d)" "f_synced f = length (s @ d)"
    by (auto simp: fil.holds_def at_end_def)
qed

lemma install_shape:
  assumes "install f l = (r, l')"
  shows "l_writer l' = NewWriterSize f 4096"
proof -
  let ?l0 = "l\<lparr>l_writer := NewWriterSize f 4096\<rparr>"
  obtain e1 l1 where 1: "dir_call ?l0 = (e1, l1)" by fastforce
  let ?l1 = "case e1 of Some t \<Rightarrow> l1\<lparr>l_failed := Some (''sync AOF directory after replacement: '' @ t)\<rparr> | None \<Rightarrow> l1"
  obtain e2 l2 where 2: "dir_call ?l1 = (e2, l2)" by fastforce
  obtain e3 l3 where 3: "dir_call l2 = (e3, l3)" by fastforce
  obtain e4 l4 where 4: "dir_call l3 = (e4, l4)" by fastforce
  obtain e5 l5 where 5: "dir_call l4 = (e5, l5)" by fastforce
  have "l' = l5" using assms by (simp add: install_def 1 2 3 4 5)
  moreover have "calls_only ?l1 l5"
    by (rule calls_only_trans[OF calls_only_trans[OF calls_only_trans]])
      (rule calls_only_dirs(1)[OF 2] calls_only_dirs(1)[OF 3] calls_only_dirs(1)[OF 4] calls_only_dirs(1)[OF 5])+
  moreover have "l_writer ?l1 = l_writer l1" by (simp split: option.splits)
  ultimately show ?thesis using calls_only_fields(1)[OF calls_only_dirs(1)[OF 1]] calls_only_fields(1) by simp
qed

lemma end_rewrite_shape:
  assumes "end_rewrite b (e, l) = (r, l')"
  shows "l_rewrite l' = None" "l_writer l' = l_writer l" "l_failed l' = l_failed l"
proof -
  obtain e' l1 where c: "cleanupRewriteLocked (\<not> b) (\<not> b) l = (e', l1)" by fastforce
  have "l' = l\<lparr>l_rewrite := None\<rparr> \<or> l' = l1\<lparr>l_rewrite := None\<rparr>"
    using assms c by (cases e) (auto simp: end_rewrite_def)
  with calls_only_fields[OF calls_only_cleanup[OF c]] show
    "l_rewrite l' = None" "l_writer l' = l_writer l" "l_failed l' = l_failed l"
    by auto
qed

lemma end_rewrite_error: "end_rewrite b (Some err, l) = (r, l') \<Longrightarrow> r \<noteq> None"
  by (auto simp: end_rewrite_def join_errors_def split: prod.splits)

text \<open>A rewrite either keeps the writer of the log or replaces it by one at the end of the new file.\<close>

definition replaced :: "unicode \<Rightarrow> Command list \<Rightarrow> Log \<Rightarrow> bool" where
  "replaced U ds l \<longleftrightarrow> list_all (canonical U) ds \<and> (\<exists>f. l_writer l = NewWriterSize f 4096 \<and> f_data f = records ds \<and>
     f_pos f = length (records ds) \<and> f_synced f = length (records ds))"

lemma complete_rewrite_file:
  assumes "log_recs U l cs" "log_pend U l ds" "l_rewrite l = Some job" "job_ready job = None"
    "log_CompleteRewrite l = (r, l')"
  shows "l_rewrite l' = None" "r \<noteq> None \<and> l_writer l' = l_writer l \<and> l_failed l' = l_failed l \<or> replaced U ds l'"
proof -
  have "l_rewrite l' = None \<and> (r \<noteq> None \<and> l_writer l' = l_writer l \<and> l_failed l' = l_failed l \<or> replaced U ds l')"
  proof (cases "l_closed l \<or> l_failed l \<noteq> None \<or> job_deltaErr job \<noteq> None")
    case True
    then obtain t where "end_rewrite False (Some t, l) = (r, l')"
      using assms(3,5) by (auto simp: log_CompleteRewrite_def split: if_splits option.splits)
    with end_rewrite_shape end_rewrite_error show ?thesis by auto
  next
    case False
    have w: "Flush file_write (l_writer l) = (None, l_writer l)"
      using assms(1) False by (simp add: log_recs_def log_inv_def fil.holds_def Flush_def)
    have h: "list_all (canonical U) ds" and "\<exists>snap delta. ds = snap @ delta \<and>
        fil.holds (records snap) (job_temp job) \<and> fil.holds (records delta) (job_delta job)"
      using assms(2-4) False by (auto simp: log_pend_def job_pend_def)
    then obtain snap delta where sd: "ds = snap @ delta"
      "fil.holds (records snap) (job_temp job)" "fil.holds (records delta) (job_delta job)" by blast
    have run: "log_CompleteRewrite l = (case assemble job of
          Inl err \<Rightarrow> end_rewrite False (Some err, l)
        | Inr f \<Rightarrow>
            (case dir_call l of
               (Some err, l) \<Rightarrow> end_rewrite False (Some (''atomically replace AOF: '' @ err), l)
             | (None, l) \<Rightarrow> end_rewrite True (install f l)))"
      using False assms(3) w by (simp add: log_CompleteRewrite_def)
    show ?thesis
    proof (cases "assemble job")
      case (Inl err)
      with run assms(5) have "end_rewrite False (Some err, l) = (r, l')" by simp
      from end_rewrite_shape[OF this] end_rewrite_error[OF this] show ?thesis by simp
    next
      case (Inr f)
      obtain e1 l1 where d: "dir_call l = (e1, l1)" by fastforce
      note l1 = calls_only_fields[OF calls_only_dirs(1)[OF d]]
      show ?thesis
      proof (cases e1)
        case (Some err)
        with run assms(5) Inr d have "end_rewrite False (Some (''atomically replace AOF: '' @ err), l1) = (r, l')" by simp
        from end_rewrite_shape[OF this] end_rewrite_error[OF this] l1 show ?thesis by simp
      next
        case None
        obtain e2 l2 where i: "install f l1 = (e2, l2)" by fastforce
        with run assms(5) Inr d None have e: "end_rewrite True (e2, l2) = (r, l')" by simp
        have "l_writer l' = NewWriterSize f 4096" using end_rewrite_shape[OF e] install_shape[OF i] by simp
        with assemble_correct[OF sd(2,3) Inr] h sd(1) have "replaced U ds l'" by (auto simp: replaced_def)
        with end_rewrite_shape[OF e] show ?thesis by simp
      qed
    qed
  qed
  then show "l_rewrite l' = None" "r \<noteq> None \<and> l_writer l' = l_writer l \<and> l_failed l' = l_failed l \<or> replaced U ds l'"
    by simp_all
qed

lemma replaced_recs: "replaced U ds l \<Longrightarrow> log_recs U l ds"
  by (auto simp: replaced_def log_recs_def log_inv_def fil.holds_def at_end_def NewWriterSize_def intro!: exI[of _ "[]"])

lemma complete_rewrite:
  assumes "log_recs U l cs" "log_pend U l ds" "l_rewrite l = Some job" "job_ready job = None"
    "log_CompleteRewrite l = (r, l')"
  shows "l_rewrite l' = None" "log_recs U l' cs \<or> log_recs U l' ds"
  using complete_rewrite_file[OF assms] replaced_recs[of U ds l'] log_recs_fields[of l' l U cs] assms(1) by auto

abbreviation log_rewriter :: "Log async_rewriter" where
  "log_rewriter \<equiv> \<lparr>StartRewrite = log_StartRewrite, rewrite_ready = (\<lambda>l. map_option job_ready (l_rewrite l)),
     CompleteRewrite = log_CompleteRewrite, AbortRewrite = log_AbortRewrite\<rparr>"

interpretation aof: journal_contract U "log_ops U" "log_AppendBatch U" log_rewriter "log_recs U" "log_pend U" for U
proof
  fix l cs ds r l' ds'
  assume a: "log_recs U l cs" "log_pend U l ds" "rewrite_ready log_rewriter l = Some None"
    "CompleteRewrite log_rewriter l = (r, l')"
  then obtain job where "l_rewrite l = Some job" "job_ready job = None" "log_CompleteRewrite l = (r, l')" by auto
  from complete_rewrite[OF a(1,2) this] show "(log_recs U l' cs \<or> log_recs U l' ds) \<and> log_pend U l' ds'"
    by (simp add: log_pend_def)
next
  fix l cs cause r l' ds'
  assume "log_recs U l cs" "AbortRewrite log_rewriter cause l = (r, l')"
  with abort_rewrite[of U l cs] show "log_recs U l' cs \<and> log_pend U l' ds'" by (auto simp: log_pend_def)
next
  fix l cs ds clk cmds ps l'
  assume a: "log_recs U l cs" "log_pend U l ds" "log_AppendBatch U clk cmds l = (Inr ps, l')"
  show "ps = map fst (canonical_batch U clk cmds) \<and> log_recs U l' (cs @ valid_commands (canonical_batch U clk cmds)) \<and>
      log_pend U l' (ds @ valid_commands (canonical_batch U clk cmds))"
    by (intro conjI append_ok[OF a])
next
  fix l cs ds clk cmds err l'
  assume a: "log_recs U l cs" "log_pend U l ds" "log_AppendBatch U clk cmds l = (Inl err, l')"
  show "log_recs U l' cs \<and> log_pend U l' ds" by (intro conjI append_failed[OF a])
next
  fix l cs es l'
  assume a: "log_recs U l cs" "StartRewrite log_rewriter es l = (None, l')"
  then have "log_StartRewrite es l = (None, l')" by simp
  with a(1) start_rewrite_ok show "log_recs U l' cs \<and> log_pend U l' (concat (map snapshot_commands es))" by blast
next
  fix l cs ds es err l'
  assume a: "log_recs U l cs" "log_pend U l ds" "StartRewrite log_rewriter es l = (Some err, l')"
  then have "log_StartRewrite es l = (Some err, l')" by simp
  with a(1,2) start_rewrite_failed show "log_recs U l' cs \<and> log_pend U l' ds" by blast
qed (simp_all add: log_ops_def)

end
