(* ===== verification/Config.thy ===== *)
theory Config
  imports GoStd
begin

text \<open>
  The settings of \<open>internal/config/config.go\<close>: defaults, validation, host names and sizes.
  \<open>ParseIP\<close> of the package \<open>net\<close> is written out for both address families. Errors are
  their texts.
\<close>

subsection \<open>IP addresses\<close>

text \<open>The fields of a dotted address: the value and the number of digits of the current one.\<close>

fun ipv4_fields :: "string \<Rightarrow> nat \<Rightarrow> nat \<Rightarrow> nat list \<Rightarrow> nat list option" where
  "ipv4_fields [] val digits octets =
     (if length octets < 3 then None else Some (octets @ [val]))"
| "ipv4_fields (c # cs) val digits octets =
     (if is_digit c then
        if digits = 1 \<and> val = 0 then None
        else let val = val * 10 + (of_char c - 48)
             in if val > 255 then None else ipv4_fields cs val (digits + 1) octets
      else if c = CHR ''.'' then
        if digits = 0 \<or> cs = [] \<or> length octets = 3 then None
        else ipv4_fields cs 0 0 (octets @ [val])
      else None)"

definition hex_value :: "char \<Rightarrow> nat option" where
  "hex_value c =
     (let n = (of_char c :: nat)
      in if 48 \<le> n \<and> n \<le> 57 then Some (n - 48) else if 97 \<le> n \<and> n \<le> 102 then Some (n - 87)
         else if 65 \<le> n \<and> n \<le> 70 then Some (n - 55) else None)"

text \<open>A group of at most four hexadecimal digits and what follows it.\<close>

fun hex_group :: "string \<Rightarrow> nat \<Rightarrow> nat \<Rightarrow> (nat \<times> nat \<times> string) option" where
  "hex_group [] acc off = Some (acc, off, [])"
| "hex_group (c # cs) acc off =
     (case hex_value c of
        None \<Rightarrow> Some (acc, off, c # cs)
      | Some v \<Rightarrow> if off > 3 then None else hex_group cs (acc * 16 + v) (off + 1))"

text \<open>
  The loop over the colon-separated groups. The result is the bytes read, the position of
  the ellipsis and the rest of the text.
\<close>

function ipv6_groups :: "string \<Rightarrow> nat list \<Rightarrow> nat option \<Rightarrow> (nat list \<times> nat option \<times> string) option" where
  "ipv6_groups s ip ellipsis =
     (if length ip \<ge> 16 then Some (ip, ellipsis, s)
      else case hex_group s 0 0 of
        None \<Rightarrow> None
      | Some (acc, off, rest) \<Rightarrow>
          if off = 0 then None
          else if rest \<noteq> [] \<and> hd rest = CHR ''.'' then
            if ellipsis = None \<and> length ip \<noteq> 12 then None
            else if length ip + 4 > 16 then None
            else map_option (\<lambda>v4. (ip @ v4, ellipsis, [])) (ipv4_fields s 0 0 [])
          else
            let ip = ip @ [acc div 256, acc mod 256]
            in case rest of
                 [] \<Rightarrow> Some (ip, ellipsis, [])
               | c # cs \<Rightarrow>
                   if c \<noteq> CHR '':'' then None
                   else (case cs of
                           [] \<Rightarrow> None
                         | c # cs' \<Rightarrow>
                             if c = CHR '':'' then
                               if ellipsis \<noteq> None then None
                               else if cs' = [] then Some (ip, Some (length ip), [])
                               else ipv6_groups cs' ip (Some (length ip))
                             else ipv6_groups cs ip ellipsis))"
  by pat_completeness auto
termination
  by (relation "measure (\<lambda>(s, ip, ellipsis). 16 - length ip)") auto

declare ipv6_groups.simps [simp del]

definition parseIPv6 :: "string \<Rightarrow> nat list option" where
  "parseIPv6 s =
     (let (ellipsis, s') = (if take 2 s = ''::'' then (Some 0, drop 2 s) else (None, s))
      in if ellipsis \<noteq> None \<and> s' = [] then Some (replicate 16 0)
         else case ipv6_groups s' [] ellipsis of
           None \<Rightarrow> None
         | Some (ip, ellipsis, rest) \<Rightarrow>
             if rest \<noteq> [] then None
             else if length ip < 16 then
               (case ellipsis of
                  None \<Rightarrow> None
                | Some p \<Rightarrow> Some (take p ip @ replicate (16 - length ip) 0 @ drop p ip))
             else if ellipsis \<noteq> None then None else Some ip)"

text \<open>\<open>ParseIP\<close> gives 16 bytes; an address with a zone is refused.\<close>

definition ParseIP :: "string \<Rightarrow> nat list option" where
  "ParseIP s =
     (case filter (\<lambda>c. c \<in> {CHR ''.'', CHR '':'', CHR ''%''}) s of
        [] \<Rightarrow> None
      | c # _ \<Rightarrow>
          if c = CHR ''.'' then
            map_option (\<lambda>v4. replicate 10 0 @ [255, 255] @ v4) (ipv4_fields s 0 0 [])
          else if c = CHR '':'' \<and> CHR ''%'' \<notin> set s then parseIPv6 s
          else None)"

definition IsUnspecified :: "nat list \<Rightarrow> bool" where
  "IsUnspecified ip \<longleftrightarrow> ip = replicate 16 0 \<or> ip = replicate 10 0 @ [255, 255, 0, 0, 0, 0]"

subsection \<open>Settings\<close>

definition PolicyNoEviction :: string where
  "PolicyNoEviction = ''noeviction''"

definition PolicyAllKeysLRU :: string where
  "PolicyAllKeysLRU = ''allkeys-lru''"

record Config =
  Host :: string
  Port :: string
  MaxConnections :: int
  MaxRequestBytes :: int
  MaxResponseBytes :: int
  ReadTimeout :: int
  WriteTimeout :: int
  AOFEnabled :: bool
  AOFPath :: string
  AOFSyncPolicy :: string
  MaxMemoryBytes :: int
  MaxMemoryPolicy :: string

definition DefaultConfig :: Config where
  "DefaultConfig = \<lparr>Host = ''0.0.0.0'', Port = ''6379'', MaxConnections = 128, MaxRequestBytes = 2097152,
     MaxResponseBytes = 4194304, ReadTimeout = 30 * Second, WriteTimeout = 10 * Second, AOFEnabled = True,
     AOFPath = ''appendonly.aof'', AOFSyncPolicy = ''everysec'', MaxMemoryBytes = 0, MaxMemoryPolicy = PolicyNoEviction\<rparr>"

definition WithDefaults :: "Config \<Rightarrow> Config" where
  "WithDefaults c = c\<lparr>
     MaxConnections := (if MaxConnections c = 0 then MaxConnections DefaultConfig else MaxConnections c),
     MaxRequestBytes := (if MaxRequestBytes c = 0 then MaxRequestBytes DefaultConfig else MaxRequestBytes c),
     MaxResponseBytes := (if MaxResponseBytes c = 0 then MaxResponseBytes DefaultConfig else MaxResponseBytes c),
     ReadTimeout := (if ReadTimeout c = 0 then ReadTimeout DefaultConfig else ReadTimeout c),
     WriteTimeout := (if WriteTimeout c = 0 then WriteTimeout DefaultConfig else WriteTimeout c),
     AOFPath := (if AOFPath c = '''' \<and> AOFEnabled c then AOFPath DefaultConfig else AOFPath c),
     AOFSyncPolicy := (if AOFSyncPolicy c = '''' then AOFSyncPolicy DefaultConfig else AOFSyncPolicy c),
     MaxMemoryPolicy := (if MaxMemoryPolicy c = '''' then MaxMemoryPolicy DefaultConfig else MaxMemoryPolicy c)\<rparr>"

definition hostname_char :: "char \<Rightarrow> bool" where
  "hostname_char r \<longleftrightarrow>
     (let n = (of_char r :: nat)
      in (97 \<le> n \<and> n \<le> 122) \<or> (65 \<le> n \<and> n \<le> 90) \<or> (48 \<le> n \<and> n \<le> 57) \<or> r = CHR ''-'')"

definition validHostname :: "string \<Rightarrow> bool" where
  "validHostname host \<longleftrightarrow> length host \<le> 253 \<and>
     list_all (\<lambda>label. label \<noteq> [] \<and> length label \<le> 63 \<and> hd label \<noteq> CHR ''-'' \<and> last label \<noteq> CHR ''-'' \<and>
       list_all hostname_char label) (Split (CHR ''.'') host)"

definition IsWildcardHost :: "string \<Rightarrow> bool" where
  "IsWildcardHost host \<longleftrightarrow> (case ParseIP host of Some ip \<Rightarrow> IsUnspecified ip | None \<Rightarrow> False)"

definition valid_port :: "string \<Rightarrow> bool" where
  "valid_port p \<longleftrightarrow> (case ParseInt p of None \<Rightarrow> False | Some port \<Rightarrow> 0 \<le> port \<and> port \<le> 65535)"

definition Validate :: "unicode \<Rightarrow> Config \<Rightarrow> go_error option" where
  "Validate U c =
     (if Host c = '''' \<or> TrimSpace U (Host c) \<noteq> Host c
      then Some ''host must be a non-empty IP address or hostname''
      else if ParseIP (Host c) = None \<and> \<not> validHostname (Host c) then Some (''invalid host '' @ Quote U (Host c))
      else if \<not> valid_port (Port c) then Some ''port must be an integer between 0 and 65535''
      else if MaxConnections c \<le> 0 then Some ''max connections must be greater than zero''
      else if MaxRequestBytes c \<le> 0 then Some ''max request bytes must be greater than zero''
      else if MaxResponseBytes c \<le> 0 then Some ''max response bytes must be greater than zero''
      else if ReadTimeout c \<le> 0 then Some ''read timeout must be greater than zero''
      else if WriteTimeout c \<le> 0 then Some ''write timeout must be greater than zero''
      else if MaxMemoryBytes c < 0 then Some ''max memory must not be negative''
      else if MaxMemoryPolicy c \<notin> {PolicyNoEviction, PolicyAllKeysLRU}
      then Some (''max memory policy must be one of: '' @ PolicyNoEviction @ '', '' @ PolicyAllKeysLRU)
      else if AOFEnabled c \<and> TrimSpace U (AOFPath c) = ''''
      then Some ''AOF path must not be empty when AOF is enabled''
      else if AOFEnabled c \<and> AOFSyncPolicy c \<notin> {''always'', ''everysec'', ''no''}
      then Some ''AOF sync policy must be one of: always, everysec, no''
      else None)"

subsection \<open>Sizes\<close>

definition size_units :: "(string \<times> int) list" where
  "size_units = [(''gb'', 1073741824), (''mb'', 1048576), (''kb'', 1024), (''b'', 1)]"

fun split_unit :: "(string \<times> int) list \<Rightarrow> string \<Rightarrow> string \<times> int" where
  "split_unit [] lower = (lower, 1)"
| "split_unit ((suffix, multiplier) # units) lower =
     (if HasSuffix lower suffix then (TrimSuffix lower suffix, multiplier) else split_unit units lower)"

definition MaxInt64 :: int where
  "MaxInt64 = 9223372036854775807"

definition ParseBytes :: "unicode \<Rightarrow> string \<Rightarrow> go_error + int" where
  "ParseBytes U txt =
     (let (lower, multiplier) = split_unit size_units (ToLower U (TrimSpace U txt))
      in case ParseInt (TrimSpace U lower) of
           None \<Rightarrow> Inl (''invalid size '' @ Quote U txt)
         | Some n \<Rightarrow>
             if n < 0 then Inl (''invalid size '' @ Quote U txt)
             else if n > MaxInt64 div multiplier then Inl (''size '' @ Quote U txt @ '' is too large'')
             else Inr (wrap64 (n * multiplier)))"

subsection \<open>Properties\<close>

lemma split_unit_multiplier: "snd (split_unit size_units s) \<in> {1073741824, 1048576, 1024, 1}"
  by (simp add: size_units_def)

lemma ParseBytes_shape:
  assumes "ParseBytes U txt = Inr n"
  shows "\<exists>digits m multiplier. split_unit size_units (ToLower U (TrimSpace U txt)) = (digits, multiplier) \<and>
    ParseInt (TrimSpace U digits) = Some m \<and> n = m * multiplier \<and> 0 \<le> n \<and> n \<le> MaxInt64"
proof -
  obtain digits multiplier where u: "split_unit size_units (ToLower U (TrimSpace U txt)) = (digits, multiplier)" by fastforce
  have mu: "0 < multiplier" using split_unit_multiplier[of "ToLower U (TrimSpace U txt)"] u by auto
  from assms u obtain m where m: "ParseInt (TrimSpace U digits) = Some m" "0 \<le> m" "m \<le> MaxInt64 div multiplier"
    "n = wrap64 (m * multiplier)"
    by (auto simp: ParseBytes_def split: option.splits if_splits)
  have "m * multiplier \<le> MaxInt64 div multiplier * multiplier" using m(3) mu by (simp add: mult_right_mono)
  also have "\<dots> \<le> MaxInt64" using mu by (simp add: minus_mod_eq_div_mult[symmetric])
  finally have b: "m * multiplier \<le> MaxInt64" .
  have "0 \<le> m * multiplier" using m(2) mu by simp
  with b have "wrap64 (m * multiplier) = m * multiplier" by (simp add: wrap64_def MaxInt64_def)
  with u m b \<open>0 \<le> m * multiplier\<close> show ?thesis by auto
qed

lemma WithDefaults_idem: "WithDefaults (WithDefaults c) = WithDefaults c"
  by (simp add: WithDefaults_def DefaultConfig_def PolicyNoEviction_def)

lemma Split_nonempty: "Split sep s \<noteq> []"
  by (cases s) (auto split: list.splits)

lemma Validate_DefaultConfig: "Validate plain_unicode DefaultConfig = None"
proof -
  have "ParseInt ''6379'' = Some 6379" by (simp add: ParseInt_def parse_uint_def digits_value_def is_digit_def)
  moreover have "TrimSpace plain_unicode ''0.0.0.0'' = ''0.0.0.0''" "ParseIP ''0.0.0.0'' \<noteq> None"
    "TrimSpace plain_unicode ''appendonly.aof'' \<noteq> []" by code_simp+
  ultimately show ?thesis by (simp add: Validate_def DefaultConfig_def valid_port_def)
qed

lemma WithDefaults_DefaultConfig [simp]: "WithDefaults DefaultConfig = DefaultConfig"
  by (simp add: WithDefaults_def DefaultConfig_def PolicyNoEviction_def)


end
