(* ===== verification/Server.thy ===== *)
theory Server
  imports AofJournal Config
begin

text \<open>
  The goroutine-per-client server of \<open>internal/server/server.go\<close>: its executor, opening and
  closing the append-only file, and recovery of the contents after a crash.
\<close>

subsection \<open>Persistence of the server\<close>

text \<open>
  The file system as \<open>Open\<close> sees it: the file, what its reads end with, and the results of
  the calls on the directory and on new files.
\<close>

record disk =
  disk_file :: "osfile option"
  disk_eof :: io_error
  disk_calls :: "nat \<Rightarrow> go_error option"
  disk_newfaults :: "nat \<Rightarrow> nat \<Rightarrow> nat \<times> go_error option"

definition newExecutor :: "Store \<Rightarrow> Config \<Rightarrow> 'j Executor" where
  "newExecutor store cfg = SetMemoryLimit (MaxMemoryBytes cfg) (MaxMemoryPolicy cfg) (NewExecutor store)"

text \<open>The field \<open>aof\<close> of the server is the executor's journal: they are set and cleared together.\<close>

definition openPersistence ::
  "unicode \<Rightarrow> env \<Rightarrow> disk \<Rightarrow> Config \<Rightarrow> Log Executor \<Rightarrow> (open_error option \<times> Log Executor) option"
where
  "openPersistence U E dsk cfg e =
     (if \<not> AOFEnabled cfg \<or> ex_journal e \<noteq> None then Some (None, e)
      else case Open U E (AOFPath cfg) (AOFSyncPolicy cfg) (disk_file dsk) (disk_eof dsk) (disk_calls dsk)
                  (disk_newfaults dsk) (ex_store e) of
        None \<Rightarrow> None
      | Some (Inl err, store) \<Rightarrow> Some (Some err, e\<lparr>ex_store := store\<rparr>)
      | Some (Inr logFile, store) \<Rightarrow> Some (None, SetJournal (Some logFile) (e\<lparr>ex_store := store\<rparr>)))"

text \<open>The closed log is returned too: nothing refers to it any more, but its file remains.\<close>

definition closePersistence :: "Log Executor \<Rightarrow> (go_error option \<times> Log option) \<times> Log Executor" where
  "closePersistence e =
     (case ex_journal e of
        None \<Rightarrow> ((None, None), e)
      | Some l \<Rightarrow> let (err, l) = log_Close l in ((err, Some l), SetJournal None e))"

subsection \<open>Recovery of a file\<close>

text \<open>The records of which the first \<open>n\<close> bytes hold all bytes.\<close>

definition whole_records :: "Command list \<Rightarrow> nat \<Rightarrow> nat \<Rightarrow> bool" where
  "whole_records ds n m \<longleftrightarrow> m \<le> length ds \<and> length (records (take m ds)) \<le> n \<and>
     (m < length ds \<longrightarrow> n < length (records (take (Suc m) ds)))"

lemma take_records:
  "\<exists>m t. whole_records ds n m \<and> take n (records ds) = records (take m ds) @ t \<and>
    (t = [] \<or> (\<exists>c \<in> set ds. \<exists>q. t @ q = record_bytes c \<and> q \<noteq> []))"
proof (induction ds arbitrary: n)
  case (Cons c ds)
  show ?case
  proof (cases "n < length (record_bytes c)")
    case True
    then have "take n (record_bytes c) @ drop n (record_bytes c) = record_bytes c \<and> drop n (record_bytes c) \<noteq> []" by simp
    then have "\<exists>q. take n (record_bytes c) @ q = record_bytes c \<and> q \<noteq> []" by blast
    with True show ?thesis by (intro exI[of _ 0] exI[of _ "take n (record_bytes c)"]) (auto simp: whole_records_def)
  next
    case False
    obtain m t where "whole_records ds (n - length (record_bytes c)) m"
      "take (n - length (record_bytes c)) (records ds) = records (take m ds) @ t"
      "t = [] \<or> (\<exists>c \<in> set ds. \<exists>q. t @ q = record_bytes c \<and> q \<noteq> [])" using Cons by blast
    with False show ?thesis by (intro exI[of _ "Suc m"] exI[of _ t]) (auto simp: whole_records_def)
  qed
qed (simp add: whole_records_def)

lemma take_records_torn:
  assumes "list_all replayable ds"
  obtains m t where "whole_records ds n m" "take n (records ds) = records (take m ds) @ t" "torn_tail t"
proof -
  obtain m t where m: "whole_records ds n m" "take n (records ds) = records (take m ds) @ t"
    "t = [] \<or> (\<exists>c \<in> set ds. \<exists>q. t @ q = record_bytes c \<and> q \<noteq> [])"
    using take_records by blast
  then have "torn_tail t" using assms unfolding torn_tail_def list_all_iff by blast
  with m that show thesis by blast
qed

definition sound_file :: "osfile \<Rightarrow> bool" where
  "sound_file f \<longleftrightarrow> (\<forall>n. snd (f_faults f n) = None) \<and> f_synced f \<le> length (f_data f)"

lemma sound_file_call: "sound_file f \<Longrightarrow> file_call effect f = (None, effect (f\<lparr>f_calls := Suc (f_calls f)\<rparr>))"
  by (simp add: sound_file_def file_call_def)

lemma replay_file:
  assumes "sound_file f" "list_all replayable cs" "torn_tail t" "f_data f = records cs @ t"
  shows "\<exists>f'. replay U E EOF f s = Some ((None, f'), ex_store (apply_all U E cs (NewExecutor s :: unit Executor))) \<and>
    f_data f' = records cs \<and> sound_file f'"
proof -
  let ?f = "f\<lparr>f_calls := Suc (f_calls f), f_pos := 0\<rparr>"
  have seek: "file_seek 0 f = (None, ?f)" by (simp add: file_seek_def sound_file_call[OF assms(1)])
  let ?d = "NewDecoderWithLimit (f_data ?f) EOF 4096 (int maxRecordBytes)"
  have loop: "replay_loop U E (length (f_data ?f)) ?d (NewExecutor s) =
      Some (Inr (if t = [] then None else Some (length (f_data ?f) - length t)), apply_all U E cs (NewExecutor s))"
    by (rule replay_records[OF assms(2,3)])
      (simp_all add: assms(4) NewDecoderWithLimit_def NewExecutor_def maxRecordBytes_def)
  show ?thesis
  proof (cases "t = []")
    case True
    have "replay U E EOF f s = Some ((None, ?f), ex_store (apply_all U E cs (NewExecutor s :: unit Executor)))"
      using True seek loop assms(4) by (simp add: replay_def)
    with assms(1,4) True show ?thesis by (intro exI[of _ ?f]) (simp add: sound_file_def)
  next
    case False
    have s: "sound_file ?f" using assms(1) by (simp add: sound_file_def)
    let ?n = "length (records cs)"
    let ?f' = "?f\<lparr>f_calls := Suc (f_calls ?f), f_data := take ?n (f_data ?f), f_synced := min ?n (f_synced ?f)\<rparr>"
    have "replay U E EOF f s = Some ((None, ?f'), ex_store (apply_all U E cs (NewExecutor s :: unit Executor)))"
      using False seek loop assms(4) by (simp add: replay_def file_truncate_def sound_file_call[OF s])
    with assms(1,4) show ?thesis by (intro exI[of _ ?f']) (simp add: sound_file_def)
  qed
qed

lemma replay_success:
  assumes "replay U E EOF f s = Some ((None, f'), s')" "f_synced f \<le> length (f_data f)"
    "list_all replayable cs" "torn_tail t" "f_data f = records cs @ t"
  shows "s' = ex_store (apply_all U E cs (NewExecutor s :: unit Executor))" "f_data f' = records cs"
    "f_synced f' \<le> length (f_data f')"
proof -
  obtain r f1 where seek: "file_seek 0 f = (r, f1)" by fastforce
  then have r: "r = None" "f1 = f\<lparr>f_calls := Suc (f_calls f), f_pos := 0\<rparr>"
    using assms(1) file_call_cases(1)[OF seek[unfolded file_seek_def]] by (auto simp: replay_def split: option.splits)
  let ?d = "NewDecoderWithLimit (f_data f1) EOF 4096 (int maxRecordBytes)"
  have loop: "replay_loop U E (length (f_data f1)) ?d (NewExecutor s) =
      Some (Inr (if t = [] then None else Some (length (f_data f1) - length t)), apply_all U E cs (NewExecutor s))"
    by (rule replay_records[OF assms(3,4)])
      (simp_all add: r assms(5) NewDecoderWithLimit_def NewExecutor_def maxRecordBytes_def)
  note run = assms(1)[unfolded replay_def seek r(1) prod.case option.case loop]
  have "s' = ex_store (apply_all U E cs (NewExecutor s :: unit Executor)) \<and> f_data f' = records cs \<and>
      f_synced f' \<le> length (f_data f')"
  proof (cases "t = []")
    case True
    with run r(2) assms(2,5) show ?thesis by auto
  next
    case False
    obtain r2 f2 where tr: "file_truncate (length (records cs)) f1 = (r2, f2)" by fastforce
    with run False r(2) assms(5) have "r2 = None" "f' = f2" "s' = ex_store (apply_all U E cs (NewExecutor s :: unit Executor))"
      by (auto split: option.splits)
    moreover from this file_call_cases(1)[OF tr[unfolded file_truncate_def]] r(2) assms(2,5)
    have "f_data f2 = records cs" "f_synced f2 \<le> length (f_data f2)" by auto
    ultimately show ?thesis by simp
  qed
  then show "s' = ex_store (apply_all U E cs (NewExecutor s :: unit Executor))" "f_data f' = records cs"
    "f_synced f' \<le> length (f_data f')" by blast+
qed

text \<open>The bytes \<open>Open\<close> finds.\<close>

definition disk_bytes :: "disk \<Rightarrow> string" where
  "disk_bytes dsk = (case disk_file dsk of None \<Rightarrow> [] | Some f \<Rightarrow> f_data f)"

text \<open>A journal file: whole records of canonical commands, the last one possibly cut short.\<close>

definition journal_disk :: "unicode \<Rightarrow> Command list \<Rightarrow> disk \<Rightarrow> bool" where
  "journal_disk U cs dsk \<longleftrightarrow> disk_eof dsk = EOF \<and> list_all (canonical U) cs \<and> list_all replayable cs \<and>
     (\<exists>t. torn_tail t \<and> disk_bytes dsk = records cs @ t) \<and>
     (\<forall>f. disk_file dsk = Some f \<longrightarrow> f_synced f \<le> length (f_data f))"

lemma Open_log:
  assumes "journal_disk U cs dsk"
    "Open U E path policy (disk_file dsk) (disk_eof dsk) (disk_calls dsk) (disk_newfaults dsk) s = Some (Inr l, s')"
  shows "log_recs U l cs" "l_rewrite l = None" "s' = ex_store (apply_all U E cs (NewExecutor s :: unit Executor))"
    "l_failed l = None" "l_policy l = policy" "\<not> l_closed l" "\<not> l_closing l"
proof -
  obtain t where t: "torn_tail t" "disk_bytes dsk = records cs @ t" using assms(1) by (auto simp: journal_disk_def)
  let ?f = "case disk_file dsk of Some f \<Rightarrow> f
    | None \<Rightarrow> \<lparr>f_data = [], f_pos = 0, f_synced = 0, f_calls = 0, f_faults = disk_newfaults dsk 0\<rparr>"
  have f: "f_data ?f = records cs @ t" "f_synced ?f \<le> length (f_data ?f)"
    using t(2) assms(1) by (auto simp: disk_bytes_def journal_disk_def split: option.splits)
  obtain f1 where rp: "replay U E EOF ?f s = Some ((None, f1), s')" and
    sk: "\<exists>f2. file_seek (length (f_data f1)) f1 = (None, f2) \<and>
      l = new_log policy f2 (\<lambda>n. disk_calls dsk (n + 6)) (\<lambda>n. disk_newfaults dsk (n + 1))"
    using assms by (auto simp: Open_def Let_def journal_disk_def split: if_splits option.splits prod.splits sum.splits)
  have cs: "list_all (canonical U) cs" "list_all replayable cs" using assms(1) by (simp_all add: journal_disk_def)
  note rs = replay_success[OF rp f(2) cs(2) t(1) f(1)]
  obtain f2 where f2: "file_seek (length (f_data f1)) f1 = (None, f2)"
    "l = new_log policy f2 (\<lambda>n. disk_calls dsk (n + 6)) (\<lambda>n. disk_newfaults dsk (n + 1))" using sk by blast
  have "f2 = f1\<lparr>f_calls := Suc (f_calls f1), f_pos := length (f_data f1)\<rparr>"
    using file_call_cases(1)[OF f2(1)[unfolded file_seek_def]] by simp
  with f2(2) rs cs(1) show "log_recs U l cs"
    by (simp add: new_log_def log_recs_def log_inv_def fil.holds_def at_end_def NewWriterSize_def)
      (auto intro!: exI[of _ "[]"])
  show "s' = ex_store (apply_all U E cs (NewExecutor s :: unit Executor))" by (rule rs(1))
  show "l_rewrite l = None" "l_failed l = None" "l_policy l = policy" "\<not> l_closed l" "\<not> l_closing l"
    by (simp_all add: f2(2) new_log_def)
qed

lemma tracks_apply_all:
  assumes "env_ok E" "list_all (canonical U) cs" "tracks U (clock E e 0) (ex_store e) h"
  shows "\<exists>h'. commands h' = commands h @ cs \<and> tracks U (clock E (apply_all U E cs e) 0) (ex_store (apply_all U E cs e)) h'"
  using assms(2,3)
proof (induction cs arbitrary: e h)
  case (Cons c cs)
  obtain v s where x: "execute U (clock E e) c (ex_store e) = (v, s)" by fastforce
  let ?e = "(tick e)\<lparr>ex_store := s\<rparr>"
  have "tracks U (clock E ?e 0) (ex_store ?e) (h @ [(clock E e 0, abs_store (ex_store e), c)])"
    using tracks_apply[OF Cons.prems(2) env_ok_clock[OF assms(1)] x, of "clock E ?e 0"] Cons.prems(1)
      clock_next[OF assms(1), of "ex_calls e"] by (simp add: canonical_def)
  from Cons.IH[OF _ this] Cons.prems(1) show ?case by (simp add: apply_command_def x)
qed auto

subsection \<open>A run of the server and a restart\<close>

definition start_system :: "'j Executor \<Rightarrow> 'j system" where
  "start_system e = \<lparr>sys_ex = e, sys_answers = [], sys_waiting = False, sys_failed = [], sys_started = []\<rparr>"

definition started :: "unicode \<Rightarrow> env \<Rightarrow> disk \<Rightarrow> Config \<Rightarrow> Log Executor \<Rightarrow> bool" where
  "started U E dsk cfg e \<longleftrightarrow> AOFEnabled cfg \<and> openPersistence U E dsk cfg (newExecutor NewStore cfg) = Some (None, e)"

text \<open>The second environment starts when the first has ended.\<close>

definition follows :: "env \<Rightarrow> env \<Rightarrow> bool" where
  "follows E E' \<longleftrightarrow> env_ok E \<and> env_ok E' \<and> (\<forall>i n. env_now E i n \<le> env_now E' 0 0)"

lemma newExecutor_simps [simp]:
  "ex_store (newExecutor s cfg) = s" "ex_journal (newExecutor s cfg) = None" "ex_calls (newExecutor s cfg) = 0"
  "writeQueue (newExecutor s cfg) = []" "ex_requests (newExecutor s cfg) = 0" "rewriteStatus (newExecutor s cfg) = ''''"
  "dispatching (newExecutor s cfg) = False"
  by (simp_all add: newExecutor_def SetMemoryLimit_def NewExecutor_def)

lemma started_shape:
  assumes "started U E dsk cfg e" "journal_disk U cs dsk"
  obtains l where "ex_journal e = Some l" "log_recs U l cs" "l_rewrite l = None" "l_failed l = None"
    "l_policy l = AOFSyncPolicy cfg" "ex_store e = ex_store (replayed U E cs)" "ex_calls e = 0" "writeQueue e = []"
    "ex_requests e = 0" "dispatching e = False"
proof -
  obtain l s where o: "Open U E (AOFPath cfg) (AOFSyncPolicy cfg) (disk_file dsk) (disk_eof dsk) (disk_calls dsk)
      (disk_newfaults dsk) NewStore = Some (Inr l, s)"
    and e: "e = SetJournal (Some l) ((newExecutor NewStore cfg)\<lparr>ex_store := s\<rparr>)"
    using assms(1) by (auto simp: started_def openPersistence_def split: option.splits prod.splits sum.splits)
  note l = Open_log[OF assms(2) o]
  show thesis by (rule that[of l]) (use l in \<open>simp_all add: e SetJournal_def replayed_def\<close>)
qed

lemma durable_start:
  assumes "started U E0 dsk cfg e" "journal_disk U cs dsk" "follows E0 E"
  shows "aof.durable_system U E (start_system e)"
proof -
  obtain l where l: "ex_journal e = Some l" "log_recs U l cs" "l_rewrite l = None"
    "ex_store e = ex_store (replayed U E0 cs)" "ex_calls e = 0" "writeQueue e = []"
    using started_shape[OF assms(1,2)] by metis
  have E: "env_ok E0" "\<And>i n. env_now E0 i n \<le> env_now E 0 0" using assms(3) by (simp_all add: follows_def)
  let ?e0 = "NewExecutor NewStore :: unit Executor"
  have "tracks U (clock E0 ?e0 0) (ex_store ?e0) []" by (simp add: NewExecutor_def tracks_empty)
  moreover have "list_all (canonical U) cs" using assms(2) by (simp add: journal_disk_def)
  ultimately obtain h where h: "commands h = cs" "tracks U (clock E0 (replayed U E0 cs) 0) (ex_store e) h"
    using tracks_apply_all[OF E(1), of U cs ?e0 "[]"] unfolding replayed_def l(4) by auto
  have "tracks U (clock E e 0) (ex_store e) h" by (rule tracks_later[OF h(2)]) (simp add: l(5) E(2))
  with l h(1) show ?thesis
    by (auto simp: aof.durable_system_def aof.durable_def aof.journaled_def start_system_def log_pend_def)
qed

text \<open>
  The steps of a running server: those of the executor, and the ticks of \<open>syncLoop\<close> on its
  log.
\<close>

inductive server_step :: "unicode \<Rightarrow> env \<Rightarrow> Log system \<Rightarrow> Log system \<Rightarrow> bool" for U E where
  executor: "system_step U E (log_ops U) s s' \<Longrightarrow> server_step U E s s'"
| sync: "ex_journal (sys_ex s) = Some l \<Longrightarrow>
    server_step U E s (s\<lparr>sys_ex := (sys_ex s)\<lparr>ex_journal := Some (sync_tick l)\<rparr>\<rparr>)"

abbreviation runs :: "unicode \<Rightarrow> env \<Rightarrow> Log system \<Rightarrow> Log system \<Rightarrow> bool" where
  "runs U E \<equiv> (server_step U E)\<^sup>*\<^sup>*"

lemma sync_tick_log:
  "log_recs U l cs \<Longrightarrow> log_recs U (sync_tick l) cs" "l_rewrite (sync_tick l) = l_rewrite l"
  "f_data (l_file (sync_tick l)) = f_data (l_file l)"
proof -
  obtain r f where f: "file_sync (l_file l) = (r, f)" by fastforce
  have d: "f_data f = f_data (l_file l)" "f_pos f = f_pos (l_file l)"
    "f_synced (l_file l) \<le> length (f_data (l_file l)) \<Longrightarrow> f_synced f \<le> length (f_data f)"
    using file_sync_None[of "l_file l" f] file_sync_Some[of "l_file l" _ f] f by (cases r; simp)+
  then show "log_recs U l cs \<Longrightarrow> log_recs U (sync_tick l) cs" "l_rewrite (sync_tick l) = l_rewrite l"
    "f_data (l_file (sync_tick l)) = f_data (l_file l)"
    by (auto simp: sync_tick_def f log_recs_def log_inv_def fil.holds_def at_end_def)
qed

lemma durable_server_step:
  assumes "server_step U E s s'" "env_ok E" "aof.durable_system U E s"
  shows "aof.durable_system U E s'"
  using assms(1)
proof cases
  case executor
  then show ?thesis using aof.durable_step assms(2,3) by blast
next
  case (sync l)
  with assms(3) sync_tick_log(1)[of U l] sync_tick_log(2)[of l] show ?thesis
    by (auto simp: aof.durable_system_def aof.durable_def aof.journaled_def log_pend_def)
qed

lemma run_tracks:
  assumes "started U E0 dsk cfg e" "journal_disk U cs dsk" "follows E0 E" "runs U E (start_system e) s"
  obtains l h where "ex_journal (sys_ex s) = Some l" "log_recs U l (commands h)"
    "tracks U (clock E (sys_ex s) 0) (ex_store (sys_ex s)) h"
proof -
  have E: "env_ok E" using assms(3) by (simp add: follows_def)
  have "aof.durable_system U E s"
    using assms(4) by (induction rule: rtranclp_induct) (auto intro: durable_start[OF assms(1-3)] durable_server_step[OF _ E])
  with that show thesis by (auto simp: aof.durable_system_def aof.durable_def aof.journaled_def)
qed

text \<open>
  The file after a crash, possibly in the middle of appending the records of \<open>ds\<close>: its first \<open>n\<close>
  bytes. If only the process dies, these are all bytes the log has written; if the machine
  does, at least those that were synced.
\<close>

definition crashed_file :: "Log \<Rightarrow> Command list \<Rightarrow> nat \<Rightarrow> osfile \<Rightarrow> bool" where
  "crashed_file l ds n f \<longleftrightarrow> sound_file f \<and> f_synced (l_file l) \<le> n \<and> f_data f = take n (f_data (l_file l) @ records ds) \<and>
     list_all replayable ds"

lemma records_append [simp]: "records (cs @ ds) = records cs @ records ds"
  by (simp add: records_def)

lemma whole_records_all:
  assumes "whole_records (cs @ ds) n m" "length (records cs) \<le> n"
  shows "length cs \<le> m"
proof (rule ccontr)
  assume "\<not> length cs \<le> m"
  then have less: "Suc m \<le> length cs" by simp
  then have "n < length (records (take (Suc m) cs))"
    using assms(1) by (auto simp: whole_records_def simp del: take_append simp: take_append[of "Suc m" cs ds])
  also have "\<dots> \<le> length (records (take (Suc m) cs @ drop (Suc m) cs))" unfolding records_append by simp
  finally show False using assms(2) by simp
qed

lemma restart_recovers:
  assumes "log_recs U l (commands h)" "l_failed l = None" "tracks U now s h" "crashed_file l ds n f"
    "list_all replayable (commands h)" "now \<le> r0" "replay_window r0 r1 E" "quiet r1 h"
  shows "\<exists>m f' s'. whole_records (commands h @ ds) n m \<and> replay U E EOF f NewStore = Some ((None, f'), s') \<and>
    f_data f' = records (take m (commands h @ ds)) \<and> s' = ex_store (replayed U E (take m (commands h @ ds))) \<and>
    (length (f_data (l_file l)) \<le> n \<longrightarrow> length (commands h) \<le> m) \<and>
    (m = length (commands h) \<longrightarrow> recovers r0 r1 (abs_store s) (abs_store s'))"
proof -
  let ?cs = "commands h @ ds"
  have data: "f_data (l_file l) = records (commands h)" using assms(1,2) by (simp add: log_recs_def)
  have all: "list_all replayable ?cs" using assms(4,5) by (simp add: crashed_file_def)
  obtain m t where m: "whole_records ?cs n m" "take n (records ?cs) = records (take m ?cs) @ t" "torn_tail t"
    using take_records_torn[OF all] by blast
  have "list_all replayable (take m ?cs)" using all by (auto simp: list_all_iff dest: in_set_takeD)
  moreover have "f_data f = records (take m ?cs) @ t" using assms(4) m(2) data by (simp add: crashed_file_def)
  ultimately obtain f' where "replay U E EOF f NewStore = Some ((None, f'), ex_store (replayed U E (take m ?cs)))"
    "f_data f' = records (take m ?cs)"
    using replay_file[OF _ _ m(3), of f "take m ?cs" U E NewStore] assms(4) by (auto simp: crashed_file_def replayed_def)
  moreover have "recovers r0 r1 (abs_store s) (abs_store (ex_store (replayed U E (commands h))))"
    using assms(3,6-8) by (auto simp: tracks_def)
  moreover have "length (f_data (l_file l)) \<le> n \<longrightarrow> length (commands h) \<le> m"
    using whole_records_all[OF m(1)] by (simp add: data)
  ultimately show ?thesis using m(1) by (intro exI[of _ m] exI[of _ f'] exI) auto
qed

end
