(* ===== verification/AofLive.thy ===== *)
theory AofLive
  imports Server
begin

text \<open>
  The append-only file on a disk that works: when no call fails, opening a journal succeeds,
  and a healthy log accepts every batch whose records are not too large.
\<close>

subsection \<open>Writing without faults\<close>

definition quiet_file :: "osfile \<Rightarrow> bool" where
  "quiet_file f \<longleftrightarrow> (\<forall>n. snd (f_faults f n) = None)"

definition ok_writer :: "osfile bufw \<Rightarrow> bool" where
  "ok_writer w \<longleftrightarrow> bw_err w = None \<and> quiet_file (bw_out w)"

lemma file_write_ok:
  assumes "quiet_file f"
  shows "\<exists>f'. file_write p f = (None, f') \<and> quiet_file f'"
proof -
  obtain n where "f_faults f (f_calls f) = (n, None)" using assms unfolding quiet_file_def by (metis prod.collapse)
  with assms show ?thesis by (auto simp: file_write_def put_bytes_def quiet_file_def)
qed

lemma Flush_ok: "ok_writer w \<Longrightarrow> \<exists>w'. Flush file_write w = (None, w') \<and> ok_writer w'"
  using file_write_ok[of "bw_out w" "bw_buf w"] by (auto simp: Flush_def ok_writer_def)

lemma bufio_write_ok_wr: "wr = file_write \<Longrightarrow> ok_writer w \<Longrightarrow> \<exists>w'. bufio_write wr p w = (None, w') \<and> ok_writer w'"
proof (induction wr p w rule: bufio_write.induct)
  case (1 wr p w)
  let ?a = "bw_size w - length (bw_buf w)"
  let ?w = "w\<lparr>bw_buf := bw_buf w @ take ?a p\<rparr>"
  have err: "bw_err w = None" using 1(3) by (simp add: ok_writer_def)
  consider (full) "length p > ?a" "bw_buf w \<noteq> []" | (direct) "length p > ?a" "bw_buf w = []" | (fits) "\<not> length p > ?a" by blast
  then show ?case
  proof cases
    case full
    have "ok_writer ?w" using 1(3) by (simp add: ok_writer_def)
    then obtain w1 where f: "Flush wr ?w = (None, w1)" "ok_writer w1" using Flush_ok 1(2) by blast
    have "\<exists>w'. bufio_write wr (drop ?a p) (snd (Flush wr ?w)) = (None, w') \<and> ok_writer w'"
      by (rule 1(1)[OF refl _ full(2) 1(2)]) (use full(1) err f in simp_all)
    moreover have "bufio_write wr p w = bufio_write wr (drop ?a p) (snd (Flush wr ?w))"
      using full err by (subst bufio_write.simps) (simp add: Let_def)
    ultimately show ?thesis by simp
  next
    case direct
    obtain f where "file_write p (bw_out w) = (None, f)" "quiet_file f"
      using file_write_ok 1(3) by (auto simp: ok_writer_def)
    with direct err 1(2) show ?thesis by (subst bufio_write.simps) (simp add: ok_writer_def)
  next
    case fits
    with err 1(3) show ?thesis by (subst bufio_write.simps) (simp add: ok_writer_def)
  qed
qed

lemmas bufio_write_ok = bufio_write_ok_wr[OF refl]

lemma writeRecords_ok:
  "list_all record_fits cmds \<Longrightarrow> ok_writer w \<Longrightarrow> \<exists>w'. writeRecords cmds w = (None, w') \<and> ok_writer w'"
proof (induction cmds arbitrary: w)
  case (Cons c cs)
  obtain w1 where "writeRecord c w = (None, w1)" "ok_writer w1"
    using bufio_write_ok[OF Cons.prems(2), of "record_bytes c"] Cons.prems(1) by (auto simp: writeRecord_def encode_record_fits)
  with Cons.IH[of w1] Cons.prems(1) show ?case by simp
qed simp

lemma quiet_call: "quiet_file f \<Longrightarrow> file_call effect f = (None, effect (f\<lparr>f_calls := Suc (f_calls f)\<rparr>))"
  by (simp add: quiet_file_def file_call_def)

text \<open>A log that takes appends.\<close>

definition healthy :: "Log \<Rightarrow> bool" where
  "healthy l \<longleftrightarrow> \<not> l_closed l \<and> \<not> l_closing l \<and> l_failed l = None \<and> ok_writer (l_writer l)"

lemma finish_batch_ok:
  assumes "(if cmds = [] then (None, l_writer l) else Flush file_write (l_writer l)) = (None, w)"
    "(if cmds \<noteq> [] \<and> l_policy l = ''always'' then file_sync (bw_out w) else (None, bw_out w)) = (None, f)"
  shows "finish_batch offset cmds l = (None, write_delta cmds (set_file f (l\<lparr>l_writer := w\<rparr>)))"
  using assms by (cases "cmds = []"; cases "l_policy l = ''always''") (auto simp: finish_batch_def)

lemma append_accepted:
  assumes "healthy l" "list_all record_fits (valid_commands (canonical_batch U clk cmds))"
  shows "\<exists>l'. log_AppendBatch U clk cmds l = (Inr (map fst (canonical_batch U clk cmds)), l') \<and> healthy l'"
proof (cases "cmds = []")
  case True
  with assms(1) show ?thesis by (simp add: log_AppendBatch_def healthy_def)
next
  case False
  let ?new = "valid_commands (canonical_batch U clk cmds)"
  have q: "quiet_file (l_file l)" "bw_err (l_writer l) = None" using assms(1) by (simp_all add: healthy_def ok_writer_def)
  let ?f = "(l_file l)\<lparr>f_calls := Suc (f_calls (l_file l))\<rparr>"
  have call: "file_call id (l_file l) = (None, ?f)" using quiet_call[OF q(1), of id] by simp
  let ?l = "set_file ?f l"
  have "ok_writer (l_writer ?l)" using q by (simp add: ok_writer_def quiet_file_def)
  then obtain w where w: "writeRecords ?new (l_writer ?l) = (None, w)" "ok_writer w" using writeRecords_ok[OF assms(2)] by blast
  obtain w' where w': "(if ?new = [] then (None, w) else Flush file_write w) = (None, w')" "ok_writer w'"
    using Flush_ok[OF w(2)] w(2) by (cases "?new = []") auto
  have "\<exists>f'. (if ?new \<noteq> [] \<and> l_policy l = ''always'' then file_sync (bw_out w') else (None, bw_out w')) = (None, f') \<and> quiet_file f'"
    using w'(2) quiet_call[of "bw_out w'" "\<lambda>f. f\<lparr>f_synced := length (f_data f)\<rparr>"]
    by (auto simp: file_sync_def ok_writer_def quiet_file_def)
  then obtain f' where f': "(if ?new \<noteq> [] \<and> l_policy l = ''always'' then file_sync (bw_out w') else (None, bw_out w')) = (None, f')"
    "quiet_file f'" by blast
  let ?l' = "write_delta ?new (set_file f' (?l\<lparr>l_writer := w, l_writer := w'\<rparr>))"
  have "finish_batch (f_pos ?f) ?new (?l\<lparr>l_writer := w\<rparr>) = (None, ?l')"
    by (rule finish_batch_ok) (use w'(1) f'(1) in \<open>simp_all split: if_splits\<close>)
  then have "log_AppendBatch U clk cmds l = (Inr (map fst (canonical_batch U clk cmds)), ?l')"
    using assms(1) False call w(1) by (simp add: log_AppendBatch_def healthy_def Let_def)
  moreover have "healthy ?l'" using assms(1) w'(2) f'(2) by (simp add: healthy_def ok_writer_def)
  ultimately show ?thesis by blast
qed

subsection \<open>Opening\<close>

definition working_disk :: "disk \<Rightarrow> bool" where
  "working_disk dsk \<longleftrightarrow> (\<forall>n. disk_calls dsk n = None) \<and> (\<forall>i n. snd (disk_newfaults dsk i n) = None) \<and>
     (\<forall>f. disk_file dsk = Some f \<longrightarrow> sound_file f)"

lemma Open_works:
  assumes "working_disk dsk" "journal_disk U cs dsk" "path \<noteq> []" "policy \<in> {''always'', ''everysec'', ''no''}"
  shows "\<exists>l s'. Open U E path policy (disk_file dsk) (disk_eof dsk) (disk_calls dsk) (disk_newfaults dsk) s = Some (Inr l, s') \<and>
    healthy l"
proof -
  obtain t where t: "torn_tail t" "disk_bytes dsk = records cs @ t" "list_all replayable cs" "disk_eof dsk = EOF"
    using assms(2) by (auto simp: journal_disk_def)
  let ?f = "case disk_file dsk of Some f \<Rightarrow> f
    | None \<Rightarrow> \<lparr>f_data = [], f_pos = 0, f_synced = 0, f_calls = 0, f_faults = disk_newfaults dsk 0\<rparr>"
  have f: "sound_file ?f" "f_data ?f = records cs @ t"
    using t(2) assms(1) by (auto simp: disk_bytes_def working_disk_def sound_file_def split: option.splits)
  obtain f' where r: "replay U E EOF ?f s = Some ((None, f'), ex_store (apply_all U E cs (NewExecutor s :: unit Executor)))"
    "sound_file f'" using replay_file[OF f(1) t(3,1) f(2)] by blast
  let ?f' = "f'\<lparr>f_calls := Suc (f_calls f'), f_pos := length (f_data f')\<rparr>"
  have s: "file_seek (length (f_data f')) f' = (None, ?f')" using sound_file_call[OF r(2)] by (simp add: file_seek_def)
  have "healthy (new_log policy ?f' d nf)" for d nf
    using r(2) by (simp add: healthy_def new_log_def ok_writer_def quiet_file_def NewWriterSize_def sound_file_def)
  moreover have "disk_calls dsk n = None" for n using assms(1) by (simp add: working_disk_def)
  ultimately show ?thesis
    using assms(3,4) r(1) s by (simp add: Open_def Let_def t(4))
qed

subsection \<open>Accepted writes\<close>

lemma started_works:
  assumes "AOFEnabled cfg" "AOFPath cfg \<noteq> []" "AOFSyncPolicy cfg \<in> {''always'', ''everysec'', ''no''}"
    "working_disk dsk" "journal_disk U cs dsk"
  shows "\<exists>e l. started U E dsk cfg e \<and> ex_journal e = Some l \<and> healthy l"
proof -
  obtain l s where o: "Open U E (AOFPath cfg) (AOFSyncPolicy cfg) (disk_file dsk) (disk_eof dsk) (disk_calls dsk)
      (disk_newfaults dsk) NewStore = Some (Inr l, s)" "healthy l"
    using Open_works[OF assms(4,5,2,3), of E NewStore] by blast
  then have "openPersistence U E dsk cfg (newExecutor NewStore cfg) =
      Some (None, SetJournal (Some l) ((newExecutor NewStore cfg)\<lparr>ex_store := s\<rparr>))"
    using assms(1) by (simp add: openPersistence_def)
  with assms(1) o(2) show ?thesis by (auto simp: started_def SetJournal_def)
qed

lemma admit_batch_unlimited:
  assumes "maxMemory e \<le> 0"
  shows "admit_batch E J batch e = Some (map (\<lambda>(i, cmd). (i, cmd, None)) batch, e)"
  using assms by (induction batch) (auto simp: admitOrReject_def admit_def)

lemma accepted_all [simp]: "accepted (map (\<lambda>(i, cmd). (i, cmd, None)) batch) = map snd batch"
  by (induction batch) auto

lemma apply_batch_replies:
  assumes "length ps = length batch" "apply_batch U E (Inr ps) (map (\<lambda>(i, cmd). (i, cmd, None)) batch) e = (answers, e')"
  shows "map fst answers = map fst batch \<and> (\<forall>(i, r) \<in> set answers. \<not> isl r)"
  using assms
proof (induction batch arbitrary: ps e answers e')
  case (Cons b batch)
  obtain p ps' where ps: "ps = p # ps'" using Cons.prems by (cases ps) auto
  obtain i cmd where b: "b = (i, cmd)" by fastforce
  obtain v e1 where a: "apply_command U E p e = (v, e1)" by fastforce
  obtain as e2 where r: "apply_batch U E (Inr ps') (map (\<lambda>(i, cmd). (i, cmd, None)) batch) e1 = (as, e2)" by fastforce
  with Cons.IH[OF _ r] Cons.prems a show ?case by (auto simp: ps b)
qed simp

lemma commit_accepts:
  assumes "maxMemory e \<le> 0" "ex_journal e = Some l" "healthy l" "log_inv l"
    "list_all record_fits (valid_commands (canonical_batch U (clock E e) (map snd batch)))"
  defines "new \<equiv> valid_commands (canonical_batch U (clock E e) (map snd batch))"
  shows "\<exists>answers e' l'. commitMutationBatch U E (log_ops U) batch e = Some (answers, e') \<and>
    map fst answers = map fst batch \<and> (\<forall>(i, r) \<in> set answers. \<not> isl r) \<and> ex_journal e' = Some l' \<and> healthy l' \<and> log_inv l' \<and>
    f_data (l_file l') = f_data (l_file l) @ records new"
proof -
  let ?ps = "map fst (canonical_batch U (clock E e) (map snd batch))"
  let ?rs = "map (\<lambda>(i, cmd). (i, cmd, None :: (go_error + Value) option)) batch"
  obtain l' where l': "log_AppendBatch U (clock E e) (map snd batch) l = (Inr ?ps, l')" "healthy l'"
    using append_accepted[OF assms(3,5)] by blast
  have a: "appended new l l'" using log_AppendBatch_correct[OF assms(4) l'(1)] by (simp add: new_def)
  have c: "checked_append (log_ops U) (clock E e) (map snd batch) l = (Inr ?ps, l')"
  proof (cases "batch = []")
    case True
    with l'(1) assms(3) show ?thesis
      by (simp add: checked_append_def log_ops_def log_AppendBatch_def healthy_def canonical_batch_def)
  next
    case False
    with l'(1) show ?thesis by (simp add: checked_append_def log_ops_def)
  qed
  obtain answers e' where b: "apply_batch U E (Inr ?ps) ?rs ((tick e)\<lparr>ex_journal := Some l'\<rparr>) = (answers, e')" by fastforce
  have "commitMutationBatch U E (log_ops U) batch e = Some (answers, e')"
    using b c assms(2) by (simp add: commitMutationBatch_def admit_batch_unlimited[OF assms(1)])
  moreover have "map fst answers = map fst batch \<and> (\<forall>(i, r) \<in> set answers. \<not> isl r)"
    by (rule apply_batch_replies[OF _ b]) simp
  moreover have "ex_journal e' = Some l'"
    using aof.apply_batch_journal[of U E "Inr ?ps" ?rs "(tick e)\<lparr>ex_journal := Some l'\<rparr>"] b by simp
  ultimately show ?thesis using a l'(2) by (auto simp: appended_def)
qed

end
