(* ===== verification/SystemLive.thy ===== *)
theory SystemLive
  imports AofLive
begin

text \<open>
  Progress of the write loop: from every reachable state the queue can be emptied, each
  request in its turn, and then every request has its answer.
\<close>

lemma system_inv_start:
  assumes "store_inv (ex_store e)" "batched J e" "writeQueue e = []" "ex_requests e = 0"
  shows "system_inv J (start_system e)"
  using assms by (simp add: system_inv_def start_system_def Let_def)

lemma system_inv_server_step:
  assumes "server_step U E s s'" "system_inv (log_ops U) s" "env_ok E"
  shows "system_inv (log_ops U) s'"
  using assms(1)
proof cases
  case executor
  then show ?thesis using system_inv_step assms(2,3) by blast
next
  case (sync l)
  with assms(2) show ?thesis by (auto simp: system_inv_def Let_def batched_def)
qed

lemma system_inv_run:
  "runs U E s s' \<Longrightarrow> env_ok E \<Longrightarrow> system_inv (log_ops U) s \<Longrightarrow> system_inv (log_ops U) s'"
  by (induction rule: rtranclp_induct) (auto intro: system_inv_server_step)

lemma started_inv:
  assumes "started U E0 dsk cfg e" "journal_disk U cs dsk" "env_ok E0"
  shows "system_inv (log_ops U) (start_system e)"
proof (rule started_shape[OF assms(1,2)])
  fix l
  assume l: "ex_journal e = Some l" "ex_store e = ex_store (replayed U E0 cs)" "writeQueue e = []" "ex_requests e = 0"
  then show ?thesis
    using replayed_inv[OF assms(3)] by (intro system_inv_start) (simp_all add: batched_def log_ops_def)
qed

text \<open>One step of the loop takes the first request.\<close>

lemma head_step:
  assumes "system_inv J s" "env_ok E" "writeQueue (sys_ex s) = q # rest"
  shows "\<exists>s'. system_step U E J s s' \<and> writeQueue (sys_ex s') = rest \<and> ex_requests (sys_ex s') = ex_requests (sys_ex s)"
proof -
  let ?e = "(sys_ex s)\<lparr>writeQueue := rest\<rparr>"
  have inv: "store_inv (ex_store (sys_ex s))" "batched J (sys_ex s)" "dispatching (sys_ex s)"
    using assms(1,3) by (auto simp: system_inv_def Let_def)
  show ?thesis
  proof (cases q)
    case (MutationRequest i cmd)
    have "store_inv (ex_store ?e)" "ex_journal ?e \<noteq> None" using inv by (simp_all add: batched_def)
    then obtain as e where c: "commitMutationBatch U E J [(i, cmd)] ?e = Some (as, e)" "frame_inv ?e e"
      using commitMutationBatch_returns[OF _ assms(2), of ?e U J "[(i, cmd)]"] by blast
    have "system_step U E J s (s\<lparr>sys_ex := e, sys_answers := sys_answers s @ as\<rparr>)"
      by (rule system_step.commit[OF inv(3) _ _ _ c(1)]) (use assms(3) MutationRequest in simp_all)
    with c(2) show ?thesis by (auto simp: frame_inv_def same_frame_def)
  next
    case (RewriteRequest i)
    obtain r e where r: "startAOFRewriteNow E J ?e = (r, e)" by fastforce
    from system_step.rewrite[OF inv(3) _ r] assms(3) RewriteRequest startAOFRewriteNow_store(2,4)[OF r]
    show ?thesis by (fastforce)
  qed
qed

lemma drains:
  assumes "system_inv J s" "env_ok E"
  shows "\<exists>s'. (system_step U E J)\<^sup>*\<^sup>* s s' \<and> writeQueue (sys_ex s') = [] \<and> ex_requests (sys_ex s') = ex_requests (sys_ex s)"
  using assms
proof (induction "writeQueue (sys_ex s)" arbitrary: s)
  case Nil
  then show ?case by (intro exI[of _ s]) simp
next
  case (Cons q rest)
  obtain s1 where s1: "system_step U E J s s1" "writeQueue (sys_ex s1) = rest" "ex_requests (sys_ex s1) = ex_requests (sys_ex s)"
    using head_step[OF Cons.prems Cons.hyps(2)[symmetric]] by blast
  have "system_inv J s1" by (rule system_inv_step[OF s1(1) Cons.prems])
  with Cons.hyps(1)[OF s1(2)[symmetric]] Cons.prems(2) obtain s' where
    "(system_step U E J)\<^sup>*\<^sup>* s1 s'" "writeQueue (sys_ex s') = []" "ex_requests (sys_ex s') = ex_requests (sys_ex s1)" by blast
  with s1 show ?case by (intro exI[of _ s']) (auto intro: converse_rtranclp_into_rtranclp)
qed

lemma executor_runs: "(system_step U E (log_ops U))\<^sup>*\<^sup>* s s' \<Longrightarrow> runs U E s s'"
  by (rule mono_rtranclp[rule_format]) (rule server_step.executor)

end
