(* ===== verification/Dispatch.thy ===== *)
theory Dispatch
  imports SystemLive
begin

text \<open>
  The channel \<open>writeQueue\<close> and the mutex \<open>dispatchMu\<close> of \<open>executor.go\<close>. The channel has room for 1024
  requests. A client that finds it full blocks in \<open>enqueue\<close> while it holds the mutex, and
  \<open>writeLoop\<close> takes the mutex when its idle timer fires. From every state in which these two do not wait for
  each other the queue can be emptied; if they do, nothing is written any more.
\<close>

text \<open>
  \<open>dp_sender\<close> is the request whose sender is blocked at the full channel, \<open>dp_pending\<close> tells that the head of the
  queue has left the channel as \<open>pending\<close>, and \<open>dp_locking\<close> that the loop waits for the mutex.
\<close>

record dispatcher =
  dp_sys :: "Log system"
  dp_sender :: "executorRequest option"
  dp_pending :: bool
  dp_locking :: bool

definition channel_len :: "dispatcher \<Rightarrow> nat" where
  "channel_len d = length (writeQueue (sys_ex (dp_sys d))) - (if dp_pending d then 1 else 0)"

definition has_room :: "dispatcher \<Rightarrow> bool" where
  "has_room d \<longleftrightarrow> channel_len d < 1024"

definition start_dispatch :: "Log Executor \<Rightarrow> dispatcher" where
  "start_dispatch e = \<lparr>dp_sys = start_system e, dp_sender = None, dp_pending = False, dp_locking = False\<rparr>"

text \<open>
  \<open>other\<close> are the steps that touch neither queue nor mutex. A request is sent at once (\<open>enqueue\<close>), or its
  sender blocks (\<open>block\<close>) and sends it when there is room (\<open>send\<close>). The loop takes a batch, possibly with the rewrite
  after it as \<open>pending\<close> (\<open>commit\<close>), or a rewrite; or its timer fires (\<open>timer\<close>), and once it has
  the mutex it ends if the channel is empty (\<open>lock\<close>).
\<close>

inductive dispatch_step :: "unicode \<Rightarrow> env \<Rightarrow> dispatcher \<Rightarrow> dispatcher \<Rightarrow> bool" for U E where
  other: "server_step U E (dp_sys d) s \<Longrightarrow> writeQueue (sys_ex s) = writeQueue (sys_ex (dp_sys d)) \<Longrightarrow>
    dispatching (sys_ex s) = dispatching (sys_ex (dp_sys d)) \<Longrightarrow> dispatch_step U E d (d\<lparr>dp_sys := s\<rparr>)"
| enqueue: "dp_sender d = None \<Longrightarrow> has_room d \<Longrightarrow> server_step U E (dp_sys d) s \<Longrightarrow>
    writeQueue (sys_ex s) = writeQueue (sys_ex (dp_sys d)) @ [q] \<Longrightarrow> dispatch_step U E d (d\<lparr>dp_sys := s\<rparr>)"
| block: "dp_sender d = None \<Longrightarrow> \<not> has_room d \<Longrightarrow> s = dp_sys d \<Longrightarrow>
    Execute U E (log_ops U) cmd (sys_ex s) = Some (r, e) \<Longrightarrow> writeQueue e = writeQueue (sys_ex s) @ [q] \<Longrightarrow>
    dispatch_step U E d (d\<lparr>dp_sys := s\<lparr>sys_ex := e\<lparr>writeQueue := writeQueue (sys_ex s), ex_requests := ex_requests (sys_ex s)\<rparr>\<rparr>,
      dp_sender := Some q\<rparr>)"
| send: "dp_sender d = Some q \<Longrightarrow> has_room d \<Longrightarrow> s = dp_sys d \<Longrightarrow>
    dispatch_step U E d (d\<lparr>dp_sys := s\<lparr>sys_ex := (sys_ex s)\<lparr>writeQueue := writeQueue (sys_ex s) @ [q],
      ex_requests := Suc (ex_requests (sys_ex s))\<rparr>\<rparr>, dp_sender := None\<rparr>)"
| commit: "\<not> dp_locking d \<Longrightarrow> \<not> dp_pending d \<Longrightarrow> server_step U E (dp_sys d) s \<Longrightarrow>
    writeQueue (sys_ex (dp_sys d)) = map (\<lambda>(i, cmd). MutationRequest i cmd) batch @ writeQueue (sys_ex s) \<Longrightarrow> 0 < length batch \<Longrightarrow>
    p \<longrightarrow> length batch < 64 \<and> (\<exists>i rest. writeQueue (sys_ex s) = RewriteRequest i # rest) \<Longrightarrow>
    dispatch_step U E d (d\<lparr>dp_sys := s, dp_pending := p\<rparr>)"
| rewrite: "\<not> dp_locking d \<Longrightarrow> server_step U E (dp_sys d) s \<Longrightarrow>
    writeQueue (sys_ex (dp_sys d)) = RewriteRequest i # writeQueue (sys_ex s) \<Longrightarrow>
    dispatch_step U E d (d\<lparr>dp_sys := s, dp_pending := False\<rparr>)"
| timer: "dispatching (sys_ex (dp_sys d)) \<Longrightarrow> \<not> dp_locking d \<Longrightarrow> \<not> dp_pending d \<Longrightarrow>
    dispatch_step U E d (d\<lparr>dp_locking := True\<rparr>)"
| lock: "dp_locking d \<Longrightarrow> dp_sender d = None \<Longrightarrow> s = dp_sys d \<Longrightarrow>
    dispatch_step U E d (d\<lparr>dp_sys := s\<lparr>sys_ex := (sys_ex s)\<lparr>dispatching := channel_len d \<noteq> 0\<rparr>\<rparr>, dp_locking := False\<rparr>)"

abbreviation dispatch_runs :: "unicode \<Rightarrow> env \<Rightarrow> dispatcher \<Rightarrow> dispatcher \<Rightarrow> bool" where
  "dispatch_runs U E \<equiv> (dispatch_step U E)\<^sup>*\<^sup>*"

text \<open>The loop waits for the mutex, and its holder for the loop.\<close>

definition write_deadlock :: "dispatcher \<Rightarrow> bool" where
  "write_deadlock d \<longleftrightarrow> dp_locking d \<and> dp_sender d \<noteq> None \<and> \<not> has_room d"

definition dispatch_inv :: "unicode \<Rightarrow> dispatcher \<Rightarrow> bool" where
  "dispatch_inv U d \<longleftrightarrow> system_inv (log_ops U) (dp_sys d) \<and>
     (\<forall>q. dp_sender d = Some q \<longrightarrow> request_id q = ex_requests (sys_ex (dp_sys d)) \<and> dispatching (sys_ex (dp_sys d))) \<and> channel_len d \<le> 1024 \<and>
     (dp_pending d \<longrightarrow> \<not> dp_locking d \<and> (\<exists>i rest. writeQueue (sys_ex (dp_sys d)) = RewriteRequest i # rest))"

lemma server_step_requests:
  assumes "server_step U E s s'" "system_inv (log_ops U) s" "env_ok E"
  shows "(\<exists>q. writeQueue (sys_ex s') = writeQueue (sys_ex s) @ [q]) \<or> ex_requests (sys_ex s') = ex_requests (sys_ex s) \<and>
    (dispatching (sys_ex s') = dispatching (sys_ex s) \<or> writeQueue (sys_ex s) = [])" (is ?P)
    "length (writeQueue (sys_ex s')) < length (writeQueue (sys_ex s)) \<or> sys_answers s' = sys_answers s" (is ?Q)
proof -
  have inv: "store_inv (ex_store (sys_ex s))" "batched (log_ops U) (sys_ex s)" using assms(2) by (simp_all add: system_inv_def Let_def)
  have step: "?P \<and> ?Q" if "system_step U E (log_ops U) s s'" using that
  proof cases
    case (client cmd r e)
    show ?thesis by (rule Execute_queue[OF inv(1) assms(3) inv(2) client(2)]) (use client(1) in simp_all)
  next
    case (expire n e)
    with ActiveExpire_inv(1)[OF inv(1) assms(3) expire(2)] show ?thesis by (simp add: frame_inv_def same_frame_def)
  next
    case (commit batch rest answers e)
    have "\<exists>answers e'. commitMutationBatch U E (log_ops U) batch ((sys_ex s)\<lparr>writeQueue := rest\<rparr>) = Some (answers, e') \<and>
        frame_inv ((sys_ex s)\<lparr>writeQueue := rest\<rparr>) e' \<and> map fst answers = map fst batch"
      by (rule commitMutationBatch_returns) (use inv assms(3) in \<open>simp_all add: batched_def\<close>)
    with commit show ?thesis by (auto simp: frame_inv_def same_frame_def)
  next
    case (rewrite i rest r e)
    with startAOFRewriteNow_store[OF rewrite(4)] show ?thesis by simp
  next
    case (finish rw j msg)
    then show ?thesis by (auto simp: Let_def finishAOFRewrite_def setRewriteResult_def split: option.splits prod.splits)
  qed (simp_all add: setRewriteResult_def)
  from assms(1) have "?P \<and> ?Q" by cases (use step in auto)
  then show ?P ?Q by blast+
qed

lemma dispatch_inv_step:
  assumes "dispatch_step U E d d'" "dispatch_inv U d" "env_ok E"
  shows "dispatch_inv U d'"
proof -
  have inv: "system_inv (log_ops U) (dp_sys d)" "store_inv (ex_store (sys_ex (dp_sys d)))" "batched (log_ops U) (sys_ex (dp_sys d))"
    using assms(2) by (simp_all add: dispatch_inv_def system_inv_def Let_def)
  note step = system_inv_server_step[OF _ inv(1) assms(3)] and reqs = server_step_requests(1)[OF _ inv(1) assms(3)]
  from assms(1) show ?thesis
  proof cases
    case (other s)
    with assms(2) step[OF other(2)] reqs[OF other(2)] show ?thesis by (auto simp: dispatch_inv_def channel_len_def)
  next
    case (enqueue s q)
    with assms(2) step[OF enqueue(4)] show ?thesis by (auto simp: dispatch_inv_def channel_len_def has_room_def)
  next
    case (block s cmd r e q)
    show ?thesis
    proof (cases rule: Execute_queue[OF inv(2) assms(3) inv(3) block(5)[unfolded block(4)]])
      case 1
      with block show ?thesis by simp
    next
      case (2 q')
      with block assms(2) show ?thesis by (auto simp: dispatch_inv_def channel_len_def system_inv_def Let_def batched_def)
    qed
  next
    case (send q s)
    with assms(2) show ?thesis
      by (cases q) (auto simp: dispatch_inv_def channel_len_def has_room_def system_inv_def Let_def batched_def
          sorted_wrt_append lessThan_Suc queue_room_def split: if_splits)
  next
    case (commit s batch p)
    with assms(2) step[OF commit(4)] reqs[OF commit(4)] show ?thesis by (auto simp: dispatch_inv_def channel_len_def)
  next
    case (rewrite s i)
    with assms(2) step[OF rewrite(3)] reqs[OF rewrite(3)] show ?thesis
      by (auto simp: dispatch_inv_def channel_len_def split: if_splits)
  next
    case timer
    with assms(2) show ?thesis by (auto simp: dispatch_inv_def channel_len_def)
  next
    case (lock s)
    with assms(2) show ?thesis by (auto simp: dispatch_inv_def channel_len_def system_inv_def Let_def batched_def)
  qed
qed

lemma dispatch_inv_run: "dispatch_runs U E d d' \<Longrightarrow> env_ok E \<Longrightarrow> dispatch_inv U d \<Longrightarrow> dispatch_inv U d'"
  by (induction rule: rtranclp_induct) (auto intro: dispatch_inv_step)

lemma started_batched:
  assumes "started U E0 dsk cfg e" "journal_disk U cs dsk"
  shows "batched (log_ops U) e" "writeQueue e = []" "ex_requests e = 0"
  by (rule started_shape[OF assms]; simp add: batched_def log_ops_def)+

lemma dispatch_inv_start: "system_inv (log_ops U) (start_system e) \<Longrightarrow> writeQueue e = [] \<Longrightarrow> dispatch_inv U (start_dispatch e)"
  by (simp add: dispatch_inv_def start_dispatch_def channel_len_def start_system_def)

subsection \<open>Progress\<close>

lemma loop_step:
  assumes "dispatch_inv U d" "env_ok E" "\<not> dp_locking d" "writeQueue (sys_ex (dp_sys d)) = q # rest"
  obtains s where "dispatch_step U E d (d\<lparr>dp_sys := s, dp_pending := False\<rparr>)" "writeQueue (sys_ex s) = rest"
    "ex_requests (sys_ex s) = ex_requests (sys_ex (dp_sys d))"
proof -
  have "system_inv (log_ops U) (dp_sys d)" using assms(1) by (simp add: dispatch_inv_def)
  from head_step[OF this assms(2,4), of U] obtain s where
    s: "server_step U E (dp_sys d) s" "writeQueue (sys_ex s) = rest" "ex_requests (sys_ex s) = ex_requests (sys_ex (dp_sys d))"
    by (auto intro: server_step.executor)
  show thesis
  proof (cases q)
    case (MutationRequest i cmd)
    then have "\<not> dp_pending d" using assms(1,4) by (auto simp: dispatch_inv_def)
    with s assms(3,4) MutationRequest show thesis
      by (intro that[of s] dispatch_step.commit[where batch = "[(i, cmd)]"]) simp_all
  next
    case (RewriteRequest i)
    with s assms(3,4) show thesis by (intro that[of s] dispatch_step.rewrite) simp_all
  qed
qed

lemma loop_drains:
  assumes "dispatch_inv U d" "env_ok E" "\<not> dp_locking d"
  shows "\<exists>d'. dispatch_runs U E d d' \<and> writeQueue (sys_ex (dp_sys d')) = [] \<and> dp_sender d' = dp_sender d \<and>
    ex_requests (sys_ex (dp_sys d')) = ex_requests (sys_ex (dp_sys d)) \<and> \<not> dp_locking d'"
  using assms
proof (induction "writeQueue (sys_ex (dp_sys d))" arbitrary: d)
  case Nil
  then show ?case by (intro exI[of _ d]) simp
next
  case (Cons q rest)
  obtain s where s: "dispatch_step U E d (d\<lparr>dp_sys := s, dp_pending := False\<rparr>)" "writeQueue (sys_ex s) = rest"
    "ex_requests (sys_ex s) = ex_requests (sys_ex (dp_sys d))"
    using loop_step[OF Cons.prems Cons.hyps(2)[symmetric]] by blast
  let ?d = "d\<lparr>dp_sys := s, dp_pending := False\<rparr>"
  have "dispatch_inv U ?d" by (rule dispatch_inv_step[OF s(1) Cons.prems(1,2)])
  then obtain d' where "dispatch_runs U E ?d d'" "writeQueue (sys_ex (dp_sys d')) = []" "dp_sender d' = dp_sender d"
    "ex_requests (sys_ex (dp_sys d')) = ex_requests (sys_ex (dp_sys d))" "\<not> dp_locking d'"
    using Cons.hyps(1)[of ?d] s(2,3) Cons.prems(2,3) by auto
  with s(1) show ?case by (intro exI[of _ d'] conjI converse_rtranclp_into_rtranclp[of "dispatch_step U E" d ?d d']) auto
qed

lemma sender_sends:
  assumes "dp_sender d \<noteq> None \<longrightarrow> has_room d"
  obtains d' where "dispatch_runs U E d d'" "dp_sender d' = None" "dp_locking d' = dp_locking d"
    "ex_requests (sys_ex (dp_sys d')) = ex_requests (sys_ex (dp_sys d)) + (if dp_sender d = None then 0 else 1)"
proof (cases "dp_sender d")
  case None
  then show thesis by (intro that[of d]) simp_all
next
  case (Some q)
  let ?s = "dp_sys d"
  let ?d = "d\<lparr>dp_sys := ?s\<lparr>sys_ex := (sys_ex ?s)\<lparr>writeQueue := writeQueue (sys_ex ?s) @ [q],
    ex_requests := Suc (ex_requests (sys_ex ?s))\<rparr>\<rparr>, dp_sender := None\<rparr>"
  have "dispatch_step U E d ?d" using dispatch_step.send[OF Some _ refl] Some assms by simp
  with Some show thesis by (intro that[of ?d]) simp_all
qed

lemma unlocks:
  assumes "\<not> write_deadlock d"
  obtains d' where "dispatch_runs U E d d'" "\<not> dp_locking d'"
    "ex_requests (sys_ex (dp_sys d')) + (if dp_sender d' = None then 0 else 1) =
     ex_requests (sys_ex (dp_sys d)) + (if dp_sender d = None then 0 else 1)"
proof (cases "dp_locking d")
  case True
  with assms obtain d1 where d1: "dispatch_runs U E d d1" "dp_sender d1 = None" "dp_locking d1"
    "ex_requests (sys_ex (dp_sys d1)) = ex_requests (sys_ex (dp_sys d)) + (if dp_sender d = None then 0 else 1)"
    by (auto simp: write_deadlock_def intro: sender_sends[of d U E])
  show thesis
    by (rule that[OF rtranclp.rtrancl_into_rtrancl[OF d1(1) dispatch_step.lock[OF d1(3,2) refl]]]) (use d1(2,4) in simp_all)
next
  case False
  then show thesis by (intro that[of d]) simp_all
qed

lemma dispatch_drains:
  assumes "dispatch_inv U d" "env_ok E" "\<not> write_deadlock d"
  shows "\<exists>d'. dispatch_runs U E d d' \<and> writeQueue (sys_ex (dp_sys d')) = [] \<and> dp_sender d' = None \<and>
    ex_requests (sys_ex (dp_sys d')) = ex_requests (sys_ex (dp_sys d)) + (if dp_sender d = None then 0 else 1)"
proof -
  note inv = dispatch_inv_run[OF _ assms(2)]
  obtain d1 where d1: "dispatch_runs U E d d1" "\<not> dp_locking d1"
    "ex_requests (sys_ex (dp_sys d1)) + (if dp_sender d1 = None then 0 else 1) =
     ex_requests (sys_ex (dp_sys d)) + (if dp_sender d = None then 0 else 1)" using unlocks[OF assms(3)] by blast
  obtain d2 where d2: "dispatch_runs U E d1 d2" "writeQueue (sys_ex (dp_sys d2)) = []" "dp_sender d2 = dp_sender d1"
    "ex_requests (sys_ex (dp_sys d2)) = ex_requests (sys_ex (dp_sys d1))" "\<not> dp_locking d2"
    using loop_drains[OF inv[OF d1(1) assms(1)] assms(2) d1(2)] by blast
  have "has_room d2" using d2(2) by (simp add: has_room_def channel_len_def)
  then obtain d3 where d3: "dispatch_runs U E d2 d3" "dp_sender d3 = None" "\<not> dp_locking d3"
    "ex_requests (sys_ex (dp_sys d3)) = ex_requests (sys_ex (dp_sys d2)) + (if dp_sender d2 = None then 0 else 1)"
    using sender_sends[of d2 U E] d2(5) by metis
  have run: "dispatch_runs U E d d3" using d1(1) d2(1) d3(1) by (meson rtranclp_trans)
  obtain d4 where d4: "dispatch_runs U E d3 d4" "writeQueue (sys_ex (dp_sys d4)) = []" "dp_sender d4 = dp_sender d3"
    "ex_requests (sys_ex (dp_sys d4)) = ex_requests (sys_ex (dp_sys d3))"
    using loop_drains[OF inv[OF run assms(1)] assms(2) d3(3)] by blast
  show ?thesis
    by (intro exI[of _ d4] conjI rtranclp_trans[OF run d4(1)]) (use d1(3) d2(3,4) d3(2,4) d4 in simp_all)
qed

subsection \<open>The deadlock\<close>

lemma deadlock_step:
  assumes "dispatch_step U E d d'" "write_deadlock d" "dispatch_inv U d" "env_ok E"
  shows "write_deadlock d' \<and> dp_sender d' = dp_sender d \<and> writeQueue (sys_ex (dp_sys d')) = writeQueue (sys_ex (dp_sys d)) \<and>
    sys_answers (dp_sys d') = sys_answers (dp_sys d)"
  using assms(1)
proof cases
  case (other s)
  have "system_inv (log_ops U) (dp_sys d)" using assms(3) by (simp add: dispatch_inv_def)
  then have "sys_answers s = sys_answers (dp_sys d)" using server_step_requests(2)[OF other(2) _ assms(4)] other(3) by simp
  with other assms(2) show ?thesis by (auto simp: write_deadlock_def has_room_def channel_len_def)
qed (use assms(2) in \<open>auto simp: write_deadlock_def\<close>)

lemma deadlock_run:
  assumes "dispatch_runs U E d d'" "write_deadlock d" "dispatch_inv U d" "env_ok E"
  shows "write_deadlock d' \<and> dp_sender d' = dp_sender d \<and> writeQueue (sys_ex (dp_sys d')) = writeQueue (sys_ex (dp_sys d)) \<and>
    sys_answers (dp_sys d') = sys_answers (dp_sys d)"
  using assms(1)
proof (induction rule: rtranclp_induct)
  case base
  with assms(2) show ?case by simp
next
  case (step d1 d2)
  with deadlock_step[OF step(2) _ dispatch_inv_run[OF step(1) assms(4,3)] assms(4)] show ?case by simp
qed

lemma mutation_queued:
  assumes "batched J e" "IsMutation (cmd_name cmd)"
  shows "Execute U E J cmd e = Some (Waiting (ex_requests e), enqueue (\<lambda>i. MutationRequest i cmd) e)"
proof -
  have "cmd_name cmd \<noteq> ''AOFREWRITE''" using assms(2) by (auto simp: IsMutation_def)
  with assms show ?thesis by (simp add: Execute_def batched_def)
qed

lemma fills:
  assumes "batched (log_ops U) e" "writeQueue e = []" "ex_requests e = 0" "IsMutation (cmd_name cmd)" "n \<le> 1024"
  shows "\<exists>d. dispatch_runs U E (start_dispatch e) d \<and> dp_sender d = None \<and> \<not> dp_pending d \<and> \<not> dp_locking d \<and>
    batched (log_ops U) (sys_ex (dp_sys d)) \<and> sys_answers (dp_sys d) = [] \<and>
    writeQueue (sys_ex (dp_sys d)) = map (\<lambda>i. MutationRequest i cmd) [0..<n] \<and> ex_requests (sys_ex (dp_sys d)) = n"
  using assms(5)
proof (induction n)
  case 0
  with assms(1-3) show ?case by (intro exI[of _ "start_dispatch e"]) (simp add: start_dispatch_def start_system_def)
next
  case (Suc n)
  then obtain d where d: "dispatch_runs U E (start_dispatch e) d" "dp_sender d = None" "\<not> dp_pending d" "\<not> dp_locking d"
    "batched (log_ops U) (sys_ex (dp_sys d))" "sys_answers (dp_sys d) = []"
    "writeQueue (sys_ex (dp_sys d)) = map (\<lambda>i. MutationRequest i cmd) [0..<n]" "ex_requests (sys_ex (dp_sys d)) = n" by auto
  let ?s = "(dp_sys d)\<lparr>sys_ex := enqueue (\<lambda>i. MutationRequest i cmd) (sys_ex (dp_sys d))\<rparr>"
  have "system_step U E (log_ops U) (dp_sys d) ?s"
    by (rule system_step.client[OF mutation_queued[OF d(5) assms(4)]]) (use d(7) Suc.prems in \<open>simp add: enqueue_def queue_room_def\<close>)
  then have "dispatch_step U E d (d\<lparr>dp_sys := ?s\<rparr>)"
    by (intro dispatch_step.enqueue[where q = "MutationRequest n cmd"] server_step.executor)
      (use d Suc.prems in \<open>simp_all add: has_room_def channel_len_def enqueue_def\<close>)
  with d(1) have "dispatch_runs U E (start_dispatch e) (d\<lparr>dp_sys := ?s\<rparr>)" by (rule rtranclp.rtrancl_into_rtrancl)
  with d show ?case by (intro exI[of _ "d\<lparr>dp_sys := ?s\<rparr>"]) (simp add: enqueue_def batched_def)
qed

lemma deadlock_reached:
  assumes "batched (log_ops U) e" "writeQueue e = []" "ex_requests e = 0" "IsMutation (cmd_name cmd)"
    "system_inv (log_ops U) (start_system e)" "env_ok E"
  shows "\<exists>d. dispatch_runs U E (start_dispatch e) d \<and> write_deadlock d \<and> dispatch_inv U d \<and> sys_answers (dp_sys d) = [] \<and>
    writeQueue (sys_ex (dp_sys d)) = map (\<lambda>i. MutationRequest i cmd) [0..<1024] \<and> dp_sender d = Some (MutationRequest 1024 cmd)"
proof -
  obtain d where d: "dispatch_runs U E (start_dispatch e) d" "dp_sender d = None" "\<not> dp_pending d" "\<not> dp_locking d"
    "batched (log_ops U) (sys_ex (dp_sys d))" "sys_answers (dp_sys d) = []"
    "writeQueue (sys_ex (dp_sys d)) = map (\<lambda>i. MutationRequest i cmd) [0..<1024]" "ex_requests (sys_ex (dp_sys d)) = 1024"
    using fills[OF assms(1-4), of 1024 E] by auto
  have full: "\<not> has_room d" using d(3,7) by (simp add: has_room_def channel_len_def)
  let ?s = "dp_sys d" and ?e = "enqueue (\<lambda>i. MutationRequest i cmd) (sys_ex (dp_sys d))"
  let ?d = "d\<lparr>dp_sys := ?s\<lparr>sys_ex := ?e\<lparr>writeQueue := writeQueue (sys_ex ?s), ex_requests := ex_requests (sys_ex ?s)\<rparr>\<rparr>,
    dp_sender := Some (MutationRequest 1024 cmd)\<rparr>"
  have "dispatch_step U E d ?d"
    by (rule dispatch_step.block[OF d(2) full refl mutation_queued[OF d(5) assms(4)]]) (simp add: enqueue_def d(8))
  moreover have "dispatch_step U E ?d (?d\<lparr>dp_locking := True\<rparr>)"
    by (rule dispatch_step.timer) (use d(3,4) in \<open>simp_all add: enqueue_def\<close>)
  ultimately have run: "dispatch_runs U E (start_dispatch e) (?d\<lparr>dp_locking := True\<rparr>)"
    using d(1) by (meson rtranclp.rtrancl_into_rtrancl)
  have "dispatch_inv U (?d\<lparr>dp_locking := True\<rparr>)"
    by (rule dispatch_inv_run[OF run assms(6)]) (rule dispatch_inv_start[OF assms(5,2)])
  with run d full show ?thesis
    by (intro exI[of _ "?d\<lparr>dp_locking := True\<rparr>"]) (simp add: write_deadlock_def has_room_def channel_len_def)
qed

end
