(* ===== verification/ConfigTheorems.thy ===== *)
theory ConfigTheorems
  imports Config
begin

text \<open>The theorems about the configuration: sizes and validation.\<close>

text \<open>
  C36: a size that is accepted is the product of a decimal number and the factor of its unit,
  computed without wrapping around, and is neither negative nor beyond 63 bits.
\<close>

theorem parse_bytes_bounds:
  assumes "ParseBytes U txt = Inr n"
  shows "0 \<le> n \<and> n < 2 ^ 63 \<and>
    (\<exists>digits m multiplier. split_unit size_units (ToLower U (TrimSpace U txt)) = (digits, multiplier) \<and>
       ParseInt (TrimSpace U digits) = Some m \<and> n = m * multiplier)"
proof -
  obtain digits m multiplier where "split_unit size_units (ToLower U (TrimSpace U txt)) = (digits, multiplier)"
    "ParseInt (TrimSpace U digits) = Some m" "n = m * multiplier" "0 \<le> n" "n \<le> MaxInt64"
    using ParseBytes_shape[OF assms] by blast
  then show ?thesis by (simp add: MaxInt64_def)
qed

theorem parse_bytes_bounds_witness: "ParseBytes plain_unicode ''64kb'' = Inr 65536 \<and> (0 :: int) \<le> 65536 \<and> (65536 :: int) < 2 ^ 63"
proof -
  have "ParseInt ''64'' = Some 64" by (simp add: ParseInt_def parse_uint_def digits_value_def is_digit_def)
  moreover have "TrimSpace plain_unicode ''64kb'' = ''64kb''" "TrimSpace plain_unicode ''64'' = ''64''"
    "ToLower plain_unicode ''64kb'' = ''64kb''" "split_unit size_units ''64kb'' = (''64'', 1024)" by code_simp+
  ultimately have p: "ParseBytes plain_unicode ''64kb'' = Inr 65536" by (simp add: ParseBytes_def MaxInt64_def wrap64_def)
  have "(0 :: int) \<le> 65536 \<and> (65536 :: int) < 2 ^ 63" using parse_bytes_bounds[OF p] by (elim conjE) (intro conjI)
  with p show ?thesis by (intro conjI) simp_all
qed

text \<open>
  A configuration that passes validation has a port, limits and timeouts that the server can
  use, and filling in the defaults changes at most an empty sync policy, which is valid only without persistence.
\<close>

theorem valid_config:
  assumes "Validate U c = None"
  shows "0 < MaxConnections c \<and> 0 < MaxRequestBytes c \<and> 0 < MaxResponseBytes c \<and> 0 < ReadTimeout c \<and> 0 < WriteTimeout c \<and>
    0 \<le> MaxMemoryBytes c \<and> (\<exists>p. ParseInt (Port c) = Some p \<and> 0 \<le> p \<and> p \<le> 65535) \<and>
    (AOFEnabled c \<longrightarrow> AOFPath c \<noteq> [] \<and> AOFSyncPolicy c \<in> {''always'', ''everysec'', ''no''}) \<and>
    WithDefaults c = c\<lparr>AOFSyncPolicy := (if AOFSyncPolicy c = '''' then AOFSyncPolicy DefaultConfig else AOFSyncPolicy c)\<rparr>"
proof -
  have checks: "(if b then Some err else x) = None \<longleftrightarrow> \<not> b \<and> x = None" for b x and err :: go_error by simp
  have v: "valid_port (Port c)" "0 < MaxConnections c" "0 < MaxRequestBytes c" "0 < MaxResponseBytes c" "0 < ReadTimeout c"
    "0 < WriteTimeout c" "0 \<le> MaxMemoryBytes c" "MaxMemoryPolicy c \<in> {PolicyNoEviction, PolicyAllKeysLRU}"
    "\<not> (AOFEnabled c \<and> TrimSpace U (AOFPath c) = '''')"
    "\<not> (AOFEnabled c \<and> AOFSyncPolicy c \<notin> {''always'', ''everysec'', ''no''})"
    using assms unfolding Validate_def checks by simp_all
  have "TrimSpace U [] = []" by (simp add: TrimSpace_def is_ascii_def)
  with v(9,10) have a: "AOFEnabled c \<Longrightarrow> AOFPath c \<noteq> []" "AOFEnabled c \<Longrightarrow> AOFSyncPolicy c \<in> {''always'', ''everysec'', ''no''}"
    by auto
  have "WithDefaults c = c\<lparr>AOFSyncPolicy := (if AOFSyncPolicy c = '''' then AOFSyncPolicy DefaultConfig else AOFSyncPolicy c)\<rparr>"
    using v(2-8) a unfolding WithDefaults_def PolicyNoEviction_def PolicyAllKeysLRU_def by (auto intro!: Config.equality)
  with v a show ?thesis by (simp add: valid_port_def split: option.splits)
qed

theorem valid_config_witness: "Validate plain_unicode DefaultConfig = None \<and> WithDefaults DefaultConfig = DefaultConfig"
  using valid_config[OF Validate_DefaultConfig] Validate_DefaultConfig by (simp add: DefaultConfig_def)

end
