(* ===== verification/WireTheorems.thy ===== *)
theory WireTheorems
  imports Replay
begin

text \<open>The theorems about the wire protocol: encoder, decoder and command parser.\<close>

lemma wf_value_typed: "wf_value v \<Longrightarrow> typed v"
proof (induction v rule: typed.induct)
  case (1 t null s n vs)
  then show ?case by (auto simp: list_all_iff)
qed

lemma encodeElements_typed:
  assumes "\<And>v w. v \<in> set vs \<Longrightarrow> fst (Encode append_writer v w) = None \<longleftrightarrow> typed v"
  shows "fst (encodeElements append_writer vs w) = None \<longleftrightarrow> list_all typed vs"
  using assms
proof (induction vs arbitrary: w)
  case (Cons v vs)
  obtain r w' where e: "Encode append_writer v w = (r, w')" by fastforce
  with Cons.prems[of v w] Cons.IH[of w'] Cons.prems show ?case by (cases r) auto
qed simp

text \<open>
  C12: round trip. Every value within the limits of the protocol (strings and arrays no longer
  than the decoder allows, integers of 64 bits, nesting of at most 64, no line feed in a
  simple string or an error) is encoded without an error, and a decoder with enough budget
  that has the encoding in front of any further input returns the value and leaves that
  input.
\<close>

theorem decode_encode_roundtrip:
  assumes "wf_value v" "vdepth v \<le> maxRESPDepth"
  shows "\<exists>bytes. Encode append_writer v [] = (None, bytes) \<and>
    (\<forall>d rest. d_input d = bytes @ rest \<and> int (cost v) \<le> maxMessageBytes d \<longrightarrow>
       Decode U d = (Inr v, d\<lparr>d_input := rest, messageBytes := int (cost v)\<rparr>))"
proof -
  have "Encode append_writer v [] = (None, encoding v)" using Encode_append[OF wf_value_typed[OF assms(1)]] by simp
  with Decode_encoding[OF assms] show ?thesis by blast
qed

theorem decode_encode_roundtrip_witness:
  "let v = NewArray [NewBulkString ''GET'', NewInteger (- 5), NewNullBulkString, NewArray [NewSimpleString ''OK'']]
   in \<exists>bytes. Encode append_writer v [] = (None, bytes) \<and>
     fst (Decode plain_unicode (NewDecoder (bytes @ ''rest'') EOF 4096)) = Inr v \<and>
     d_input (snd (Decode plain_unicode (NewDecoder (bytes @ ''rest'') EOF 4096))) = ''rest''"
proof -
  let ?v = "NewArray [NewBulkString ''GET'', NewInteger (- 5), NewNullBulkString, NewArray [NewSimpleString ''OK'']]"
  have "wf_value ?v" "vdepth ?v \<le> maxRESPDepth" "cost ?v \<le> 100"
    by (simp_all add: new_values line_value_def maxRESPLineLength_def maxBulkStringLength_def maxArrayLength_def
        maxRESPDepth_def in_int64_def format_int_def format_nat.simps)
  moreover have "maxMessageBytes (NewDecoder i EOF 4096) = 2097152" "d_input (NewDecoder i EOF 4096) = i" for i
    by (simp_all add: NewDecoder_def NewDecoderWithLimit_def)
  ultimately show ?thesis
    using decode_encode_roundtrip[of ?v plain_unicode] by (auto simp: Let_def)
qed

text \<open>
  C26: a message that was cut off is never taken for another one. If the input ends before
  the end of the encoding of a value within the limits, decoding reports the end of the
  input: the error of the reader, or an unexpected end of file.
\<close>

theorem decode_truncated:
  assumes "wf_value v" "vdepth v \<le> maxRESPDepth" "int (cost v) \<le> maxMessageBytes d"
    "d_input d @ missing = encoding v" "missing \<noteq> []"
  shows "\<exists>e d'. Decode U d = (Inl (IO e), d') \<and> (e = d_err d \<or> e = ErrUnexpectedEOF)"
  using Decode_cut[OF assms(1,2,4,5,3)] by (simp add: torn_def)

theorem decode_truncated_witness:
  "\<exists>e d'. Decode plain_unicode (NewDecoder (''$3'' @ CRLF @ ''ab'') EOF 4096) = (Inl (IO e), d') \<and>
     (e = EOF \<or> e = ErrUnexpectedEOF)"
proof -
  have "format_int 3 = ''3''" by code_simp
  then show ?thesis
    using decode_truncated[of "NewBulkString ''abc''" "NewDecoder (''$3'' @ CRLF @ ''ab'') EOF 4096" "''c'' @ CRLF" plain_unicode]
    by (simp add: new_values maxBulkStringLength_def maxRESPDepth_def NewDecoder_def NewDecoderWithLimit_def)
qed

text \<open>
  C27: bounds. A decode that returns a value has taken a nonempty prefix of the input that is
  no longer than the message limit, and it neither changes the limit nor depends on what
  follows: with more input behind, it returns the same value and leaves the additional input
  unread.
\<close>

theorem decode_bounded:
  assumes "Decode U d = (Inr v, d')" "0 \<le> maxMessageBytes d"
  shows "\<exists>used. d_input d = used @ d_input d' \<and> used \<noteq> [] \<and> int (length used) \<le> maxMessageBytes d \<and>
    maxMessageBytes d' = maxMessageBytes d \<and>
    Decode U (d\<lparr>d_input := d_input d @ y\<rparr>) = (Inr v, d'\<lparr>d_input := d_input d' @ y\<rparr>)"
proof -
  obtain used where "d_input d = used @ d_input d'" "used \<noteq> []" "int (length used) \<le> maxMessageBytes d"
    using Decode_takes(1)[OF assms] by blast
  then show ?thesis
    by (intro exI[of _ used] conjI Decode_takes(2)[OF assms] Decode_takes(5)[OF assms, of y, unfolded with_input_def])
qed

theorem decode_bounded_witness:
  "\<exists>used d'. ''+OK'' @ CRLF @ ''+NO'' = used @ d_input d' \<and> used \<noteq> [] \<and> int (length used) \<le> 2097152 \<and>
     Decode plain_unicode (NewDecoder (''+OK'' @ CRLF @ ''+NO'') EOF 4096) = (Inr (NewSimpleString ''OK''), d')"
proof -
  let ?d = "NewDecoder (''+OK'' @ CRLF @ ''+NO'') EOF 4096"
  have f: "d_input ?d = ''+OK'' @ CRLF @ ''+NO''" "maxMessageBytes ?d = 2097152"
    by (simp_all add: NewDecoder_def NewDecoderWithLimit_def)
  have r: "Decode plain_unicode ?d = (Inr (NewSimpleString ''OK''), ?d\<lparr>d_input := ''+NO'', messageBytes := 5\<rparr>)"
    using Decode_encoding[of "NewSimpleString ''OK''" ?d "''+NO''" plain_unicode] f
    by (simp add: new_values line_value_def maxRESPLineLength_def maxRESPDepth_def)
  obtain used where "d_input ?d = used @ ''+NO''" "used \<noteq> []" "int (length used) \<le> maxMessageBytes ?d"
    using decode_bounded[OF r] f(2) by auto
  with r f show ?thesis
    by (intro exI[of _ used] exI[of _ "?d\<lparr>d_input := ''+NO'', messageBytes := 5\<rparr>"]) simp
qed

text \<open>
  Encoding reports an error exactly for a value that holds, at any depth, a type other
  than the five of the protocol.
\<close>

theorem encode_fails_iff_untyped: "fst (Encode append_writer v w) = None \<longleftrightarrow> typed v"
proof (induction v arbitrary: w rule: typed.induct)
  case (1 t null s n vs)
  then show ?case
    using encodeElements_typed[of vs]
    by (auto simp: Let_def encodeSimpleString_def encodeError_def encodeInteger_def encodeBulkString_def)
qed

text \<open>
  C28: the record of a mutation that is within the limits of the decoder (fewer than 1024 arguments, each at
  most 1 MiB, and 4 MiB for the whole request) is read back as the same command: decoding its
  bytes in front of any further input, with a decoder whose limit is at least that of a record, and parsing
  the value gives the command, and leaves the input.
\<close>

theorem command_record_roundtrip:
  assumes "replayable c" "d_input d = record_bytes c @ rest" "int maxRecordBytes \<le> maxMessageBytes d"
  shows "\<exists>v d'. Decode U d = (Inr v, d') \<and> Parse U v = Inr c \<and> d_input d' = rest"
proof -
  have "ToUpper U (cmd_name c) = cmd_name c" using assms(1) by (simp add: replayable_def ToUpper_mutation)
  moreover have "Decode U d = (Inr (command_value c), d\<lparr>d_input := rest, messageBytes := int (cost (command_value c))\<rparr>)"
    by (rule Decode_encoding[OF command_value_wf[OF assms(1)]])
      (use assms in \<open>auto simp: record_bytes_def replayable_def\<close>)
  ultimately show ?thesis using Parse_command_value by fastforce
qed

theorem command_record_roundtrip_witness:
  "\<exists>v d'. Decode plain_unicode (NewDecoderWithLimit (record_bytes (mk_cmd ''DEL'' [''a'']) @ ''*1'') EOF 4096 (int maxRecordBytes)) =
     (Inr v, d') \<and> Parse plain_unicode v = Inr (mk_cmd ''DEL'' [''a'']) \<and> d_input d' = ''*1''"
  by (rule command_record_roundtrip)
    (simp_all add: NewDecoderWithLimit_def replayable_def IsMutation_def maxArrayLength_def maxBulkStringLength_def
      command_value_def new_values maxRecordBytes_def format_int_def format_nat.simps)

end
