(* ===== verification/CommandTypes.thy ===== *)
theory CommandTypes
  imports CommandCorrect
begin

text \<open>Every reply of a command is a value of one of the five types, at every depth.\<close>

lemma typed_new [simp]:
  "typed (NewSimpleString t)" "typed (NewError t)" "typed (NewInteger n)" "typed (NewBulkString t)" "typed NewNullBulkString"
  "typed (NewArray vs) \<longleftrightarrow> list_all typed vs"
  by (simp_all add: new_values)

lemma typed_replies [simp]:
  "typed (wrong_args n)" "typed (storageError e)" "typed not_integer" "typed syntax_error" "typed bad_expire" "typed (stringArray xs)"
  by (simp_all add: wrong_args_def storageError_def not_integer_def syntax_error_def bad_expire_def stringArray_def
      list_all_iff split: store_error.split)

lemma typed_rest [simp]:
  "typed (fst (int_reply r))" "typed (fst (bulk_reply q))" "typed (handlePing args)"
  by (auto simp: int_reply_def bulk_reply_def handlePing_def split: prod.splits sum.splits option.splits list.splits)

lemma typed_parse:
  "parseListInteger a = Inl v \<Longrightarrow> typed v" "set_options U opts st = Inl v \<Longrightarrow> typed v" "position_options U opts r = Inl v \<Longrightarrow> typed v"
proof -
  show "parseListInteger a = Inl v \<Longrightarrow> typed v" for a by (auto simp: parseListInteger_def split: option.splits)
  then show "position_options U opts r = Inl v \<Longrightarrow> typed v"
    by (induction U opts r rule: position_options.induct) (auto split: sum.splits if_splits)
  show "set_options U opts st = Inl v \<Longrightarrow> typed v"
    by (induction U opts st rule: set_options.induct) (auto split: option.splits if_splits)
qed

lemma typed_handlers [simp]:
  "typed (fst (handleGet clk args s))" "typed (fst (handleTTL clk args s))" "typed (fst (handleDel clk args s))"
  "typed (fst (handleExpire clk args s))" "typed (fst (handleExpireAt clk args s))"
  by (simp_all add: handleGet_def handleTTL_def handleDel_def handleExpire_def handleExpireAt_def Let_def
      split: prod.splits sum.splits option.splits)

lemma typed_handleSet [simp]: "typed (fst (handleSet U clk args s))"
  by (simp add: handleSet_def typed_parse split: list.splits prod.splits sum.splits)

lemma typed_handleListPush [simp]: "typed (fst (handleListPush U clk name args s))"
  by (simp add: handleListPush_def Let_def)

lemma typed_handleListPop [simp]: "typed (fst (handleListPop U clk name args s))"
  by (auto simp: handleListPop_def Let_def typed_parse split: list.splits prod.splits sum.splits if_splits)

lemma typed_handleListPosition [simp]: "typed (fst (handleListPosition U clk args s))"
  by (auto simp: handleListPosition_def typed_parse list_all_iff split: list.splits prod.splits sum.splits)

lemma typed_if: "(b \<Longrightarrow> typed (fst x)) \<Longrightarrow> (\<not> b \<Longrightarrow> typed (fst y)) \<Longrightarrow> typed (fst (if b then x else y))"
  by simp

lemma typed_sum:
  "(\<And>x. r = Inl x \<Longrightarrow> typed (fst (f x))) \<Longrightarrow> (\<And>y. typed (fst (g y))) \<Longrightarrow>
    typed (fst (case r of Inl x \<Rightarrow> f x | Inr y \<Rightarrow> g y))"
  by (cases r) simp_all

lemma typed_list_command [simp]: "typed (fst (handleListCommand U clk name args s))"
  unfolding handleListCommand_def Let_def
  by (intro typed_if typed_sum) (simp_all add: typed_parse split: prod.splits sum.splits option.splits)

lemma execute_typed: "typed (fst (execute U clk cmd s))"
  by (simp add: execute_def Let_def)

end
