(* ===== verification/StoreTheorems.thy ===== *)
theory StoreTheorems
  imports CommandEffects CommandTypes
begin

text \<open>The theorems about the store, its circular lists and key indexes, and the commands on it.\<close>

subsection \<open>Lists and key indexes\<close>

text \<open>
  C34: the circular buffer is a queue. After pushing any values at the right end of a list of
  any shape (wrapped around or not, full or not) and popping all elements from the left, the
  pops have returned the old elements followed by the new ones in order, and the list is
  empty and well formed again.
\<close>

theorem list_fifo:
  assumes "lv_inv l" "l' = fold (\<lambda>v. push v False) vs l"
  shows "fst (pop_loop (pop True) (lv_Len l') l') = contents l @ vs \<and>
    contents (snd (pop_loop (pop True) (lv_Len l') l')) = [] \<and> lv_inv (snd (pop_loop (pop True) (lv_Len l') l'))"
proof -
  have "lv_inv l'" "contents l' = contents l @ vs" using dq.push_all[OF assms(1), of False vs] assms(2) by simp_all
  then show ?thesis using dq.pop_many[of l' "lv_Len l'" True] by (simp add: dq.len_elems)
qed

theorem list_fifo_witness:
  "fst (pop_loop (pop True) 3 (push ''c'' False (push ''b'' False (push ''a'' True empty_list)))) = [''a'', ''b'', ''c'']"
proof -
  let ?l = "push ''a'' True empty_list"
  have l: "lv_inv ?l" "contents ?l = [''a'']" by (simp_all add: dq.inv_push dq.elems_push dq.inv_empty dq.elems_empty)
  have "contents (push ''c'' False (push ''b'' False ?l)) = [''a'', ''b'', ''c'']" using l by (simp add: dq.inv_push dq.elems_push)
  then have "lv_Len (push ''c'' False (push ''b'' False ?l)) = 3" by (simp add: dq.len_elems)
  with list_fifo[OF l(1) refl, of "[''b'', ''c'']"] l(2) show ?thesis by simp
qed

text \<open>
  The index that random sampling draws from. After any additions and removals of keys,
  starting from an index that satisfies the invariant, the positions below its size
  enumerate exactly the keys that are left, each once.
\<close>

theorem index_enumerates:
  assumes "ix_inv ix" "ix' = fold ix_remove rs (fold ix_add ks ix)"
  shows "ix_inv ix' \<and> ix_at ix' ` {..<ix_size ix'} = (ix_members ix \<union> set ks) - set rs \<and>
    inj_on (ix_at ix') {..<ix_size ix'}"
proof -
  have add: "ix_inv (fold ix_add ks ix) \<and> ix_members (fold ix_add ks ix) = ix_members ix \<union> set ks"
    using assms(1) by (induction ks arbitrary: ix) (auto simp: ks.inv_add ks.members_add)
  then have i: "ix_inv ix'" "ix_members ix' = (ix_members ix \<union> set ks) - set rs"
    using ks.remove_all[of "fold ix_add ks ix" rs] assms(2) by simp_all
  have "card (ix_at ix' ` {..<ix_size ix'}) = card {..<ix_size ix'}"
    unfolding ks.members_pick[OF i(1), symmetric] ks.size_members[OF i(1), symmetric] by (simp add: ks.size_members[OF i(1)])
  then have "inj_on (ix_at ix') {..<ix_size ix'}" by (intro eq_card_imp_inj_on) simp_all
  then show ?thesis using i ks.members_pick[OF i(1)] by blast
qed

theorem index_enumerates_witness:
  "let ix = fold ix_remove [''b''] (fold ix_add [''a'', ''b'', ''a'', ''c''] empty_index)
   in ix_at ix ` {..<ix_size ix} = {''a'', ''c''}"
  using index_enumerates[OF empty_index_inv(1) refl, of "[''b'']" "[''a'', ''b'', ''a'', ''c'']"] by (auto simp: Let_def)

subsection \<open>Expiration, eviction and snapshots\<close>

text \<open>
  C33: the remaining time of a key is \<open>-2\<close> if it is missing or has expired, \<open>-1\<close> if it has
  no deadline, and otherwise the whole seconds that are left (durations saturate at 63 bits)
  or, when the rounding of the floating-point division goes up, one more. The query changes
  nothing but the removal of the key if it has expired.
\<close>

theorem ttl_bounds:
  assumes "store_inv s" "TTL clk k s = (n, s')"
  shows "store_inv s' \<and> abs_store s' = purge (clk 0) k (abs_store s) \<and>
    (case purge (clk 0) k (abs_store s) k of
       None \<Rightarrow> n = - 2
     | Some (_, None) \<Rightarrow> n = - 1
     | Some (_, Some d) \<Rightarrow> let r = min (2 ^ 63 - 1) (d - clk 0) div Second in r \<le> n \<and> n \<le> r + 1)"
proof -
  have r: "store_inv s'" "n = fst (spec_ttl (clk 0) k (abs_store s))" "abs_store s' = purge (clk 0) k (abs_store s)"
    using TTL_refines[OF assms(1), of clk k] assms(2) by (simp_all add: refines_def spec_ttl_def Let_def)
  have "let r = min (2 ^ 63 - 1) (d - clk 0) div Second in r \<le> n \<and> n \<le> r + 1"
    if p: "purge (clk 0) k (abs_store s) k = Some (v, Some d)" for v d
  proof -
    from p have "clk 0 < d" by (auto simp: purge_same expired_def split: option.splits if_splits)
    then have "Sub d (clk 0) = min (2 ^ 63 - 1) (d - clk 0)" by (auto simp: Sub_def)
    moreover have "n = \<lfloor>Seconds (Sub d (clk 0))\<rfloor>" using p r(2) by (simp add: spec_ttl_def Let_def)
    ultimately show ?thesis
      using Seconds_floor(1)[of "min (2 ^ 63 - 1) (d - clk 0)"] \<open>clk 0 < d\<close> by (simp add: Let_def)
  qed
  with r show ?thesis by (auto simp: spec_ttl_def Let_def split: option.splits)
qed

theorem ttl_bounds_witness:
  "let s = Set wclk ''k'' ''v'' (5 * Second) NewStore; n = fst (TTL wclk ''k'' s) in 5 \<le> n \<and> n \<le> 6"
proof -
  let ?s = "Set wclk ''k'' ''v'' (5 * Second) NewStore"
  have "store_inv ?s" "abs_store ?s ''k'' = Some (AStr ''v'', Some (5 * Second))"
    using Set_refines[OF NewStore_refines(1) wclk_ok, of "''k''" "''v''" "5 * Second"]
    by (simp_all add: spec_set_def wclk_def)
  then show ?thesis
    using ttl_bounds[of ?s wclk "''k''", OF _ prod.collapse[symmetric]]
    by (simp add: Let_def wclk_def purge_same expired_def)
qed

text \<open>
  C31: an active expiration cycle removes only keys whose deadline has passed when it ends,
  changes no other key, and keeps the invariant, whatever the random numbers and however
  the clock advances.
\<close>

theorem active_expiration_safe:
  assumes "store_inv s" "mono clk" "ActiveExpireCycle clk rnd s = (n, s')"
  shows "store_inv s' \<and>
    (\<forall>k. abs_store s' k = abs_store s k \<or> abs_store s' k = None \<and> (\<exists>e. abs_store s k = Some e \<and> expired (clk 401) e))"
  using ActiveExpireCycle_refines[OF assms] by (simp add: only_expired_def)

theorem active_expiration_safe_witness:
  "let s = Set wclk ''k'' ''v'' 0 NewStore; s' = snd (ActiveExpireCycle wclk (\<lambda>i j. 0) s)
   in store_inv s' \<and> abs_store s' ''k'' = Some (AStr ''v'', None)"
proof -
  let ?s = "Set wclk ''k'' ''v'' 0 NewStore"
  have s: "store_inv ?s" "abs_store ?s ''k'' = Some (AStr ''v'', None)"
    using Set_refines[OF NewStore_refines(1) wclk_ok, of "''k''" "''v''" 0] by (simp_all add: spec_set_def)
  have "store_inv (snd (ActiveExpireCycle wclk (\<lambda>i j. 0) ?s)) \<and>
      (abs_store (snd (ActiveExpireCycle wclk (\<lambda>i j. 0) ?s)) ''k'' = abs_store ?s ''k'' \<or>
       (\<exists>e. abs_store ?s ''k'' = Some e \<and> expired (wclk 401) e))"
    using active_expiration_safe[OF s(1) _ prod.collapse[symmetric], of wclk "\<lambda>i j. 0"] wclk_ok
    unfolding clock_ok_def by blast
  with s(2) show ?thesis by (simp add: Let_def expired_def)
qed

text \<open>
  The sample of an expiration cycle never returns a key that is alive, stays within its
  limit, and is empty only if no key of the store has a deadline.
\<close>

theorem expiration_sample:
  assumes "store_inv s" "sampleExpired now rnd limit s = ((n, ks), s')"
  shows "s' = s \<and> length ks \<le> n \<and> n \<le> limit \<and>
    list_all (\<lambda>k. case abs_store s k of None \<Rightarrow> False | Some e \<Rightarrow> expired now e) ks \<and>
    (n = 0 \<and> 0 < limit \<longrightarrow> (\<forall>k v d. abs_store s k \<noteq> Some (v, Some d)))"
proof -
  note c = sampleExpired_correct[OF assms]
  have "abs_store s k \<noteq> Some (v, Some d)" if "n = 0" "0 < limit" for k v d
    using c(5)[OF that, of k] by (auto simp: has_deadline_def abs_store_def obj_abs_def split: option.splits)
  moreover have "list_all (\<lambda>k. case abs_store s k of None \<Rightarrow> False | Some e \<Rightarrow> expired now e) ks"
    using c(4) by (auto simp: list_all_iff expired_key_abs)
  ultimately show ?thesis using c(1-3) by simp
qed

theorem expiration_sample_witness:
  "let s = Set wclk ''k'' ''v'' 5 NewStore; r = fst (sampleExpired 9 (\<lambda>j. 0) 20 s)
   in length (snd r) \<le> fst r \<and> fst r \<le> 20 \<and> fst r \<noteq> 0"
proof -
  let ?s = "Set wclk ''k'' ''v'' 5 NewStore"
  have s: "store_inv ?s" "abs_store ?s ''k'' = Some (AStr ''v'', Some 5)"
    using Set_refines[OF NewStore_refines(1) wclk_ok, of "''k''" "''v''" 5] by (simp_all add: spec_set_def wclk_def)
  obtain n ks s' where r: "sampleExpired 9 (\<lambda>j. 0) 20 ?s = ((n, ks), s')" by (metis surj_pair)
  have "length ks \<le> n \<and> n \<le> 20 \<and> (n = 0 \<longrightarrow> (\<forall>k v d. abs_store ?s k \<noteq> Some (v, Some d)))"
    using expiration_sample[OF s(1) r] by simp
  with s(2) r show ?thesis by (auto simp: Let_def)
qed

text \<open>
  The sample from which a victim is chosen: one drawn key of each of the first five shards, from a
  random one on, that hold keys.
\<close>

definition drawn_keys :: "(nat \<Rightarrow> nat) \<Rightarrow> nat \<Rightarrow> shard list \<Rightarrow> key list" where
  "drawn_keys rnd t shs =
     map (\<lambda>(t, sh). ix_at (sh_all sh) (IntN rnd (t + 1) (ix_size (sh_all sh))))
       (enumerate t (take (5 - t) (filter (\<lambda>sh. 0 < ix_size (sh_all sh)) shs)))"

definition lru_sample :: "(nat \<Rightarrow> nat) \<Rightarrow> Store \<Rightarrow> key list" where
  "lru_sample rnd s = drawn_keys rnd 0 (map (\<lambda>i. shards s ((IntN rnd 0 numShards + i) mod numShards)) [0..<numShards])"

lemma drawn_keys_Cons:
  "drawn_keys rnd t (sh # shs) =
     (if 5 \<le> t then [] else if ix_size (sh_all sh) = 0 then drawn_keys rnd t shs
      else ix_at (sh_all sh) (IntN rnd (t + 1) (ix_size (sh_all sh))) # drawn_keys rnd (Suc t) shs)"
  by (simp add: drawn_keys_def take_Cons' Suc_diff_le)

lemma lru_shards_sample:
  "sampled_keys (lru_shards rnd start is s r) =
     sampled_keys r @ drawn_keys rnd (length (sampled_keys r)) (map (\<lambda>i. shards s ((start + i) mod numShards)) is)"
proof (induction "is" arbitrary: r)
  case Nil
  show ?case by (simp add: drawn_keys_def)
next
  case (Cons i "is")
  show ?case unfolding list.map drawn_keys_Cons by (simp add: Cons.IH Let_def)
qed

lemma dom_lookup: "dom (lookup s) = dom (abs_store s)"
  by (auto simp: abs_store_def)

text \<open>
  C30: eviction always has a victim while the store is not empty. The victim is a key of the sample, which
  draws one key of each of the first five shards that hold keys, from a random shard on; all keys of the sample
  are in the store, and none was used longer ago than the victim.
\<close>

theorem lru_victim:
  assumes "store_inv s"
  shows "(LRUVictim rnd s = None \<longleftrightarrow> abs_store s = Map.empty) \<and> length (lru_sample rnd s) \<le> 5 \<and>
    set (lru_sample rnd s) \<subseteq> dom (abs_store s) \<and>
    (\<forall>v. LRUVictim rnd s = Some v \<longrightarrow>
      v \<in> set (lru_sample rnd s) \<and> list_all (\<lambda>k. access_of s v \<le> access_of s k) (lru_sample rnd s))"
proof -
  let ?r = "lru_shards rnd (IntN rnd 0 numShards) [0..<numShards] s \<lparr>victim = None, oldest = 2 ^ 63 - 1, sampled_keys = []\<rparr>"
  have sample: "sampled_keys ?r = lru_sample rnd s" by (simp add: lru_shards_sample lru_sample_def)
  have "scan_ok s ?r" using lru_shards_correct[OF assms] by (simp add: scan_ok_def)
  then have "set (lru_sample rnd s) \<subseteq> dom (abs_store s) \<and> (\<forall>v. LRUVictim rnd s = Some v \<longrightarrow>
      v \<in> set (lru_sample rnd s) \<and> list_all (\<lambda>k. access_of s v \<le> access_of s k) (lru_sample rnd s))"
    unfolding scan_ok_def sample by (auto simp: LRUVictim_def dom_lookup list_all_iff)
  moreover have "length (lru_sample rnd s) \<le> 5" by (simp add: lru_sample_def drawn_keys_def)
  moreover have "LRUVictim rnd s = None \<longleftrightarrow> abs_store s = Map.empty"
    using LRUVictim_correct(1)[OF assms] by (auto simp: abs_store_def fun_eq_iff)
  ultimately show ?thesis by blast
qed

theorem lru_victim_witness:
  "LRUVictim (\<lambda>j. 0) (Set wclk ''k'' ''v'' 0 NewStore) = Some ''k''"
proof -
  let ?s = "Set wclk ''k'' ''v'' 0 NewStore"
  have s: "store_inv ?s" "abs_store ?s = [''k'' \<mapsto> (AStr ''v'', None)]"
    using Set_refines[OF NewStore_refines(1) wclk_ok, of "''k''" "''v''" 0] by (simp_all add: spec_set_def NewStore_refines)
  obtain v where v: "LRUVictim (\<lambda>j. 0) ?s = Some v" using lru_victim[OF s(1), of "\<lambda>j. 0"] s(2) by auto
  with lru_victim[OF s(1), of "\<lambda>j. 0"] s(2) have "v = ''k''" by auto
  with v show ?thesis by simp
qed

text \<open>
  Deleting expired candidates removes exactly those of them whose deadline has passed and
  reports how many these are, a key that is named twice counted once.
\<close>

theorem delete_expired_exact:
  assumes "store_inv s" "DeleteExpired now ks s = (n, s')"
  shows "store_inv s' \<and> n = card {k \<in> set ks. abs_store s k \<noteq> None \<and> abs_store s' k = None} \<and>
    (\<forall>k. abs_store s' k =
      (case abs_store s k of Some e \<Rightarrow> if k \<in> set ks \<and> expired now e then None else Some e | None \<Rightarrow> None))"
proof -
  have r: "store_inv s'" "abs_store s' = fold (purge now) ks (abs_store s)" using DeleteExpired_refines[OF assms] by simp_all
  have e: "abs_store s' k =
      (case abs_store s k of Some e \<Rightarrow> if k \<in> set ks \<and> expired now e then None else Some e | None \<Rightarrow> None)" for k
    by (simp add: r(2) fold_purge split: option.splits)
  have "{k \<in> set ks. expired_key now s k} = {k \<in> set ks. abs_store s k \<noteq> None \<and> abs_store s' k = None}"
    by (auto simp: e expired_key_abs split: option.splits if_splits)
  with DeleteExpired_count[OF assms] r(1) e show ?thesis by simp
qed

theorem delete_expired_exact_witness:
  "let s = Set wclk ''k'' ''v'' 5 NewStore
   in abs_store (snd (DeleteExpired 5 [''k'', ''k''] s)) ''k'' = None \<and> abs_store (snd (DeleteExpired 4 [''k''] s)) ''k'' \<noteq> None"
proof -
  let ?s = "Set wclk ''k'' ''v'' 5 NewStore"
  have s: "store_inv ?s" "abs_store ?s ''k'' = Some (AStr ''v'', Some 5)"
    using Set_refines[OF NewStore_refines(1) wclk_ok, of "''k''" "''v''" 5] by (simp_all add: spec_set_def wclk_def)
  then show ?thesis
    using delete_expired_exact[OF s(1) prod.collapse[symmetric], of 5 "[''k'', ''k'']"]
      delete_expired_exact[OF s(1) prod.collapse[symmetric], of 4 "[''k'']"]
    by (simp add: Let_def expired_def)
qed

text \<open>
  C32: a snapshot holds one entry for every key that has not expired, with its value and its
  deadline, and nothing else, in whatever order the maps are visited.
\<close>

theorem snapshot_complete:
  assumes "store_inv s" "order_ok order s" "SnapshotEntries now order s = (err, es)"
  shows "err = None \<and> distinct (map se_key es) \<and>
    (\<forall>k. map_of (map (\<lambda>e. (se_key e, entry_abs e)) es) k = purge now k (abs_store s) k)"
  using snapshot_correct[OF assms(1,2), of now] assms(3) by (simp add: SnapshotEntries_list)

theorem snapshot_complete_witness:
  "let s = Set wclk ''k'' ''v'' 0 NewStore;
       es = snd (SnapshotEntries 3 (\<lambda>i. if i = getShardIndex ''k'' then [''k''] else []) s)
   in map_of (map (\<lambda>e. (se_key e, entry_abs e)) es) ''k'' = Some (AStr ''v'', None)"
proof -
  let ?s = "Set wclk ''k'' ''v'' 0 NewStore" and ?o = "\<lambda>i. if i = getShardIndex ''k'' then [''k''] else []"
  have s: "store_inv ?s" "abs_store ?s ''k'' = Some (AStr ''v'', None)"
    using Set_refines[OF NewStore_refines(1) wclk_ok, of "''k''" "''v''" 0] by (simp_all add: spec_set_def)
  have "order_ok ?o ?s"
    by (simp add: order_ok_def Set_def put_def volatile_remove_def NewStore_def Let_def IsZero_def)
  with s snapshot_complete[OF s(1) _ prod.collapse[symmetric], of ?o 3] show ?thesis
    by (simp add: Let_def purge_same expired_def)
qed

subsection \<open>Commands\<close>

text \<open>
  C20: a command that is not a mutation changes nothing a client can see: of the contents it
  removes at most keys whose deadline has passed.
\<close>

theorem reads_change_nothing:
  assumes "store_inv s" "clock_ok clk" "\<not> IsMutation (cmd_name cmd)" "execute U clk cmd s = (v, s')"
  shows "store_inv s' \<and> only_expired (clk 0) (abs_store s) (abs_store s')"
  using execute_reads[OF assms] execute_inv[OF assms(1,2,4)] by simp

theorem reads_change_nothing_witness:
  "only_expired (wclk 0) Map.empty (abs_store (snd (execute plain_unicode wclk (mk_cmd ''GET'' [''k'']) NewStore)))"
  using reads_change_nothing[OF NewStore_refines(1) wclk_ok _ prod.collapse[symmetric], of "mk_cmd ''GET'' [''k'']" plain_unicode]
  by (simp add: IsMutation_def NewStore_refines)

text \<open>
  C19: a command that is answered with an error, mutation or not, has no effect: wrong types,
  missing keys, indexes out of range, bad numbers and unknown commands leave the contents as
  they are, except for keys whose deadline has passed.
\<close>

theorem errors_change_nothing:
  assumes "store_inv s" "clock_ok clk" "execute U clk cmd s = (v, s')" "v_type v = Error"
  shows "store_inv s' \<and> only_expired (clk 1) (abs_store s) (abs_store s')"
  using execute_error[OF assms] execute_inv[OF assms(1-3)] by simp

theorem errors_change_nothing_witness:
  "let s = Set wclk ''k'' ''v'' 0 NewStore; r = execute plain_unicode wclk (mk_cmd ''LPUSH'' [''k'', ''x'']) s
   in v_type (fst r) = Error \<and> only_expired (wclk 1) (abs_store s) (abs_store (snd r))"
proof -
  let ?s = "Set wclk ''k'' ''v'' 0 NewStore" and ?c = "mk_cmd ''LPUSH'' [''k'', ''x'']"
  have s: "store_inv ?s" using Set_refines[OF NewStore_refines(1) wclk_ok, of "''k''" "''v''" 0] by simp
  have "v_type (fst (execute plain_unicode wclk ?c ?s)) = Error"
    by (simp add: execute_def list_commands_def handleListCommand_def handleListPush_def int_reply_def storageError_def
        NewError_def store_eval shards_eval)
  with errors_change_nothing[OF s wclk_ok prod.collapse[symmetric], of plain_unicode ?c] show ?thesis by (simp add: Let_def)
qed

text \<open>
  C21: every command, whatever its name and arguments, is answered with a value that the
  encoder accepts: one of the five types of the protocol, at every depth of the reply.
\<close>

theorem reply_typed: "typed (fst (execute U clk cmd s))"
  by (rule execute_typed)

end
