(* ===== verification/Records.thy ===== *)
theory Records
  imports Replay
begin

text \<open>The bytes of a journal can be read in one way only: they determine its commands.\<close>

lemma split_at_CR: "a @ CR # x = b @ CR # y \<Longrightarrow> CR \<notin> set a \<Longrightarrow> CR \<notin> set b \<Longrightarrow> a = b \<and> x = y"
proof (induction a arbitrary: b)
  case Nil
  then show ?case by (cases b) auto
next
  case (Cons c a)
  then show ?case by (cases b) auto
qed

lemma CR_not_in_format [simp]: "CR \<notin> set (format_int n)"
  using format_int_chars[of CR n] by (auto simp: is_digit_def)

lemma format_int_inj: "format_int (int a) = format_int (int b) \<Longrightarrow> a = b"
  using digits_value_format_nat by (metis format_int_def nat_int of_nat_less_0_iff)

lemma length_prefix:
  assumes "format_int (int a) @ CRLF @ x = format_int (int b) @ CRLF @ y"
  shows "a = b \<and> x = y"
  using split_at_CR[of "format_int (int a)" "LF # x" "format_int (int b)" "LF # y"] assms format_int_inj by auto

lemma encoding_bulk: "encoding (NewBulkString s) = ''$'' @ format_int (int (length s)) @ CRLF @ s @ CRLF"
  by (simp add: NewBulkString_def)

lemma bulk_prefix:
  assumes "encoding (NewBulkString s) @ x = encoding (NewBulkString t) @ y"
  shows "s = t \<and> x = y"
proof -
  have "length s = length t \<and> s @ CRLF @ x = t @ CRLF @ y"
    using assms by (intro length_prefix) (simp add: encoding_bulk)
  then show ?thesis by (metis append_eq_append_conv same_append_eq)
qed

lemma bulks_prefix:
  "length as = length bs \<Longrightarrow>
    concat (map encoding (map NewBulkString as)) @ x = concat (map encoding (map NewBulkString bs)) @ y \<Longrightarrow> as = bs \<and> x = y"
proof (induction as arbitrary: bs)
  case (Cons a as)
  obtain b bs' where b: "bs = b # bs'" using Cons.prems(1) by (cases bs) auto
  with bulk_prefix[of a _ b] Cons.prems(2)
  have "a = b" "concat (map encoding (map NewBulkString as)) @ x = concat (map encoding (map NewBulkString bs')) @ y"
    by auto
  with Cons.IH[of bs'] Cons.prems(1) show ?case by (simp add: b)
qed simp

lemma record_prefix:
  assumes "record_bytes c @ x = record_bytes d @ y"
  shows "c = d \<and> x = y"
proof -
  let ?as = "cmd_name c # cmd_args c" and ?bs = "cmd_name d # cmd_args d"
  have r: "record_bytes c = ''*'' @ format_int (int (length (cmd_name c # cmd_args c))) @ CRLF @
      concat (map encoding (map NewBulkString (cmd_name c # cmd_args c)))" for c
    by (simp add: record_bytes_def command_value_def NewArray_def)
  have "length ?as = length ?bs \<and>
      concat (map encoding (map NewBulkString ?as)) @ x = concat (map encoding (map NewBulkString ?bs)) @ y"
    using assms unfolding r by (intro length_prefix) simp
  then have "?as = ?bs \<and> x = y" using bulks_prefix[of ?as ?bs] by blast
  then show ?thesis by simp
qed

lemma records_inj: "records cs = records ds \<Longrightarrow> cs = ds"
proof (induction cs arbitrary: ds)
  case Nil
  have "record_bytes d \<noteq> []" for d using record_bytes_Cons[of d] by auto
  with Nil show ?case by (cases ds) auto
next
  case (Cons c cs)
  then obtain d ds' where "ds = d # ds'" using record_bytes_Cons[of c] by (cases ds) auto
  with Cons record_prefix[of c "records cs" d] show ?case by auto
qed

end
