(* ===== verification/Examples.thy ===== *)
theory Examples
  imports SystemLive Records "HOL-Library.Char_ord" "HOL-Library.List_Lexorder"
begin

text \<open>
  Concrete environments, disks and runs, with which the witnesses of the theorems about the
  whole system are built.
\<close>

text \<open>An environment in which the clock stands at \<open>t\<close> and maps are visited in the order of their keys.\<close>

definition wenv :: "time \<Rightarrow> env" where
  "wenv t = \<lparr>env_now = \<lambda>i n. t, env_rnd = \<lambda>i j n. 0, env_order = \<lambda>i m. sorted_list_of_set (dom m)\<rparr>"

lemma wenv_simps [simp]: "env_now (wenv t) i n = t" "env_rnd (wenv t) i j n = 0"
  by (simp_all add: wenv_def)

lemma wenv_ok: "zero_time < t \<Longrightarrow> env_ok (wenv t)"
  by (simp add: env_ok_def wenv_def clock_ok_def mono_def)

lemma wenv_follows: "zero_time < t \<Longrightarrow> t \<le> u \<Longrightarrow> follows (wenv t) (wenv u)"
  by (simp add: follows_def wenv_ok)

lemma wenv_window: "zero_time < t \<Longrightarrow> r0 \<le> t \<Longrightarrow> t \<le> r1 \<Longrightarrow> replay_window r0 r1 (wenv t)"
  by (simp add: replay_window_def wenv_ok reading_def)

text \<open>A working disk whose journal holds the commands \<open>cs\<close>.\<close>

definition wdisk :: "Command list \<Rightarrow> disk" where
  "wdisk cs = \<lparr>disk_file = Some \<lparr>f_data = records cs, f_pos = 0, f_synced = 0, f_calls = 0, f_faults = \<lambda>n. (0, None)\<rparr>,
     disk_eof = EOF, disk_calls = \<lambda>n. None, disk_newfaults = \<lambda>i n. (0, None)\<rparr>"

lemma wdisk_works: "working_disk (wdisk cs)"
  by (simp add: working_disk_def wdisk_def sound_file_def)

lemma wdisk_journal:
  "list_all (canonical U) cs \<Longrightarrow> list_all replayable cs \<Longrightarrow> journal_disk U cs (wdisk cs)"
  by (simp add: journal_disk_def wdisk_def disk_bytes_def torn_tail_def)

definition wset :: Command where
  "wset = mk_cmd ''SET'' [''k'', ''v'']"

lemma wset_facts:
  "canonicalCommand plain_unicode wset t = Some wset" "canonical plain_unicode wset" "replayable wset" "record_fits wset"
  "mutation wset" "cmd_name wset \<noteq> ''AOFREWRITE''"
  by (simp_all add: wset_def canonicalCommand_def canonical_def IsMutation_def absolute_command_def replayable_def
      maxArrayLength_def maxBulkStringLength_def command_value_def maxRecordBytes_def record_fits_def record_bytes_def
      new_values format_int_def format_nat.simps)

lemma wset_length: "length (record_bytes wset) = 27"
  by (simp add: wset_def command_value_def record_bytes_def new_values format_int_def format_nat.simps)

lemma default_facts:
  "AOFEnabled DefaultConfig" "AOFPath DefaultConfig \<noteq> []" "AOFSyncPolicy DefaultConfig \<in> {''always'', ''everysec'', ''no''}"
  "MaxMemoryBytes DefaultConfig = 0"
  by (simp_all add: DefaultConfig_def)

text \<open>A server that starts with an empty journal and serves one \<open>SET k v\<close>.\<close>

lemma wrun:
  shows "\<exists>e s l. started plain_unicode (wenv 0) (wdisk []) DefaultConfig e \<and> maxMemory e = 0 \<and>
    runs plain_unicode (wenv 0) (start_system e) s \<and>
    ex_journal (sys_ex s) = Some l \<and> healthy l \<and> f_data (l_file l) = records [wset] \<and> writeQueue (sys_ex s) = [] \<and>
    ex_requests (sys_ex s) = 1"
proof -
  let ?U = plain_unicode and ?E = "wenv 0"
  have d: "journal_disk ?U [] (wdisk [])" by (intro wdisk_journal) simp_all
  obtain e l where e: "started ?U ?E (wdisk []) DefaultConfig e" "ex_journal e = Some l" "healthy l"
    using started_works[OF default_facts(1-3) wdisk_works d] by blast
  obtain l' where "ex_journal e = Some l'" "log_recs ?U l' []" "writeQueue e = []" "ex_requests e = 0"
    "ex_store e = ex_store (replayed ?U ?E [])"
    using started_shape[OF e(1) d] by metis
  with e(2) have l: "log_recs ?U l []" "writeQueue e = []" "ex_requests e = 0" and st: "ex_store e = ex_store (replayed ?U ?E [])"
    by simp_all
  have m: "maxMemory e = 0"
    using e(1) by (auto simp: started_def openPersistence_def newExecutor_def NewExecutor_def SetMemoryLimit_def SetJournal_def
        default_facts split: option.splits prod.splits sum.splits)
  let ?e1 = "enqueue (\<lambda>i. MutationRequest i wset) e"
  have x: "Execute ?U ?E (log_ops ?U) wset e = Some (Waiting 0, ?e1)"
    using wset_facts(5,6) e(2) l(3) by (simp add: Execute_def batched_def log_ops_def)
  let ?s1 = "(start_system e)\<lparr>sys_ex := ?e1\<rparr>"
  have s1: "system_step ?U ?E (log_ops ?U) (start_system e) ?s1"
    by (rule system_step.client[of _ _ _ wset _ "Waiting 0"]) (use x l(2) in \<open>simp_all add: start_system_def enqueue_def queue_room_def\<close>)
  let ?e2 = "?e1\<lparr>writeQueue := []\<rparr>"
  have new: "valid_commands (canonical_batch ?U (clock ?E ?e2) (map snd [(0 :: nat, wset)])) = [wset]"
    using wset_facts(1) by (simp add: canonical_batch_def)
  obtain as e3 l3 where c: "commitMutationBatch ?U ?E (log_ops ?U) [(0, wset)] ?e2 = Some (as, e3)" "ex_journal e3 = Some l3"
      "healthy l3" "f_data (l_file l3) = f_data (l_file l) @ records [wset]"
    using commit_accepts[of ?e2 l ?U ?E "[(0, wset)]"] e(2,3) l(1) m wset_facts(4) unfolding new
    by (auto simp: enqueue_def log_recs_def)
  have q: "writeQueue e3 = []" "ex_requests e3 = 1"
    using commitMutationBatch_returns[of ?e2 ?E ?U "log_ops ?U" "[(0, wset)]"] c(1) replayed_inv[of ?E] e(2) 
    by (auto simp: frame_inv_def same_frame_def st wenv_ok zero_time_def enqueue_def l(3))
  have "system_step ?U ?E (log_ops ?U) ?s1 (?s1\<lparr>sys_ex := e3, sys_answers := sys_answers ?s1 @ as\<rparr>)"
    by (rule system_step.commit[of _ "[(0, wset)]" "[]"]) (use c(1) l in \<open>simp_all add: enqueue_def\<close>)
  from server_step.executor[OF s1] server_step.executor[OF this]
  have "runs ?U ?E (start_system e) (?s1\<lparr>sys_ex := e3, sys_answers := sys_answers ?s1 @ as\<rparr>)" by simp
  moreover have "f_data (l_file l) = []" using l(1) e(3) by (simp add: log_recs_def healthy_def)
  ultimately show ?thesis using e(1) m c(2-4) q
    by (intro exI[of _ e] exI[of _ "?s1\<lparr>sys_ex := e3, sys_answers := sys_answers ?s1 @ as\<rparr>"] exI[of _ l3]) simp
qed

end
