(* ===== verification/ExecutorTheorems.thy ===== *)
theory ExecutorTheorems
  imports Examples
begin

text \<open>The theorems about the executor: admission, write-ahead and progress.\<close>

subsection \<open>Executors for the witnesses\<close>

definition wexec :: "string \<Rightarrow> int \<Rightarrow> Log Executor" where
  "wexec policy limit = SetMemoryLimit limit policy (NewExecutor (Set wclk ''k'' ''v'' 0 NewStore))"

lemma wexec_simps [simp]:
  "ex_store (wexec policy limit) = Set wclk ''k'' ''v'' 0 NewStore" "ex_journal (wexec policy limit) = None"
  "maxMemory (wexec policy limit) = limit" "evictLRU (wexec policy limit) = (policy = ''allkeys-lru'')"
  by (simp_all add: wexec_def SetMemoryLimit_def NewExecutor_def)

lemma wstore: "store_inv (Set wclk ''k'' ''v'' 0 NewStore)"
  by (rule Set_refines(1)[OF NewStore_refines(1) wclk_ok])

subsection \<open>Admission\<close>

text \<open>
  C17: with the policy \<open>allkeys-lru\<close> a command is never refused for lack of memory. Admission
  ends after finitely many evictions, and lets a command that grows memory run only when the
  memory counter is within the limit. Otherwise it ends with an error, and the command does not run.
\<close>

theorem eviction_admits:
  assumes "store_inv (ex_store e)" "evictLRU e" "0 < maxMemory e" "growsMemory (cmd_name cmd)"
  shows "\<exists>r e'. admit E J cmd e = Some (r, e') \<and> store_inv (ex_store e') \<and>
    (r = Inr True \<and> UsedMemory (ex_store e') \<le> maxMemory e \<or> isl r)"
proof -
  obtain r e' where a: "admit_loop E J e = Some (r, e')" "store_inv (ex_store e')"
    "r = Inr True \<longrightarrow> UsedMemory (ex_store e') \<le> maxMemory e"
    using admit_loop_returns[OF assms(1)] by blast
  moreover have "admit E J cmd e = Some (r, e')" using a(1) assms(3,4) by (simp add: admit_def)
  moreover from admit_with_eviction[OF assms(1,2) this] have "r \<noteq> Inr False" .
  then have "r = Inr True \<or> isl r" by (cases r) auto
  ultimately show ?thesis by blast
qed

theorem eviction_admits_witness:
  "\<exists>r e'. admit (wenv 0) (log_ops plain_unicode) wset (wexec ''allkeys-lru'' 100) = Some (r, e') \<and> store_inv (ex_store e') \<and>
     (r = Inr True \<and> UsedMemory (ex_store e') \<le> 100 \<or> isl r)"
  using eviction_admits[of "wexec ''allkeys-lru'' 100" wset "wenv 0" "log_ops plain_unicode"] wstore
  by (simp add: wset_def growsMemory_def)

text \<open>
  C35: with the policy \<open>noeviction\<close> admission changes nothing, and it refuses exactly the
  commands that grow memory while the counter is over a limit that is set.
\<close>

theorem noeviction_refuses:
  assumes "\<not> evictLRU e"
  shows "admitOrReject E J cmd e =
    Some (Inr (if 0 < maxMemory e \<and> growsMemory (cmd_name cmd) \<and> maxMemory e < UsedMemory (ex_store e)
               then Some (NewError oomMessage) else None), e)"
  using assms by (auto simp: admitOrReject_def admit_def admit_loop.simps)

theorem noeviction_refuses_witness:
  "admitOrReject (wenv 0) (log_ops plain_unicode) wset (wexec ''noeviction'' 100) =
     Some (Inr (Some (NewError oomMessage)), wexec ''noeviction'' 100)"
proof -
  have "UsedMemory (Set wclk ''k'' ''v'' 0 NewStore) = 194" by (simp add: store_eval shards_eval wrap64_def)
  then show ?thesis
    using noeviction_refuses[of "wexec ''noeviction'' 100" "wenv 0" "log_ops plain_unicode" wset] by (simp add: wset_def growsMemory_def)
qed

subsection \<open>Execution\<close>

text \<open>
  C18: every call of \<open>Execute\<close> returns or queues its request, for every command, journal and
  memory limit, and keeps the store invariant.
\<close>

theorem execute_terminates:
  assumes "store_inv (ex_store e)" "env_ok E"
  shows "\<exists>r e'. Execute U E J cmd e = Some (r, e') \<and> store_inv (ex_store e')"
  using Execute_returns[OF assms] .

theorem execute_terminates_witness:
  "\<exists>r e'. Execute plain_unicode (wenv 0) (log_ops plain_unicode) wset (wexec ''allkeys-lru'' 100) = Some (r, e') \<and>
     store_inv (ex_store e')"
  by (rule execute_terminates) (simp_all add: wstore wenv_ok zero_time_def)

lemma apply_batch_rejected:
  "apply_batch U E (Inl err) rs e =
     (map (\<lambda>(i, cmd, r). (i, case r of Some v \<Rightarrow> v | None \<Rightarrow> Inl (''persist command before applying it: '' @ err))) rs, e)"
proof (induction rs)
  case (Cons x rs)
  obtain i cmd r where "x = (i, cmd, r)" by (metis prod_cases3)
  with Cons show ?case by (cases r) simp_all
qed simp

text \<open>
  C16: write-ahead. If the journal rejects a batch, none of its commands is applied: the store
  is the one after admission, and each request is answered, the accepted ones with the error of
  the journal and the refused ones with their refusal.
\<close>

theorem rejected_batch_applies_nothing:
  assumes "admit_batch E J batch e = Some (rs, e1)" "ex_journal e1 = Some j"
    "checked_append J (clock E e1) (accepted rs) j = (Inl err, j')"
  shows "\<exists>e'. commitMutationBatch U E J batch e =
      Some (map (\<lambda>(i, cmd, r). (i, case r of Some v \<Rightarrow> v | None \<Rightarrow> Inl (''persist command before applying it: '' @ err))) rs, e') \<and>
    ex_store e' = ex_store e1 \<and> ex_journal e' = Some j'"
  using assms by (simp add: commitMutationBatch_def apply_batch_rejected)

theorem rejected_batch_applies_nothing_witness:
  "let l = (new_log ''no'' \<lparr>f_data = [], f_pos = 0, f_synced = 0, f_calls = 0, f_faults = \<lambda>n. (0, None)\<rparr>
         (\<lambda>n. None) (\<lambda>i n. (0, None)))\<lparr>l_closed := True\<rparr>;
       e = SetJournal (Some l) (wexec ''noeviction'' 0)
   in \<exists>err e'. commitMutationBatch plain_unicode (wenv 0) (log_ops plain_unicode) [(7, wset)] e = Some ([(7, Inl err)], e') \<and>
        ex_store e' = ex_store e"
proof -
  let ?l = "(new_log ''no'' \<lparr>f_data = [], f_pos = 0, f_synced = 0, f_calls = 0, f_faults = \<lambda>n. (0, None)\<rparr>
         (\<lambda>n. None) (\<lambda>i n. (0, None)))\<lparr>l_closed := True\<rparr>"
  let ?e = "SetJournal (Some ?l) (wexec ''noeviction'' 0)"
  have "admit_batch (wenv 0) (log_ops plain_unicode) [(7, wset)] ?e = Some (map (\<lambda>(i, cmd). (i, cmd, None)) [(7, wset)], ?e)"
    by (rule admit_batch_unlimited) (simp add: SetJournal_def)
  moreover have "checked_append (log_ops plain_unicode) (clock (wenv 0) ?e) [wset] ?l = (Inl ''AOF is closed'', ?l)"
    by (simp add: checked_append_def log_ops_def log_AppendBatch_def)
  ultimately show ?thesis
    unfolding Let_def
    using rejected_batch_applies_nothing[of "wenv 0" "log_ops plain_unicode" "[(7, wset)]" ?e "[(7, wset, None)]" ?e ?l
        "''AOF is closed''" ?l plain_unicode]
    by (auto simp: SetJournal_def)
qed

text \<open>
  C23: progress of writing. With a healthy log and no memory limit, a batch whose records fit is
  answered, every request of it once, in order and without an error, and the log has grown by the records of
  the batch and stays healthy.
\<close>

theorem commit_progress:
  assumes "maxMemory e \<le> 0" "ex_journal e = Some l" "healthy l" "log_inv l"
    "new = valid_commands (canonical_batch U (clock E e) (map snd batch))" "list_all record_fits new"
  shows "\<exists>answers e' l'. commitMutationBatch U E (log_ops U) batch e = Some (answers, e') \<and>
    map fst answers = map fst batch \<and> list_all (\<lambda>(i, r). \<not> isl r) answers \<and> ex_journal e' = Some l' \<and> healthy l' \<and>
    f_data (l_file l') = f_data (l_file l) @ records new"
  using commit_accepts[OF assms(1-4), of U E batch] assms(5,6) by (auto simp: list_all_iff)

theorem commit_progress_witness:
  "let l = new_log ''no'' \<lparr>f_data = [], f_pos = 0, f_synced = 0, f_calls = 0, f_faults = \<lambda>n. (0, None)\<rparr>
         (\<lambda>n. None) (\<lambda>i n. (0, None))
   in \<exists>answers e'. commitMutationBatch plain_unicode (wenv 0) (log_ops plain_unicode) [(7, wset)]
        (SetJournal (Some l) (wexec ''noeviction'' 0)) = Some (answers, e') \<and> map fst answers = [7] \<and>
        list_all (\<lambda>(i, r). \<not> isl r) answers"
proof -
  let ?l = "new_log ''no'' \<lparr>f_data = [], f_pos = 0, f_synced = 0, f_calls = 0, f_faults = \<lambda>n. (0, None)\<rparr>
         (\<lambda>n. None) (\<lambda>i n. (0, None))"
  let ?e = "SetJournal (Some ?l) (wexec ''noeviction'' 0)"
  have l: "healthy ?l" "log_inv ?l"
    by (simp_all add: new_log_def healthy_def ok_writer_def quiet_file_def NewWriterSize_def log_inv_def fil.holds_def at_end_def)
  have new: "valid_commands (canonical_batch plain_unicode (clock (wenv 0) ?e) (map snd [(7 :: nat, wset)])) = [wset]"
    using wset_facts(1) by (simp add: canonical_batch_def)
  show ?thesis
    unfolding Let_def
    using commit_progress[OF _ _ l, of ?e "[wset]" plain_unicode "wenv 0" "[(7, wset)]"] new wset_facts(4)
    by (auto simp: SetJournal_def)
qed

end
