(* ===== verification/JournalTheorems.thy ===== *)
theory JournalTheorems
  imports Examples
begin

text \<open>The theorems about the append-only file: appending, closing, rewriting and replaying it.\<close>

subsection \<open>Logs for the witnesses\<close>

definition wfile :: "string \<Rightarrow> osfile" where
  "wfile bytes = \<lparr>f_data = bytes, f_pos = length bytes, f_synced = 0, f_calls = 0, f_faults = \<lambda>n. (0, None)\<rparr>"

definition wlog :: "string \<Rightarrow> string \<Rightarrow> Log" where
  "wlog policy bytes = new_log policy (wfile bytes) (\<lambda>n. None) (\<lambda>i n. (0, None))"

lemma wlog_ok: "healthy (wlog policy bytes)" "log_inv (wlog policy bytes)" "l_policy (wlog policy bytes) = policy"
  "f_data (l_file (wlog policy bytes)) = bytes" "l_rewrite (wlog policy bytes) = None" "l_failed (wlog policy bytes) = None"
  by (simp_all add: wlog_def wfile_def new_log_def healthy_def ok_writer_def quiet_file_def NewWriterSize_def log_inv_def
      fil.holds_def at_end_def)

lemma wset_batch: "canonical_batch plain_unicode clk [wset] = [(wset, True)]"
  using wset_facts(1) by (simp add: canonical_batch_def)

lemma join_errors_None: "join_errors errs = None \<longleftrightarrow> list_all (\<lambda>e. e = None) errs"
proof -
  have "List.map_filter id errs = [] \<longleftrightarrow> list_all (\<lambda>e. e = None) errs"
    by (induction errs) (auto simp: List.map_filter_simps split: option.splits)
  then show ?thesis by (auto simp: join_errors_def split: list.splits)
qed

subsection \<open>Appending and closing\<close>

text \<open>
  C4: appending a batch is all or nothing towards the caller. If it succeeds, the file has
  grown by exactly the records of the valid canonical commands, in order, and under the
  policy \<open>always\<close> all its bytes have been synced. If it fails, either the log was closed or
  had failed before and nothing changed, or the log has failed and refuses further appends,
  and the file is the old one followed by at most a first part of those records.
\<close>

theorem append_atomic:
  assumes "log_inv l" "log_AppendBatch U clk batch l = (r, l')"
    "cmds = valid_commands (canonical_batch U clk batch)"
  shows "case r of
      Inr persisted \<Rightarrow> persisted = map fst (canonical_batch U clk batch) \<and> log_inv l' \<and> l_failed l' = None \<and>
        f_data (l_file l') = f_data (l_file l) @ records cmds \<and>
        (cmds \<noteq> [] \<and> l_policy l = ''always'' \<longrightarrow> f_synced (l_file l') = length (f_data (l_file l')))
    | Inl _ \<Rightarrow> l' = l \<and> (l_closed l \<or> l_closing l \<or> l_failed l \<noteq> None) \<or>
        l_failed l' \<noteq> None \<and> (\<exists>n. f_data (l_file l') = f_data (l_file l) @ take n (records cmds))"
  using log_AppendBatch_correct[OF assms(1,2)] unfolding assms(3)
  by (cases r) (auto simp: appended_def partial_def)

theorem append_atomic_witness:
  "\<exists>l'. log_AppendBatch plain_unicode (\<lambda>n. 0) [wset] (wlog ''always'' []) = (Inr [wset], l') \<and>
     f_data (l_file l') = records [wset] \<and> f_synced (l_file l') = length (records [wset])"
proof -
  let ?l = "wlog ''always'' []"
  obtain l' where l': "log_AppendBatch plain_unicode (\<lambda>n. 0) [wset] ?l = (Inr [wset], l')"
    using append_accepted[OF wlog_ok(1), of plain_unicode "\<lambda>n. 0" "[wset]"] wset_facts(4) by (auto simp: wset_batch)
  from append_atomic[OF wlog_ok(2) l' refl] l' show ?thesis by (auto simp: wset_batch wlog_ok)
qed

text \<open>
  Progress of appending. A log that is open, has not failed and whose disk works accepts
  every batch whose records fit, and stays that way.
\<close>

theorem append_progress:
  assumes "healthy l" "list_all record_fits (valid_commands (canonical_batch U clk batch))"
  shows "\<exists>l'. log_AppendBatch U clk batch l = (Inr (map fst (canonical_batch U clk batch)), l') \<and> healthy l'"
  using append_accepted[OF assms] .

theorem append_progress_witness:
  "\<exists>l'. log_AppendBatch plain_unicode (\<lambda>n. 0) [wset] (wlog ''no'' []) = (Inr [wset], l') \<and> healthy l'"
  using append_progress[OF wlog_ok(1), of plain_unicode "\<lambda>n. 0" "[wset]" "''no''" "[]"] wset_facts(4) by (simp add: wset_batch)

text \<open>
  C25: closing a log that has not failed writes no byte to the file: everything that was
  acknowledged is there already. If closing reports no error, all bytes have been synced.
\<close>

theorem close_keeps_records:
  assumes "log_inv l" "l_failed l = None" "\<not> l_closed l" "log_Close l = (r, l')"
  shows "f_data (l_file l') = f_data (l_file l) \<and> l_closed l' \<and>
    (r = None \<longrightarrow> f_synced (l_file l') = length (f_data (l_file l)))"
proof -
  have w: "Flush file_write (l_writer l) = (None, l_writer l)"
    using assms(1,2) by (simp add: log_inv_def fil.holds_def Flush_def)
  obtain e f where f: "file_sync (l_file l) = (e, f)" by fastforce
  let ?l = "set_file f (l\<lparr>l_closing := True, l_closed := True\<rparr>)"
  obtain e1 l1 where 1: "dir_call ?l = (e1, l1)" by fastforce
  obtain e2 l2 where 2: "dir_call l1 = (e2, l2)" by fastforce
  note c = calls_only_fields[OF calls_only_trans[OF calls_only_dirs(1)[OF 1] calls_only_dirs(1)[OF 2]]]
  have "\<exists>x. log_Close l = (x, l2\<lparr>l_closeErr := x\<rparr>) \<and> (x = None \<longrightarrow> e = None)"
    using assms(3) f 1 2 by (simp add: log_Close_def w Let_def join_errors_None wrapIfError_def)
  then have l': "l_writer l' = l_writer ?l" "l_closed l'" and r: "r = None \<longrightarrow> e = None"
    using assms(4) c by auto
  have "f_data f = f_data (l_file l)" "e = None \<longrightarrow> f_synced f = length (f_data (l_file l))"
    using file_sync_None[of "l_file l" f] file_sync_Some[of "l_file l" _ f] f by (cases e; simp)+
  with l' r show ?thesis by simp
qed

theorem close_keeps_records_witness:
  "f_data (l_file (snd (log_Close (wlog ''no'' ''x'')))) = ''x''"
  using close_keeps_records[OF wlog_ok(2,6) _ prod.collapse[symmetric], of "''no''" "''x''"] wlog_ok(4)[of "''no''" "''x''"]
  by (simp add: wlog_def new_log_def)

subsection \<open>Records\<close>

text \<open>
  C29: a record is written if and only if its encoding has at most 4 MiB, and what is written is
  that encoding: the buffered, limited writer neither drops nor reorders bytes.
\<close>

theorem record_limit:
  "case encode_record cmd of
     Inr bytes \<Rightarrow> bytes = record_bytes cmd \<and> length bytes \<le> 4194304
   | Inl _ \<Rightarrow> 4194304 < length (record_bytes cmd)"
  using encode_record_correct[of cmd] by (auto simp: record_fits_def maxRecordBytes_def)

text \<open>
  C22: what the journal holds does not depend on when it is read. The canonical form of a
  command is a mutation without relative expiration times; a mutation that has no canonical
  form, and so is not journaled, is answered with an error and changes nothing.
\<close>

theorem journaled_commands_absolute:
  assumes "IsMutation (cmd_name cmd)"
  shows "case canonicalCommand U cmd now of
      Some c \<Rightarrow> IsMutation (cmd_name c) \<and> absolute_command U (cmd_name c) (cmd_args c)
    | None \<Rightarrow> \<exists>v. v_type v = Error \<and> (\<forall>clk s. execute U clk cmd s = (v, s))"
  using canonical_absolute[of U cmd now] canonical_None[OF _ assms, of U now] by (auto split: option.splits)

theorem journaled_commands_absolute_witness:
  "case canonicalCommand plain_unicode (mk_cmd ''SET'' [''k'', ''v'', ''EX'']) 0 of
      Some c \<Rightarrow> IsMutation (cmd_name c) \<and> absolute_command plain_unicode (cmd_name c) (cmd_args c)
    | None \<Rightarrow> \<exists>v. v_type v = Error \<and> (\<forall>clk s. execute plain_unicode clk (mk_cmd ''SET'' [''k'', ''v'', ''EX'']) s = (v, s))"
  by (rule journaled_commands_absolute) (simp add: IsMutation_def)

subsection \<open>Rewriting\<close>

text \<open>
  What happens to a log while a rewrite runs: batches are appended, or rejected, and \<open>syncLoop\<close> ticks
  (\<open>None\<close>). The commands are those of the accepted batches.
\<close>

primrec log_activity :: "unicode \<Rightarrow> ((nat \<Rightarrow> time) \<times> Command list) option list \<Rightarrow> Log \<Rightarrow> Command list \<times> Log" where
  "log_activity U [] l = ([], l)"
| "log_activity U (c # calls) l =
     (case c of
        None \<Rightarrow> log_activity U calls (sync_tick l)
      | Some (clk, cmds) \<Rightarrow>
          (case log_AppendBatch U clk cmds l of
             (Inl err, l) \<Rightarrow> log_activity U calls l
           | (Inr ps, l) \<Rightarrow> apfst (append (valid_commands (canonical_batch U clk cmds))) (log_activity U calls l)))"

lemma log_activity_recs:
  assumes "log_recs U l cs" "log_pend U l ds" "log_activity U calls l = (new, l')"
  shows "log_recs U l' (cs @ new) \<and> log_pend U l' (ds @ new)"
  using assms
proof (induction calls arbitrary: l cs ds new)
  case (Cons c calls)
  show ?case
  proof (cases c)
    case None
    have "log_recs U (sync_tick l) cs" "log_pend U (sync_tick l) ds"
      using sync_tick_log(1)[OF Cons.prems(1)] log_pend_fields[OF sync_tick_log(2)] Cons.prems(2) by blast+
    with Cons.IH Cons.prems(3) None show ?thesis by simp
  next
    case (Some b)
    obtain clk cmds where b: "b = (clk, cmds)" by fastforce
    obtain r l1 where a: "log_AppendBatch U clk cmds l = (r, l1)" by fastforce
    show ?thesis
    proof (cases r)
      case (Inl err)
      with a have "log_AppendBatch U clk cmds l = (Inl err, l1)" by simp
      from Cons.IH[OF append_failed[OF Cons.prems(1,2) this]] Cons.prems(3) Some b a Inl show ?thesis by simp
    next
      case (Inr ps)
      with a have i: "log_AppendBatch U clk cmds l = (Inr ps, l1)" by simp
      obtain new' where "log_activity U calls l1 = (new', l')" "new = valid_commands (canonical_batch U clk cmds) @ new'"
        using Cons.prems(3) Some b i by (auto simp: apfst_def map_prod_def split: prod.splits)
      with Cons.IH[OF append_ok(2,3)[OF Cons.prems(1,2) i]] show ?thesis by simp
    qed
  qed
qed simp

text \<open>
  C14: a rewrite replaces the journal. It starts on a log that holds the records of some commands; until it
  completes, batches are appended or rejected and the sync loop ticks, any number of times. If it completes without an error,
  the journal is the snapshot followed by the records of all batches that were accepted meanwhile, and all of it is synced.
  If it completes with an error, the file is either the one before or this replacement, synced as well: an
  error may also come after the file has been renamed. Either way the rewrite is over.
\<close>

theorem rewrite_replaces_journal:
  assumes "log_recs U l cs" "log_StartRewrite es l = (None, l1)" "log_activity U calls l1 = (new, l2)"
    "l_rewrite l2 = Some job" "job_ready job = None" "log_CompleteRewrite l2 = (r, l3)"
    "replaced_file = (\<lambda>f. f_data f = records (concat (map snapshot_commands es) @ new) \<and> f_synced f = length (f_data f))"
  shows "l_rewrite l3 = None \<and> (r = None \<longrightarrow> replaced_file (l_file l3)) \<and>
    (r \<noteq> None \<longrightarrow> l_file l3 = l_file l2 \<or> replaced_file (l_file l3))"
proof -
  note a = log_activity_recs[OF start_rewrite_ok[OF assms(1,2)] assms(3)]
  from complete_rewrite_file[OF a[THEN conjunct1] a[THEN conjunct2] assms(4-6)] show ?thesis
    unfolding assms(7) by (auto simp: replaced_def NewWriterSize_def)
qed

theorem rewrite_replaces_journal_witness:
  "\<exists>l1 l2 r l3. log_StartRewrite [] (wlog ''no'' []) = (None, l1) \<and>
     log_activity plain_unicode [Some (\<lambda>n. 0, [wset]), Some (\<lambda>n. 0, [wset])] l1 = ([wset, wset], l2) \<and>
     log_CompleteRewrite l2 = (r, l3) \<and> l_rewrite l3 = None \<and> (r = None \<longrightarrow> f_data (l_file l3) = records [wset, wset])"
proof -
  let ?l = "wlog ''no'' []" and ?U = plain_unicode and ?clk = "\<lambda>n :: nat. 0 :: time"
  have recs: "log_recs ?U ?l []" using wlog_ok(2,4)[of "''no''" "[]"] by (auto simp: log_recs_def intro!: exI[of _ "[]"])
  obtain l1 job where s: "log_StartRewrite [] ?l = (None, l1)" "l_rewrite l1 = Some job" "job_ready job = None" "healthy l1"
    using wlog_ok(1)[of "''no''" "[]"]
    by (simp add: wlog_def new_log_def log_StartRewrite_def CreateTemp_def dir_call_def start_job_def healthy_def Flush_def
        NewWriterSize_def)
  have step: "\<exists>l' job'. log_AppendBatch ?U ?clk [wset] l = (Inr [wset], l') \<and> healthy l' \<and> l_rewrite l' = Some job' \<and> job_ready job' = None"
    if l: "healthy l" "l_rewrite l = Some job" "job_ready job = None" for l job
  proof -
    obtain l' where a: "log_AppendBatch ?U ?clk [wset] l = (Inr [wset], l')" "healthy l'"
      using append_accepted[OF l(1), of ?U ?clk "[wset]"] wset_facts(4) by (auto simp: wset_batch)
    with append_rewrite[OF a(1)] l(2,3) show ?thesis by (auto simp: wset_batch write_delta_def split: prod.splits option.splits if_splits)
  qed
  obtain l2 job2 where a: "log_AppendBatch ?U ?clk [wset] l1 = (Inr [wset], l2)" "healthy l2" "l_rewrite l2 = Some job2" "job_ready job2 = None"
    using step[OF s(4,2,3)] by blast
  obtain l3 job3 where b: "log_AppendBatch ?U ?clk [wset] l2 = (Inr [wset], l3)" "l_rewrite l3 = Some job3" "job_ready job3 = None"
    using step[OF a(2-4)] by blast
  have c: "log_activity ?U [Some (?clk, [wset]), Some (?clk, [wset])] l1 = ([wset, wset], l3)" using a(1) b(1) by (simp add: wset_batch)
  obtain r l4 where d: "log_CompleteRewrite l3 = (r, l4)" by fastforce
  from rewrite_replaces_journal[OF recs s(1) c b(2,3) d refl] s(1) c d show ?thesis by auto
qed

text \<open>
  C15: compaction loses nothing. Replaying the commands that a snapshot is written as, on an
  empty store, gives the contents the store had, except for keys whose deadline has passed;
  lists keep their order and every key its deadline.
\<close>

theorem snapshot_replay:
  assumes "store_inv s" "sourced_map ms_deadlines (abs_store s)" "order_ok order s" "t \<le> r0" "replay_window r0 r1 E"
    "SnapshotEntries t order s = (None, es)"
  shows "recovers r0 r1 (abs_store s) (abs_store (ex_store (replayed U E (concat (map snapshot_commands es)))))"
proof -
  have "tracks U r0 s (snapshot_history es)"
    using tracks_snapshot[OF assms(1-4)] assms(6) by (simp add: SnapshotEntries_list)
  moreover have "quiet r1 (snapshot_history es)" by (auto simp: quiet_def snapshot_history_def decided_def)
  ultimately show ?thesis using assms(5) by (auto simp: tracks_def)
qed

theorem snapshot_replay_witness:
  "let s = Set (\<lambda>n. 0) ''k'' ''v'' (7 * Millisecond) NewStore;
       es = snd (SnapshotEntries 0 (\<lambda>i. if i = getShardIndex ''k'' then [''k''] else []) s)
   in abs_store (ex_store (replayed plain_unicode (wenv 0) (concat (map snapshot_commands es)))) ''k'' =
        Some (AStr ''v'', Some (7 * Millisecond))"
proof -
  let ?clk = "\<lambda>n :: nat. 0 :: time" and ?o = "\<lambda>i. if i = getShardIndex ''k'' then [''k''] else []"
  let ?s = "Set ?clk ''k'' ''v'' (7 * Millisecond) NewStore"
  have "clock_ok ?clk" by (simp add: clock_ok_def mono_def zero_time_def)
  then have s: "store_inv ?s" "abs_store ?s = [''k'' \<mapsto> (AStr ''v'', Some (7 * Millisecond))]"
    using Set_refines[OF NewStore_refines(1), of ?clk "''k''" "''v''" "7 * Millisecond"]
    by (simp_all add: spec_set_def NewStore_refines)
  have "order_ok ?o ?s"
    by (simp add: order_ok_def Set_def put_def volatile_add_def NewStore_def Let_def IsZero_def zero_time_def)
  moreover have "whole_ms (7 * Millisecond)" using whole_ms_UnixMilli[of 7] by (simp add: UnixMilli_def in_int64_def)
  then have "sourced_map ms_deadlines (abs_store ?s)"
    unfolding s(2) by (simp add: sourced_map_def sourced_def ms_deadlines_def)
  moreover have "replay_window 0 0 (wenv 0)" by (rule wenv_window) (simp_all add: zero_time_def)
  ultimately have "recovers 0 0 (abs_store ?s)
      (abs_store (ex_store (replayed plain_unicode (wenv 0) (concat (map snapshot_commands (snd (SnapshotEntries 0 ?o ?s)))))))"
    by (intro snapshot_replay[OF s(1), where order = ?o and t = 0]) (simp_all add: SnapshotEntries_list)
  then show ?thesis unfolding recovers_def Let_def s(2) by (auto simp: expired_def dest: spec[of _ "''k''"])
qed

subsection \<open>Replaying\<close>

text \<open>
  C13: replaying a file on which every call works and which holds the records of some commands, and behind them at most the
  first part of another record, returns without an error: it applies exactly those commands, in order,
  and cuts the file back to their records. The commands have to be \<open>replayable\<close>: mutations within the limits of the
  decoder, that is, with fewer than 1024 arguments, each at most 1 MiB, and 4 MiB for the whole request.
\<close>

theorem replay_complete_records:
  assumes "sound_file f" "list_all replayable cs" "torn_tail t" "f_data f = records cs @ t"
  shows "\<exists>f'. replay U E EOF f s = Some ((None, f'), ex_store (apply_all U E cs (NewExecutor s :: unit Executor))) \<and>
    f_data f' = records cs"
  using replay_file[OF assms] by blast

theorem replay_complete_records_witness:
  "\<exists>f'. replay plain_unicode (wenv 0) EOF (wfile (records [wset] @ take 5 (record_bytes wset))) NewStore =
      Some ((None, f'), ex_store (apply_all plain_unicode (wenv 0) [wset] (NewExecutor NewStore :: unit Executor))) \<and>
    f_data f' = records [wset]"
proof (rule replay_complete_records)
  have "take 5 (record_bytes wset) @ drop 5 (record_bytes wset) = record_bytes wset" "drop 5 (record_bytes wset) \<noteq> []"
    using wset_length by simp_all
  then show "torn_tail (take 5 (record_bytes wset))" using wset_facts(3) unfolding torn_tail_def by blast
qed (simp_all add: wfile_def sound_file_def wset_facts)

text \<open>
  C24: a server can start on a disk on which every call works and which holds a journal of commands
  within the limits of the decoder, possibly cut short in a record: with persistence enabled, a path
  and a valid sync policy, opening the log replays it and returns a log that accepts appends.
\<close>

theorem start_progress:
  assumes "AOFEnabled cfg" "AOFPath cfg \<noteq> []" "AOFSyncPolicy cfg \<in> {''always'', ''everysec'', ''no''}"
    "working_disk dsk" "journal_disk U cs dsk"
  shows "\<exists>e l. openPersistence U E dsk cfg (newExecutor NewStore cfg) = Some (None, e) \<and> ex_journal e = Some l \<and> healthy l"
  using started_works[OF assms, of E] by (auto simp: started_def)

theorem start_progress_witness:
  "\<exists>e l. openPersistence plain_unicode (wenv 0) (wdisk [wset]) DefaultConfig (newExecutor NewStore DefaultConfig) = Some (None, e) \<and>
     ex_journal e = Some l \<and> healthy l"
  by (rule start_progress[OF default_facts(1-3) wdisk_works wdisk_journal[of _ "[wset]"]]) (simp_all add: wset_facts)

subsection \<open>Deadlines that pass before the replay\<close>

lemma apply_push:
  assumes "store_inv (ex_store e)"
  shows "store_inv (ex_store (snd (apply_command U E (mk_cmd ''RPUSH'' [k, v]) e))) \<and>
    abs_store (ex_store (snd (apply_command U E (mk_cmd ''RPUSH'' [k, v]) e))) =
      snd (spec_push (clock E e 0) k [v] False False (abs_store (ex_store e)))"
  using ListPush_refines[OF assms, of "[v]" "clock E e" k False False]
  by (auto simp: refines_def apply_command_def execute_def handleListCommand_def handleListPush_def list_commands_def int_reply_def
      split: prod.splits sum.splits)

lemma apply_deadline:
  assumes "store_inv (ex_store e)" "env_ok E" "ParseInt t = Some ms"
  shows "store_inv (ex_store (snd (apply_command U E (mk_cmd ''PEXPIREAT'' [k, t]) e))) \<and>
    abs_store (ex_store (snd (apply_command U E (mk_cmd ''PEXPIREAT'' [k, t]) e))) =
      snd (spec_expireAt (clock E e 0) k (UnixMilli ms) (abs_store (ex_store e)))"
  using ExpireAt_refines[OF assms(1) env_ok_clock[OF assms(2)], of "ex_calls e" k "UnixMilli ms"] assms(3)
  by (auto simp: refines_def apply_command_def execute_def handleExpireAt_def Let_def split: prod.splits)

definition revived :: "Command list" where
  "revived = [mk_cmd ''RPUSH'' [''l'', ''a''], mk_cmd ''PEXPIREAT'' [''l'', ''5''], mk_cmd ''RPUSH'' [''l'', ''b'']]"

text \<open>
  C40: a journal that is not settled may bring an expired key back. A list gets a deadline and
  then another element. Executed before the deadline, the commands leave a list with that
  deadline; replayed after it, the second command removes the list and the third creates it
  anew, without a deadline.
\<close>

theorem replay_revives_expired:
  "abs_store (ex_store (replayed plain_unicode (wenv 0) revived)) = [''l'' \<mapsto> (AList [''a'', ''b''], Some (5 * Millisecond))] \<and>
    abs_store (ex_store (replayed plain_unicode (wenv (9 * Millisecond)) revived)) = [''l'' \<mapsto> (AList [''b''], None)]"
proof -
  let ?U = plain_unicode
  have ms: "ParseInt ''5'' = Some 5" by (simp add: ParseInt_def parse_uint_def digits_value_def is_digit_def)
  have "abs_store (ex_store (replayed ?U (wenv t) revived)) =
      snd (spec_push t ''l'' [''b''] False False (snd (spec_expireAt t ''l'' (5 * Millisecond) (snd (spec_push t ''l'' [''a''] False False Map.empty)))))"
    if "zero_time < t" for t
  proof -
    let ?e0 = "NewExecutor NewStore :: unit Executor"
    note env = wenv_ok[OF that]
    define e1 where "e1 = snd (apply_command ?U (wenv t) (revived ! 0) ?e0)"
    define e2 where "e2 = snd (apply_command ?U (wenv t) (revived ! 1) e1)"
    have 1: "store_inv (ex_store e1)" "abs_store (ex_store e1) = snd (spec_push t ''l'' [''a''] False False Map.empty)"
      using apply_push[of ?e0 ?U "wenv t" "''l''" "''a''"] by (simp_all add: e1_def revived_def NewStore_refines NewExecutor_def)
    have 2: "store_inv (ex_store e2)" "abs_store (ex_store e2) = snd (spec_expireAt t ''l'' (5 * Millisecond) (abs_store (ex_store e1)))"
      using apply_deadline[OF 1(1) env ms, of ?U "''l''"] by (simp_all add: e2_def revived_def UnixMilli_def)
    show ?thesis
      using apply_push[OF 2(1), of ?U "wenv t" "''l''" "''b''"] unfolding 2(2) 1(2)
      by (simp add: replayed_def revived_def e1_def e2_def)
  qed
  note at = this[of 0] this[of "9 * Millisecond"]
  note spec = spec_push_def spec_expireAt_def purge_def on_list_def store_list_def expired_def add_ends_def Let_def
  show ?thesis using at by (simp add: spec zero_time_def)
qed

subsection \<open>Records that cannot be read back\<close>

text \<open>
  C39: an accepted command can keep the server from starting again. A healthy log accepts a \<open>DEL\<close> with 1024 or more
  arguments whose record is within the size limit, and its record is on file. From then on, whatever is
  appended later, replaying the file fails at that record: it has more elements than the decoder accepts.
\<close>

theorem long_record_blocks_restart:
  assumes "healthy l" "log_recs U l cs" "list_all replayable cs" "1024 \<le> length args" "record_fits (mk_cmd ''DEL'' args)"
  shows "\<exists>l'. log_AppendBatch U clk [mk_cmd ''DEL'' args] l = (Inr [mk_cmd ''DEL'' args], l') \<and> healthy l' \<and>
    (\<forall>f t. sound_file f \<and> f_data f = f_data (l_file l') @ t \<longrightarrow>
       (\<exists>f' s'. replay U E EOF f NewStore =
          Some ((Some (DecodeFailed (length (records cs)) (ArrayTooLong (int (Suc (length args))))), f'), s')))"
proof -
  let ?c = "mk_cmd ''DEL'' args"
  have b: "canonical_batch U clk [?c] = [(?c, True)]"
    using assms(4) by (cases args) (simp_all add: canonical_batch_def canonicalCommand_def)
  obtain l' where a: "log_AppendBatch U clk [?c] l = (Inr [?c], l')" "healthy l'"
    using append_accepted[OF assms(1), of U clk "[?c]"] assms(5) by (auto simp: b)
  have "appended [?c] l l'" using log_AppendBatch_correct[of l U clk "[?c]" "Inr [?c]" l'] a(1) assms(2) by (simp add: b log_recs_def)
  then have data: "f_data (l_file l') = records cs @ record_bytes ?c"
    using assms(1,2) by (simp add: appended_def log_recs_def healthy_def)
  have "replay U E EOF f NewStore =
      Some ((Some (DecodeFailed (length (records cs)) (ArrayTooLong (int (Suc (length args))))), f\<lparr>f_calls := Suc (f_calls f), f_pos := 0\<rparr>),
        ex_store (apply_all U E cs (NewExecutor NewStore :: unit Executor)))"
    if f: "sound_file f" "f_data f = f_data (l_file l') @ t" for f t
  proof -
    have "file_seek 0 f = (None, f\<lparr>f_calls := Suc (f_calls f), f_pos := 0\<rparr>)" by (simp add: file_seek_def sound_file_call[OF f(1)])
    moreover have "replay_loop U E (length (f_data f)) (NewDecoderWithLimit (f_data f) EOF 4096 (int maxRecordBytes)) (NewExecutor NewStore) =
        Some (Inl (DecodeFailed (length (records cs)) (ArrayTooLong (int (Suc (length (cmd_args ?c)))))), apply_all U E cs (NewExecutor NewStore))"
      by (rule replay_long_record[OF assms(3), where t = t])
        (use f(2) data assms(4,5) in \<open>simp_all add: NewDecoderWithLimit_def NewExecutor_def maxRecordBytes_def maxArrayLength_def\<close>)
    ultimately show ?thesis by (simp add: replay_def)
  qed
  with a show ?thesis by blast
qed

theorem long_record_blocks_restart_witness:
  "let cmd = mk_cmd ''DEL'' (replicate 1024 ''a'')
   in \<exists>l' f' s'. log_AppendBatch plain_unicode (\<lambda>n. 0) [cmd] (wlog ''no'' []) = (Inr [cmd], l') \<and>
        replay plain_unicode (wenv 0) EOF (wfile (f_data (l_file l'))) NewStore = Some ((Some (DecodeFailed 0 (ArrayTooLong 1025)), f'), s')"
proof -
  let ?l = "wlog ''no'' []" and ?U = plain_unicode and ?args = "replicate 1024 ''a''"
  have recs: "log_recs ?U ?l []" using wlog_ok(2,4)[of "''no''" "[]"] by (auto simp: log_recs_def intro!: exI[of _ "[]"])
  have fits: "record_fits (mk_cmd ''DEL'' ?args)"
    by (simp add: record_fits_def record_bytes_def command_value_def new_values maxRecordBytes_def format_int_def format_nat.simps
        length_concat sum_list_replicate)
  obtain l' where l': "log_AppendBatch ?U (\<lambda>n. 0) [mk_cmd ''DEL'' ?args] ?l = (Inr [mk_cmd ''DEL'' ?args], l')"
    and r: "\<forall>f t. sound_file f \<and> f_data f = f_data (l_file l') @ t \<longrightarrow>
       (\<exists>f' s'. replay ?U (wenv 0) EOF f NewStore =
          Some ((Some (DecodeFailed (length (records [])) (ArrayTooLong (int (Suc (length ?args))))), f'), s'))"
    using long_record_blocks_restart[OF wlog_ok(1) recs _ _ fits, of "\<lambda>n. 0" "wenv 0"] by (simp del: length_replicate) (simp, blast)
  have "sound_file (wfile (f_data (l_file l')))" by (simp add: wfile_def sound_file_def)
  with r[rule_format, of "wfile (f_data (l_file l'))" "[]"] l' show ?thesis by (auto simp: Let_def wfile_def records_def)
qed

end
