(* ===== verification/Reply.thy ===== *)
theory Reply
  imports AofCorrect
begin

text \<open>
  Encoding a reply into a bounded buffer: \<open>limitedWriter\<close> of the goroutine server and
  \<open>limitedBuffer\<close> of the reactor, both behind a \<open>bufio.Writer\<close> of the default size, and the
  texts of the decoder's errors, which the reactor sends to the client.
\<close>

record limitedWriter =
  lw_data :: string
  lw_limit :: int
  lw_written :: int

definition limitedWriter_Write :: "limitedWriter sink" where
  "limitedWriter_Write p w =
     (if int (length p) > lw_limit w - lw_written w then (Some (0, ''output limit exceeded''), w)
      else (None, w\<lparr>lw_data := lw_data w @ p, lw_written := lw_written w + int (length p)\<rparr>))"

record limitedBuffer =
  lb_data :: string
  lb_limit :: int

definition limitedBuffer_Write :: "limitedBuffer sink" where
  "limitedBuffer_Write p w =
     (if int (length p) > lb_limit w then (Some (0, ''output limit exceeded''), w)
      else (None, w\<lparr>lb_data := lb_data w @ p\<rparr>))"

text \<open>Encode a value into a buffered writer over \<open>u\<close>, then flush; the two errors are wrapped differently.\<close>

definition encode_flush :: "'u sink \<Rightarrow> (go_error \<Rightarrow> go_error) \<Rightarrow> Value \<Rightarrow> 'u \<Rightarrow> go_error + 'u" where
  "encode_flush wr flush_text v u =
     (case Encode (bufio_write wr) v (NewWriterSize u 4096) of
        (Some err, _) \<Rightarrow> Inl (''encode response: '' @ encode_error_text err)
      | (None, b) \<Rightarrow>
          (case Flush wr b of
             (Some err, _) \<Rightarrow> Inl (flush_text err)
           | (None, b) \<Rightarrow> Inr (bw_out b)))"

subsection \<open>Error texts\<close>

definition num_error :: "unicode \<Rightarrow> string \<Rightarrow> string \<Rightarrow> string" where
  "num_error U func s =
     ''strconv.'' @ func @ '': parsing '' @ Quote U s @ '': '' @
     (let ds = (case s of [] \<Rightarrow> [] | c # cs \<Rightarrow> if c = CHR ''+'' \<or> c = CHR ''-'' then cs else s)
      in if parse_uint ds = None then ''invalid syntax'' else ''value out of range'')"

definition io_error_text :: "io_error \<Rightarrow> string" where
  "io_error_text e = (case e of EOF \<Rightarrow> ''EOF'' | ErrUnexpectedEOF \<Rightarrow> ''unexpected EOF'' | ReadError t \<Rightarrow> t)"

fun decode_error_text :: "unicode \<Rightarrow> decode_error \<Rightarrow> string" where
  "decode_error_text U (IO e) = io_error_text e"
| "decode_error_text U (MessageTooLong n) = ''RESP message exceeds max allowed '' @ format_int n @ '' bytes''"
| "decode_error_text U LineTooLong = ''RESP line exceeds '' @ format_int (int maxRESPLineLength) @ '' bytes''"
| "decode_error_text U ExpectedCRLF = ''invalid RESP line: expected CRLF''"
| "decode_error_text U InvalidTermination = ''invalid RESP termination''"
| "decode_error_text U NestingTooDeep = ''RESP nesting exceeds max allowed '' @ format_int (int maxRESPDepth)"
| "decode_error_text U (InvalidBulkLength s) = ''invalid bulk string length '' @ Quote U s @ '': '' @ num_error U ''Atoi'' s"
| "decode_error_text U (NegativeBulkLength n) = ''invalid bulk string length '' @ format_int n"
| "decode_error_text U (BulkTooLong n) =
     ''bulk string length '' @ format_int n @ '' exceeds max allowed '' @ format_int maxBulkStringLength"
| "decode_error_text U (InvalidArrayLength s) = ''invalid array length '' @ Quote U s @ '': '' @ num_error U ''Atoi'' s"
| "decode_error_text U (NegativeArrayLength n) = ''invalid array length '' @ format_int n"
| "decode_error_text U (ArrayTooLong n) =
     ''array length '' @ format_int n @ '' exceeds max allowed '' @ format_int maxArrayLength"
| "decode_error_text U (InvalidInteger s) = ''invalid integer '' @ Quote U s @ '': '' @ num_error U ''ParseInt'' s"
| "decode_error_text U (InlineError e) = ''inline command read error: '' @ decode_error_text U e"
| "decode_error_text U EmptyInline = ''empty inline command''"

subsection \<open>What is encoded\<close>

context byte_sink
begin

lemma encode_flush_correct:
  assumes "ok u" "typed v"
  shows "case encode_flush wr ft v u of
      Inr u' \<Rightarrow> ok u' \<and> content u' = content u @ encoding v
    | Inl _ \<Rightarrow> refuses (content u @ encoding v)"
proof -
  have "holds (content u) (NewWriterSize u 4096)" using assms(1) by (simp add: holds_def NewWriterSize_def)
  note enc = enc.Encode_encoded[OF assms(2) this]
  obtain r b where e: "Encode (bufio_write wr) v (NewWriterSize u 4096) = (r, b)" by fastforce
  show ?thesis
  proof (cases r)
    case None
    with enc e have h: "holds (content u @ encoding v) b" by (simp add: enc.encoded_def)
    obtain r2 b2 where f: "Flush wr b = (r2, b2)" by fastforce
    show ?thesis
    proof (cases r2)
      case None
      from flush_holds[OF h f[unfolded None]] show ?thesis
        using e f \<open>r = None\<close> None by (simp add: encode_flush_def holds_def)
    next
      case (Some err)
      from flush_broken[OF h f[unfolded Some]] show ?thesis
        using e f \<open>r = None\<close> Some by (simp add: encode_flush_def broken_def)
    qed
  next
    case (Some err)
    with enc e show ?thesis by (auto simp: encode_flush_def enc.encoded_def broken_def)
  qed
qed

end

interpretation lw: byte_sink limitedWriter_Write
  "\<lambda>w. lw_limit w = limit \<and> lw_written w = int (length (lw_data w)) \<and> int (length (lw_data w)) \<le> max 0 limit"
  lw_data "\<lambda>t. limit < int (length t)" for limit
  by unfold_locales (auto simp: limitedWriter_Write_def split: if_splits)

interpretation lb: byte_sink limitedBuffer_Write "\<lambda>w. lb_limit w = limit" lb_data "\<lambda>t. limit < int (length t)" for limit
  by unfold_locales (auto simp: limitedBuffer_Write_def split: if_splits)

text \<open>The goroutine server: a reply is encoded exactly if it fits the limit.\<close>

lemma encode_limitedWriter:
  assumes "typed v"
  shows "case encode_flush limitedWriter_Write ft v \<lparr>lw_data = [], lw_limit = limit, lw_written = 0\<rparr> of
      Inr w \<Rightarrow> lw_data w = encoding v \<and> int (length (encoding v)) \<le> max 0 limit
    | Inl _ \<Rightarrow> limit < int (length (encoding v))"
  using lw.encode_flush_correct[of "\<lparr>lw_data = [], lw_limit = limit, lw_written = 0\<rparr>" limit v ft] assms
  by (auto split: sum.splits)

text \<open>The reactor: a reply that fits is encoded, and what is encoded is the reply.\<close>

lemma encode_limitedBuffer:
  assumes "typed v"
  shows "case encode_flush limitedBuffer_Write ft v \<lparr>lb_data = [], lb_limit = limit\<rparr> of
      Inr w \<Rightarrow> lb_data w = encoding v
    | Inl _ \<Rightarrow> limit < int (length (encoding v))"
  using lb.encode_flush_correct[of "\<lparr>lb_data = [], lb_limit = limit\<rparr>" limit v ft] assms
  by (auto split: sum.splits)

end
