(* ===== verification/Requests.thy ===== *)
theory Requests
  imports ExecutorCorrect CommandTypes
begin

text \<open>
  The executor as the connections use it: \<open>Execute\<close> blocks until the command has its answer.
  The locale \<open>command_executor\<close> is the contract the connection handlers rely on: a call
  returns, keeps the invariant of the executor, and its reply can be encoded. It is
  interpreted on the executor together with its write loop.
\<close>

subsection \<open>A blocking call\<close>

text \<open>
  The write loop empties the queue: a rewrite is started, mutations are committed in batches
  of up to 64.
\<close>

fun next_batch :: "executorRequest list \<Rightarrow> (nat \<times> Command) list" where
  "next_batch (MutationRequest i cmd # q) = (i, cmd) # next_batch q"
| "next_batch _ = []"

function run_queue ::
  "unicode \<Rightarrow> env \<Rightarrow> 'j journal_ops \<Rightarrow> executorRequest list \<Rightarrow> 'j Executor \<Rightarrow> (answer list \<times> 'j Executor) option"
where
  "run_queue U E J q e =
     (case q of
        [] \<Rightarrow> Some ([], e\<lparr>dispatching := False\<rparr>)
      | RewriteRequest i # q \<Rightarrow>
          (case startAOFRewriteNow E J (e\<lparr>writeQueue := q\<rparr>) of
             (Inl err, e) \<Rightarrow> run_queue U E J q (setRewriteResult ''failed'' (Some err) e)
           | (Inr _, e) \<Rightarrow> run_queue U E J q e)
      | MutationRequest i cmd # q' \<Rightarrow>
          let batch = take 64 (next_batch q); q = drop (length batch) q
          in case commitMutationBatch U E J batch (e\<lparr>writeQueue := q\<rparr>) of
               None \<Rightarrow> None
             | Some (answers, e) \<Rightarrow> map_option (apfst ((@) answers)) (run_queue U E J q e))"
  by pat_completeness auto
termination
  by (relation "measure (\<lambda>(U, E, J, q, e). length q)") auto

declare run_queue.simps [simp del]

definition submitMutation ::
  "unicode \<Rightarrow> env \<Rightarrow> 'j journal_ops \<Rightarrow> nat \<Rightarrow> 'j Executor \<Rightarrow> ((go_error + Value) \<times> 'j Executor) option"
where
  "submitMutation U E J i e =
     (case run_queue U E J (writeQueue e) e of
        None \<Rightarrow> None
      | Some (answers, e) \<Rightarrow> map_option (\<lambda>r. (r, e)) (map_of answers i))"

definition call_executor ::
  "unicode \<Rightarrow> env \<Rightarrow> 'j journal_ops \<Rightarrow> Command \<Rightarrow> 'j Executor \<Rightarrow> ((go_error + Value) \<times> 'j Executor) option"
where
  "call_executor U E J cmd e =
     (case Execute U E J cmd e of
        None \<Rightarrow> None
      | Some (Returned r, e) \<Rightarrow> Some (r, e)
      | Some (Waiting i, e) \<Rightarrow> submitMutation U E J i e)"

subsection \<open>The contract\<close>

type_synonym 'w exec = "Command \<Rightarrow> 'w \<Rightarrow> ((go_error + Value) \<times> 'w) option"

locale command_executor =
  fixes exec :: "'w exec"
    and inv :: "'w \<Rightarrow> bool"
  assumes exec_returns: "inv w \<Longrightarrow> \<exists>r w'. exec cmd w = Some (r, w')"
    and exec_inv: "inv w \<Longrightarrow> exec cmd w = Some (r, w') \<Longrightarrow> inv w'"
    and exec_typed: "inv w \<Longrightarrow> exec cmd w = Some (Inr v, w') \<Longrightarrow> typed v"

text \<open>The reply to a decoded request, as both servers build it.\<close>

definition reply_to :: "unicode \<Rightarrow> 'w exec \<Rightarrow> Value \<Rightarrow> 'w \<Rightarrow> (Value \<times> 'w) option" where
  "reply_to U exec request w =
     (case Parse U request of
        Inl err \<Rightarrow> Some (NewError err, w)
      | Inr cmd \<Rightarrow>
          (case exec cmd w of
             None \<Rightarrow> None
           | Some (Inl err, w) \<Rightarrow> Some (NewError err, w)
           | Some (Inr v, w) \<Rightarrow> Some (v, w)))"

text \<open>
  The requests at the front of an input, executed one after the other, and their replies. The
  input ends with the error \<open>err\<close>, and no request is longer than \<open>limit\<close>.
\<close>

abbreviation reader :: "io_error \<Rightarrow> int \<Rightarrow> string \<Rightarrow> Decoder" where
  "reader err limit x \<equiv> NewDecoderWithLimit x err 4096 limit"

inductive serves :: "unicode \<Rightarrow> 'w exec \<Rightarrow> io_error \<Rightarrow> int \<Rightarrow> string \<Rightarrow> 'w \<Rightarrow> Value list \<Rightarrow> string \<Rightarrow> 'w \<Rightarrow> bool"
  for U exec err limit
where
  none: "serves U exec err limit x w [] x w"
| request: "Decode U (reader err limit x) = (Inr v, d) \<Longrightarrow> reply_to U exec v w = Some (r, w1) \<Longrightarrow>
    serves U exec err limit (d_input d) w1 rs y w' \<Longrightarrow> serves U exec err limit x w (r # rs) y w'"

inductive_cases serves_NilE: "serves U exec err limit x w [] y w'"
inductive_cases serves_ConsE: "serves U exec err limit x w (r # rs) y w'"

definition reads :: "io_error \<Rightarrow> int \<Rightarrow> Decoder \<Rightarrow> bool" where
  "reads err limit d \<longleftrightarrow> d_err d = err \<and> d_bufsize d = 4096 \<and> maxMessageBytes d = limit"

lemma reads_reader [simp]: "reads err limit (reader err limit x)" "d_input (reader err limit x) = x"
  by (simp_all add: reads_def NewDecoderWithLimit_def)

lemma reads_Decode:
  assumes "reads err limit d"
  shows "Decode U d = Decode U (reader err limit (d_input d))"
proof -
  have "d\<lparr>messageBytes := 0\<rparr> = (reader err limit (d_input d))\<lparr>messageBytes := 0\<rparr>"
    using assms by (cases d) (simp add: reads_def NewDecoderWithLimit_def)
  then show ?thesis by (simp add: Decode_def)
qed

lemma Decode_reads: "Decode U d = (Inr v, d') \<Longrightarrow> reads err limit d \<Longrightarrow> reads err limit d'"
  using regularD(1)[OF regular_decode_nested, of U maxRESPDepth "d\<lparr>messageBytes := 0\<rparr>" v d']
  by (simp add: Decode_def progress_def reads_def)

lemma Decode_suffix: "Decode U d = (Inr v, d') \<Longrightarrow> \<exists>used. d_input d = used @ d_input d'"
  using regularD(1)[OF regular_decode_nested, of U maxRESPDepth "d\<lparr>messageBytes := 0\<rparr>" v d']
  by (auto simp: Decode_def progress_def)

lemma Decode_shrinks: "Decode U d = (Inr v, d') \<Longrightarrow> length (d_input d') < length (d_input d)"
  using decode_nested_takes[of U 63 "d\<lparr>messageBytes := 0\<rparr>" v d'] by (simp add: Decode_def maxRESPDepth_def)

lemma serves_trans:
  "serves U exec err limit x w rs y w1 \<Longrightarrow> serves U exec err limit y w1 rs' z w' \<Longrightarrow> serves U exec err limit x w (rs @ rs') z w'"
  by (induction rule: serves.induct) (auto intro: serves.request)

text \<open>Requests are served in one way only.\<close>

lemma serves_prefix:
  "serves U exec err limit x w rs y w1 \<Longrightarrow> serves U exec err limit x w rs' z w' \<Longrightarrow> length rs \<le> length rs' \<Longrightarrow>
    \<exists>rs2. rs' = rs @ rs2 \<and> serves U exec err limit y w1 rs2 z w'"
proof (induction arbitrary: rs' rule: serves.induct)
  case (request x v d w r w1 rs y w2)
  then obtain r' rs1 where rs': "rs' = r' # rs1" by (cases rs') auto
  with request.prems request.hyps(1,2) have "r' = r" "serves U exec err limit (d_input d) w1 rs1 z w'"
    by (auto elim!: serves_ConsE)
  with request.IH[of rs1] request.prems(2) rs' show ?case by simp
qed simp

context command_executor
begin

lemma reply_returns:
  assumes "inv w"
  obtains r w' where "reply_to U exec request w = Some (r, w')" "inv w'" "typed r"
proof (cases "Parse U request")
  case (Inl err)
  with assms that show thesis by (simp add: reply_to_def)
next
  case (Inr cmd)
  obtain r w' where r: "exec cmd w = Some (r, w')" using exec_returns[OF assms] by blast
  note w' = exec_inv[OF assms r]
  show thesis
  proof (cases r)
    case (Inl err)
    with r w' Inr that show thesis by (simp add: reply_to_def)
  next
    case (Inr v)
    with r w' \<open>Parse U request = Inr cmd\<close> that exec_typed[OF assms, of cmd v w'] show thesis by (simp add: reply_to_def)
  qed
qed

end

subsection \<open>The executor satisfies it\<close>

definition serving :: "'j journal_ops \<Rightarrow> 'j Executor \<Rightarrow> bool" where
  "serving J e \<longleftrightarrow> store_inv (ex_store e) \<and> list_all (\<lambda>q. \<not> is_MutationRequest q) (writeQueue e)"

lemma typed_status [simp]: "typed (aofRewriteStatus e)"
  by (simp add: aofRewriteStatus_def Let_def)

lemma apply_command_typed: "apply_command U E cmd e = (v, e') \<Longrightarrow> typed v"
  using execute_typed[of U "clock E e" cmd "ex_store e"] by (auto simp: apply_command_def Let_def split: prod.splits)

definition sendable :: "go_error + Value \<Rightarrow> bool" where
  "sendable r = (case r of Inr v \<Rightarrow> typed v | Inl _ \<Rightarrow> True)"

lemma sendable_simps [simp]: "sendable (Inl err)" "sendable (Inr v) \<longleftrightarrow> typed v"
  by (simp_all add: sendable_def)

definition decided_sendable :: "nat \<times> Command \<times> (go_error + Value) option \<Rightarrow> bool" where
  "decided_sendable q = (case snd (snd q) of Some r \<Rightarrow> sendable r | None \<Rightarrow> True)"

lemma apply_batch_typed:
  "list_all decided_sendable rs \<Longrightarrow> list_all (\<lambda>a. sendable (snd a)) (fst (apply_batch U E r rs e))"
proof (induction rs arbitrary: r e)
  case (Cons q rs)
  obtain i cmd x where q: "q = (i, cmd, x)" by (metis prod_cases3)
  have "list_all decided_sendable rs" using Cons.prems by simp
  note IH = Cons.IH[OF this]
  consider (Done) y where "x = Some y" | (Failed) err where "x = None" "r = Inl err" | (Apply) ps where "x = None" "r = Inr ps"
    by (cases x; cases r) auto
  then show ?case
  proof cases
    case Done
    with IH[of r e] Cons.prems show ?thesis by (simp add: q decided_sendable_def)
  next
    case Failed
    with IH[of r e] show ?thesis by (simp add: q)
  next
    case Apply
    obtain v e' where a: "apply_command U E (hd ps) e = (v, e')" by fastforce
    from IH[of "Inr (tl ps)" e'] apply_command_typed[OF a] a Apply show ?thesis by (simp add: q)
  qed
qed simp

lemma admitOrReject_typed: "admitOrReject E J cmd e = Some (Inr (Some v), e') \<Longrightarrow> typed v"
proof -
  assume a: "admitOrReject E J cmd e = Some (Inr (Some v), e')"
  then obtain r where "map_sum id (\<lambda>ok. if ok then None else Some (NewError oomMessage)) r = (Inr (Some v) :: go_error + Value option)"
    by (auto simp: admitOrReject_def)
  then have "v = NewError oomMessage" by (cases r) (simp_all split: if_splits)
  then show "typed v" by simp
qed

lemma admit_batch_typed: "admit_batch E J batch e = Some (rs, e') \<Longrightarrow> list_all decided_sendable rs"
proof (induction batch arbitrary: e rs e')
  case (Cons b batch)
  obtain i cmd where b: "b = (i, cmd)" by fastforce
  obtain r e1 rs1 where a: "admitOrReject E J cmd e = Some (r, e1)" "admit_batch E J batch e1 = Some (rs1, e')"
    "rs = (i, cmd, case r of Inl err \<Rightarrow> Some (Inl err) | Inr (Some reply) \<Rightarrow> Some (Inr reply) | Inr None \<Rightarrow> None) # rs1"
    using Cons.prems by (auto simp: b split: option.splits prod.splits)
  have "decided_sendable (i, cmd, case r of Inl err \<Rightarrow> Some (Inl err) | Inr (Some reply) \<Rightarrow> Some (Inr reply) | Inr None \<Rightarrow> None)"
    using admitOrReject_typed[of E J cmd e _ e1] a(1) by (auto simp: decided_sendable_def split: sum.splits option.splits)
  with Cons.IH[OF a(2)] a(3) show ?case by simp
qed simp

lemma commit_typed:
  assumes "commitMutationBatch U E J batch e = Some (answers, e')"
  shows "list_all (\<lambda>a. sendable (snd a)) answers"
proof -
  obtain rs e1 where a: "admit_batch E J batch e = Some (rs, e1)"
    using assms by (auto simp: commitMutationBatch_def split: option.splits)
  obtain j where j: "ex_journal e1 = Some j" using assms a by (auto simp: commitMutationBatch_def split: option.splits)
  obtain r j' where c: "checked_append J (clock E e1) (accepted rs) j = (r, j')" by fastforce
  have "answers = fst (apply_batch U E r rs ((tick e1)\<lparr>ex_journal := Some j'\<rparr>))"
    using assms by (simp add: commitMutationBatch_def a j c)
  with apply_batch_typed[OF admit_batch_typed[OF a]] show ?thesis by simp
qed

lemma run_admitted_typed:
  assumes "run_admitted E J cmd f e = Some (Returned r, e')" "\<And>e. sendable (fst (f e))"
  shows "sendable r"
proof -
  obtain q e1 where a: "admitOrReject E J cmd e = Some (q, e1)" using assms(1) by (auto simp: run_admitted_def split: option.splits)
  show ?thesis
  proof (cases q)
    case (Inl err)
    with a assms(1) show ?thesis by (auto simp: run_admitted_def)
  next
    case (Inr reply)
    with a assms(1) assms(2)[of e1] admitOrReject_typed[of E J cmd e _ e1] show ?thesis
      by (cases reply) (auto simp: run_admitted_def apfst_def map_prod_def split: prod.splits)
  qed
qed

lemma apply_command_sendable: "typed (fst (apply_command U E cmd e))" "sendable (fst (apfst Inr (apply_command U E cmd e)))"
  using apply_command_typed[of U E cmd e] by (cases "apply_command U E cmd e"; simp)+

lemma persist_and_apply_typed: "sendable (fst (persist_and_apply U E J j cmd e))"
proof -
  obtain r j' where a: "Append J (clock E e) cmd j = (r, j')" by fastforce
  show ?thesis by (cases r) (simp_all add: persist_and_apply_def a apply_command_sendable)
qed

lemma Execute_typed:
  assumes "Execute U E J cmd e = Some (Returned r, e')"
  shows "sendable r"
proof (cases "cmd_name cmd = ''AOFREWRITE''")
  case True
  with assms show ?thesis by (auto simp: Execute_def split: if_splits prod.splits option.splits sum.splits)
next
  case False
  then consider "run_admitted E J cmd (\<lambda>e. persist_and_apply U E J (the (ex_journal e)) cmd e) e = Some (Returned r, e')"
    | "run_admitted E J cmd (\<lambda>e. apfst Inr (apply_command U E cmd e)) e = Some (Returned r, e')"
    using assms by (auto simp: Execute_def split: if_splits)
  then show ?thesis by cases (erule run_admitted_typed, simp add: persist_and_apply_typed apply_command_sendable)+
qed

lemma run_admitted_Returned:
  assumes "run_admitted E J cmd f e = Some (r, e')"
  shows "\<exists>x. r = Returned x"
proof -
  obtain q e1 where a: "admitOrReject E J cmd e = Some (q, e1)" using assms by (auto simp: run_admitted_def split: option.splits)
  obtain y e2 where f: "f e1 = (y, e2)" by fastforce
  consider err where "q = Inl err" | v where "q = Inr (Some v)" | "q = Inr None" by (cases q) auto
  then show ?thesis using assms a f by cases (auto simp: run_admitted_def)
qed

lemma enqueueAOFRewrite_serving: "serving J e \<Longrightarrow> serving J (snd (enqueueAOFRewrite J e))"
  by (simp add: enqueueAOFRewrite_def enqueue_def serving_def)

lemma startAOFRewriteNow_serving: "serving J e \<Longrightarrow> serving J (snd (startAOFRewriteNow E J e))"
  using startAOFRewriteNow_store(1,2)[OF prod.collapse[symmetric], of E J e] by (simp add: serving_def)

lemma Execute_rewrite:
  assumes "cmd_name cmd = ''AOFREWRITE''" "serving J e" "Execute U E J cmd e = Some (r, e')"
  shows "(\<exists>x. r = Returned x) \<and> serving J e' \<and> (ex_journal e' = None \<longleftrightarrow> ex_journal e = None)"
proof -
  obtain q1 e1 where 1: "enqueueAOFRewrite J e = (q1, e1)" by fastforce
  obtain q2 e2 where 2: "startAOFRewriteNow E J e = (q2, e2)" by fastforce
  have s: "serving J e1" "serving J e2"
    using enqueueAOFRewrite_serving[OF assms(2)] startAOFRewriteNow_serving[OF assms(2), of E] 1 2 by simp_all
  have j: "ex_journal e1 = ex_journal e" "ex_journal e2 = None \<longleftrightarrow> ex_journal e = None"
    using 1 startAOFRewriteNow_store(5)[OF 2] by (simp_all add: enqueueAOFRewrite_def enqueue_def split: if_splits) auto
  have "pred_option (\<lambda>(r, e'). (\<exists>x. r = Returned x) \<and> serving J e' \<and> (ex_journal e' = None \<longleftrightarrow> ex_journal e = None)) (Execute U E J cmd e)"
    using assms(2) s j unfolding Execute_def assms(1) 1 2 by (simp split: option.split sum.split)
  with assms(3) show ?thesis by simp
qed

lemma Execute_serving:
  assumes "serving J e" "env_ok E" "Execute U E J cmd e = Some (r, e')"
  obtains (Done) x where "r = Returned x" "serving J e'" "ex_journal e' = None \<longleftrightarrow> ex_journal e = None"
    | (Queued) i q where "r = Waiting i" "writeQueue e' = q @ [MutationRequest i cmd]" "list_all (\<lambda>q. \<not> is_MutationRequest q) q"
        "store_inv (ex_store e')" "ex_journal e' \<noteq> None" "ex_journal e \<noteq> None"
proof -
  have inv: "store_inv (ex_store e)" "list_all (\<lambda>q. \<not> is_MutationRequest q) (writeQueue e)" using assms(1) by (simp_all add: serving_def)
  have kept: "r = Returned x \<Longrightarrow> frame_inv e e' \<Longrightarrow> thesis" for x
    using Done inv(2) by (auto simp: frame_inv_def same_frame_def serving_def)
  have admitted: thesis if a: "run_admitted E J cmd f e = Some (r, e')" and f: "\<And>e'. frame_inv e e' \<Longrightarrow> frame_inv e (snd (f e'))" for f
  proof -
    obtain x where "r = Returned x" using run_admitted_Returned[OF a] by blast
    with kept run_admitted_frame[OF inv(1) f a] show thesis by blast
  qed
  have direct: "frame_inv e e' \<Longrightarrow> frame_inv e (snd (apfst Inr (apply_command U E cmd e')))" for e'
    using apply_command_frame[of e' E U cmd] assms(2) frame_inv_chain[of e e'] by (simp add: frame_inv_def)
  consider (Rewrite) "cmd_name cmd = ''AOFREWRITE''"
    | (Submit) "r = Waiting (ex_requests e)" "e' = enqueue (\<lambda>i. MutationRequest i cmd) e" "ex_journal e \<noteq> None"
    | (Journal) "ex_journal e \<noteq> None" "run_admitted E J cmd (\<lambda>e. persist_and_apply U E J (the (ex_journal e)) cmd e) e = Some (r, e')"
    | (Direct) "run_admitted E J cmd (\<lambda>e. apfst Inr (apply_command U E cmd e)) e = Some (r, e')"
    using assms(3) unfolding Execute_def
    by (cases "cmd_name cmd = ''AOFREWRITE''"; cases "IsMutation (cmd_name cmd)"; cases "ex_journal e"; cases "batched J e") simp_all
  then show thesis
  proof cases
    case Rewrite
    from Execute_rewrite[OF this assms(1,3)] show thesis by (elim conjE exE) (rule Done)
  next
    case Submit
    with Queued[of "ex_requests e" "writeQueue e"] inv show thesis by (simp add: enqueue_def)
  next
    case Journal
    have "frame_inv e (snd (persist_and_apply U E J (the (ex_journal e1)) cmd e1))" if f: "frame_inv e e1" for e1
    proof -
      obtain j where "ex_journal e1 = Some j" using f Journal(1) by (auto simp: frame_inv_def same_frame_def)
      then show ?thesis
        using persist_and_apply_inv[of e1 E j U J cmd] assms(2) f frame_inv_chain[of e e1] by (simp add: frame_inv_def)
    qed
    with admitted Journal(2) show thesis by blast
  next
    case Direct
    with admitted direct show thesis by blast
  qed
qed

lemma run_queue_returns:
  assumes "list_all (\<lambda>q. \<not> is_MutationRequest q) q" "store_inv (ex_store e)" "env_ok E" "ex_journal e \<noteq> None"
  shows "\<exists>r e'. run_queue U E J (q @ [MutationRequest i cmd]) e = Some ([(i, r)], e') \<and> sendable r \<and> serving J e' \<and>
    ex_journal e' \<noteq> None"
  using assms
proof (induction q arbitrary: e)
  case Nil
  let ?e = "e\<lparr>writeQueue := []\<rparr>"
  obtain as e' where c: "commitMutationBatch U E J [(i, cmd)] ?e = Some (as, e')" "frame_inv ?e e'" "map fst as = [i]"
    using commitMutationBatch_returns[of ?e E U J "[(i, cmd)]"] Nil.prems by auto
  then obtain r where "as = [(i, r)]" by (cases as) auto
  with commit_typed[OF c(1)] c Nil.prems(4) show ?case
    by (auto simp: run_queue.simps[of U E J "[MutationRequest i cmd]"] run_queue.simps[of U E J "[]"] serving_def frame_inv_def same_frame_def)
next
  case (Cons x q)
  then obtain k where x: "x = RewriteRequest k" by (cases x) auto
  let ?q = "q @ [MutationRequest i cmd]"
  obtain r e1 where s: "startAOFRewriteNow E J (e\<lparr>writeQueue := ?q\<rparr>) = (r, e1)" by fastforce
  have e1: "store_inv (ex_store e1)" "ex_journal e1 \<noteq> None" using startAOFRewriteNow_store(1,5)[OF s] Cons.prems by simp_all
  then have "store_inv (ex_store (setRewriteResult st err e1))" "ex_journal (setRewriteResult st err e1) \<noteq> None" for st err
    by (simp_all add: setRewriteResult_def)
  with Cons.IH[of e1] Cons.IH[of "setRewriteResult ''failed'' (Some _) e1"] e1 Cons.prems s show ?case
    by (cases r) (simp_all add: run_queue.simps[of U E J "RewriteRequest k # ?q"] x)
qed

lemma call_executor_returns:
  assumes "env_ok E" "serving J e"
  shows "\<exists>r e'. call_executor U E J cmd e = Some (r, e') \<and> serving J e' \<and> sendable r \<and>
    (ex_journal e' = None \<longleftrightarrow> ex_journal e = None)"
proof -
  have "store_inv (ex_store e)" using assms(2) by (simp add: serving_def)
  from Execute_returns[OF this assms(1), of U J cmd] obtain r e1 where x: "Execute U E J cmd e = Some (r, e1)" by blast
  from assms(2,1) x show ?thesis
  proof (cases rule: Execute_serving)
    case (Done y)
    with x Execute_typed[of U E J cmd e y e1] show ?thesis by (simp add: call_executor_def)
  next
    case (Queued i q)
    with run_queue_returns[of q e1 E U J i cmd] assms(1) obtain y e2 where
      "run_queue U E J (writeQueue e1) e1 = Some ([(i, y)], e2)" "sendable y" "serving J e2" "ex_journal e2 \<noteq> None" by auto
    with x Queued(1,6) show ?thesis by (auto simp: call_executor_def submitMutation_def)
  qed
qed

interpretation ex: command_executor "call_executor U E J" "\<lambda>e. env_ok E \<and> serving J e" for U E J
proof
  fix e cmd
  assume a: "env_ok E \<and> serving J e"
  obtain r' e' where c: "call_executor U E J cmd e = Some (r', e')" "serving J e'" "sendable r'"
    using call_executor_returns[of E J e U cmd] a by blast
  then show "\<exists>r w'. call_executor U E J cmd e = Some (r, w')" by blast
  fix r w
  assume "call_executor U E J cmd e = Some (r, w)"
  with a c show "env_ok E \<and> serving J w" by simp
next
  fix e cmd v w
  assume a: "env_ok E \<and> serving J e" "call_executor U E J cmd e = Some (Inr v, w)"
  then show "typed v" using call_executor_returns[of E J e U cmd] by auto
qed

end
