(* ===== verification/ClientHandler.thy ===== *)
theory ClientHandler
  imports Reply Requests Config "HOL-Library.Sublist"
begin

text \<open>
  The client of \<open>internal/client/client.go\<close> and the request loop of
  \<open>internal/server/server.go\<close>: a connection is decoded, executed and answered one request
  at a time. The network is the bytes a connection will deliver, the error that ends them
  (end of file, a timeout, a closed connection), and the results of the calls on the
  connection in the order they are made.
\<close>

subsection \<open>Connections and clients\<close>

record conn =
  c_sent :: string
  c_calls :: nat
  c_faults :: "nat \<Rightarrow> nat \<times> go_error option"
  c_closed :: bool

definition conn_write :: "conn sink" where
  "conn_write p c =
     (let (n, err) = c_faults c (c_calls c); c = c\<lparr>c_calls := Suc (c_calls c)\<rparr>
      in case err of
           None \<Rightarrow> (None, c\<lparr>c_sent := c_sent c @ p\<rparr>)
         | Some t \<Rightarrow> (Some (min n (length p), t), c\<lparr>c_sent := c_sent c @ take n p\<rparr>))"

definition conn_call :: "conn \<Rightarrow> go_error option \<times> conn" where
  "conn_call c = (snd (c_faults c (c_calls c)), c\<lparr>c_calls := Suc (c_calls c)\<rparr>)"

record Client =
  cl_writer :: "conn bufw"
  cl_decoder :: Decoder

abbreviation cl_conn :: "Client \<Rightarrow> conn" where
  "cl_conn c \<equiv> bw_out (cl_writer c)"

definition NewClientWithLimit :: "conn \<Rightarrow> string \<Rightarrow> io_error \<Rightarrow> int \<Rightarrow> Client" where
  "NewClientWithLimit conn input err maxRequestBytes =
     \<lparr>cl_writer = NewWriterSize conn 4096, cl_decoder = NewDecoderWithLimit input err 4096 maxRequestBytes\<rparr>"

definition NewClient :: "conn \<Rightarrow> string \<Rightarrow> io_error \<Rightarrow> Client" where
  "NewClient conn input err = NewClientWithLimit conn input err 2097152"

definition client_Write :: "string \<Rightarrow> Client \<Rightarrow> go_error option \<times> Client" where
  "client_Write p c =
     (case bufio_write conn_write p (cl_writer c) of
        (Some err, w) \<Rightarrow> (Some err, c\<lparr>cl_writer := w\<rparr>)
      | (None, w) \<Rightarrow> let (err, w) = Flush conn_write w in (err, c\<lparr>cl_writer := w\<rparr>))"

definition client_Flush :: "Client \<Rightarrow> go_error option \<times> Client" where
  "client_Flush c = (let (err, w) = Flush conn_write (cl_writer c) in (err, c\<lparr>cl_writer := w\<rparr>))"

definition SetDeadline :: "Client \<Rightarrow> go_error option \<times> Client" where
  "SetDeadline c = (let (err, cn) = conn_call (cl_conn c) in (err, c\<lparr>cl_writer := (cl_writer c)\<lparr>bw_out := cn\<rparr>\<rparr>))"

definition client_Close :: "Client \<Rightarrow> go_error option \<times> Client" where
  "client_Close c =
     (let (err, cn) = conn_call (cl_conn c)
      in (err, c\<lparr>cl_writer := (cl_writer c)\<lparr>bw_out := cn\<lparr>c_closed := True\<rparr>\<rparr>\<rparr>))"

subsection \<open>One response\<close>

definition writeResponse :: "Config \<Rightarrow> Value \<Rightarrow> Client \<Rightarrow> go_error option \<times> Client" where
  "writeResponse cfg v c =
     (case encode_flush limitedWriter_Write
            (\<lambda>t. ''response exceeds '' @ format_int (MaxResponseBytes cfg) @ '' bytes: '' @ t) v
            \<lparr>lw_data = [], lw_limit = MaxResponseBytes cfg, lw_written = 0\<rparr> of
        Inl err \<Rightarrow> (Some err, c)
      | Inr out \<Rightarrow>
          (case SetDeadline c of
             (Some err, c) \<Rightarrow> (Some (''set write deadline: '' @ err), c)
           | (None, c) \<Rightarrow> apfst (map_option (\<lambda>t. ''write response: '' @ t)) (client_Write (lw_data out) c)))"

subsection \<open>The request loop\<close>

text \<open>Why \<open>handleClient\<close> left its loop.\<close>

datatype ending = DeadlineError go_error | DecodeError decode_error | WriteFailure go_error

lemma SetDeadline_decoder: "SetDeadline c = (r, c') \<Longrightarrow> cl_decoder c' = cl_decoder c"
  by (auto simp: SetDeadline_def Let_def split: prod.splits)

lemma client_Write_decoder: "cl_decoder (snd (client_Write p c)) = cl_decoder c"
  by (auto simp: client_Write_def Let_def split: prod.splits option.splits)

lemma writeResponse_decoder:
  assumes "writeResponse cfg v c = (r, c')"
  shows "cl_decoder c' = cl_decoder c"
proof -
  obtain q c1 where "SetDeadline c = (q, c1)" by fastforce
  with SetDeadline_decoder[OF this] client_Write_decoder assms show ?thesis
    by (auto simp: writeResponse_def apfst_def map_prod_def split: sum.splits option.splits prod.splits) (metis snd_conv)
qed

function request_loop ::
  "unicode \<Rightarrow> 'w exec \<Rightarrow> Config \<Rightarrow> Client \<Rightarrow> 'w \<Rightarrow> ((ending \<times> Client) \<times> 'w) option"
where
  "request_loop U exec cfg c w =
     (case SetDeadline c of
        (Some err, c) \<Rightarrow> Some ((DeadlineError err, c), w)
      | (None, c) \<Rightarrow>
          (case Decode U (cl_decoder c) of
             (Inl err, d) \<Rightarrow> Some ((DecodeError err, c\<lparr>cl_decoder := d\<rparr>), w)
           | (Inr value, d) \<Rightarrow>
               (case reply_to U exec value w of
                  None \<Rightarrow> None
                | Some (response, w) \<Rightarrow>
                    (case writeResponse cfg response (c\<lparr>cl_decoder := d\<rparr>) of
                       (Some err, c) \<Rightarrow> Some ((WriteFailure err, c), w)
                     | (None, c) \<Rightarrow> request_loop U exec cfg c w))))"
  by pat_completeness auto
termination
  by (relation "measure (\<lambda>(U, exec, cfg, c, w). length (d_input (cl_decoder c)))")
    (auto dest!: writeResponse_decoder[OF sym] SetDeadline_decoder[OF sym] Decode_shrinks[OF sym])

declare request_loop.simps [simp del]

definition handleClient ::
  "unicode \<Rightarrow> 'w exec \<Rightarrow> Config \<Rightarrow> conn \<Rightarrow> string \<Rightarrow> io_error \<Rightarrow> 'w \<Rightarrow> ((ending \<times> conn) \<times> 'w) option"
where
  "handleClient U exec cfg cn input err w =
     map_option (apfst (apsnd (\<lambda>c. cl_conn (snd (client_Close c)))))
       (request_loop U exec cfg (NewClientWithLimit cn input err (MaxRequestBytes cfg)) w)"

subsection \<open>What a client receives\<close>

interpretation cw: byte_sink conn_write "\<lambda>_. True" c_sent "\<lambda>_. True"
  by unfold_locales (auto simp: conn_write_def Let_def min_def split: prod.splits option.splits)

lemma conn_write_prefix: "prefix (c_sent u) (c_sent (snd (conn_write p u)))"
  by (auto simp: conn_write_def Let_def split: prod.splits option.splits)

definition client_ready :: "Client \<Rightarrow> bool" where
  "client_ready c \<longleftrightarrow> bw_buf (cl_writer c) = [] \<and> bw_err (cl_writer c) = None"

lemma client_Write_sent:
  assumes "client_ready c" "client_Write p c = (r, c')"
  shows "r = None \<Longrightarrow> client_ready c' \<and> c_sent (cl_conn c') = c_sent (cl_conn c) @ p"
    and "\<exists>n. c_sent (cl_conn c') = c_sent (cl_conn c) @ take n p"
proof -
  let ?t = "c_sent (cl_conn c)"
  have h: "cw.holds ?t (cl_writer c)" using assms(1) by (simp add: cw.holds_def client_ready_def)
  obtain r1 w1 where 1: "bufio_write conn_write p (cl_writer c) = (r1, w1)" by fastforce
  have w: "cw.written (?t @ p) (r1, w1)" using cw.write_written[OF h, of p] 1 by simp
  have *: "(r = None \<longrightarrow> client_ready c' \<and> c_sent (cl_conn c') = ?t @ p) \<and> (\<exists>x. ?t @ p = c_sent (cl_conn c') @ x)"
  proof (cases r1)
    case (Some err)
    with w 1 assms(2) show ?thesis by (auto simp: client_Write_def cw.written_def cw.broken_def)
  next
    case None
    with w have h1: "cw.holds (?t @ p) w1" by (simp add: cw.written_def)
    obtain r2 w2 where 2: "Flush conn_write w1 = (r2, w2)" by fastforce
    have c': "r = r2" "c' = c\<lparr>cl_writer := w2\<rparr>" using assms(2) 1 None 2 by (simp_all add: client_Write_def)
    show ?thesis
    proof (cases r2)
      case None
      from cw.flush_holds[OF h1 2[unfolded None]] show ?thesis by (simp add: c' client_ready_def cw.holds_def)
    next
      case (Some err)
      from cw.flush_broken[OF h1 2[unfolded Some]] Some show ?thesis by (simp add: c' cw.broken_def)
    qed
  qed
  then show "r = None \<Longrightarrow> client_ready c' \<and> c_sent (cl_conn c') = ?t @ p" by simp
  have "prefix ?t (c_sent (bw_out w1))"
    using bufio_write_related[of "\<lambda>u v. prefix (c_sent u) (c_sent v)" conn_write "cl_writer c" p] conn_write_prefix 1 by auto
  moreover have "prefix (c_sent (bw_out w1)) (c_sent (bw_out (snd (Flush conn_write w1))))"
    using Flush_related[of "\<lambda>u v. prefix (c_sent u) (c_sent v)" conn_write w1] conn_write_prefix by simp
  moreover have "cl_conn c' = bw_out w1 \<or> cl_conn c' = bw_out (snd (Flush conn_write w1))"
    using assms(2) 1 by (auto simp: client_Write_def Let_def split: option.splits prod.splits)
  ultimately have "prefix ?t (c_sent (cl_conn c'))" by (auto dest: prefix_order.trans)
  then have "length ?t \<le> length (c_sent (cl_conn c'))" by (rule prefix_length_le)
  with * prefix_take[of ?t p "c_sent (cl_conn c')"] show "\<exists>n. c_sent (cl_conn c') = ?t @ take n p" by auto
qed

lemma SetDeadline_conn:
  assumes "SetDeadline c = (r, c')"
  shows "c_sent (cl_conn c') = c_sent (cl_conn c)" "client_ready c' = client_ready c"
  using assms by (auto simp: SetDeadline_def conn_call_def client_ready_def)

text \<open>A reply is sent whole, or cut off by a failing connection, or, when it is over the limit, not at all.\<close>

lemma writeResponse_sent:
  assumes "client_ready c" "typed v" "writeResponse cfg v c = (r, c')"
  shows "r = None \<Longrightarrow> client_ready c' \<and> c_sent (cl_conn c') = c_sent (cl_conn c) @ encoding v \<and>
      int (length (encoding v)) \<le> max 0 (MaxResponseBytes cfg)"
    and "\<exists>n. c_sent (cl_conn c') = c_sent (cl_conn c) @ take n (encoding v) \<and>
      (int (length (encoding v)) > max 0 (MaxResponseBytes cfg) \<longrightarrow> n = 0)"
proof -
  let ?ft = "\<lambda>t. ''response exceeds '' @ format_int (MaxResponseBytes cfg) @ '' bytes: '' @ t"
  let ?e = "encode_flush limitedWriter_Write ?ft v \<lparr>lw_data = [], lw_limit = MaxResponseBytes cfg, lw_written = 0\<rparr>"
  note enc = encode_limitedWriter[OF assms(2), where ft = ?ft and limit = "MaxResponseBytes cfg"]
  have "(r = None \<longrightarrow> client_ready c' \<and> c_sent (cl_conn c') = c_sent (cl_conn c) @ encoding v \<and>
      int (length (encoding v)) \<le> max 0 (MaxResponseBytes cfg)) \<and>
    (\<exists>n. c_sent (cl_conn c') = c_sent (cl_conn c) @ take n (encoding v) \<and>
      (int (length (encoding v)) > max 0 (MaxResponseBytes cfg) \<longrightarrow> n = 0))"
  proof (cases ?e)
    case (Inl err)
    with assms(3) have "c' = c" "r \<noteq> None" by (auto simp: writeResponse_def)
    then show ?thesis by (auto intro: exI[of _ 0])
  next
    case (Inr out)
    with enc have out: "lw_data out = encoding v" "int (length (encoding v)) \<le> max 0 (MaxResponseBytes cfg)" by simp_all
    obtain q c1 where d: "SetDeadline c = (q, c1)" by fastforce
    note c1 = SetDeadline_conn[OF d]
    show ?thesis
    proof (cases q)
      case (Some err)
      with assms(3) Inr d have "c' = c1" "r \<noteq> None" by (auto simp: writeResponse_def)
      with c1 show ?thesis by (auto intro: exI[of _ 0])
    next
      case None
      obtain r2 c2 where w: "client_Write (encoding v) c1 = (r2, c2)" by fastforce
      have "c' = c2" "r = None \<longleftrightarrow> r2 = None" using assms(3) Inr d None w out(1) by (auto simp: writeResponse_def)
      moreover have "\<not> int (length (encoding v)) > max 0 (MaxResponseBytes cfg)" using out(2) by (simp only: not_less)
      ultimately show ?thesis using client_Write_sent[OF _ w] c1 assms(1) out(2) by (simp only: simp_thms) blast
    qed
  qed
  then show "r = None \<Longrightarrow> client_ready c' \<and> c_sent (cl_conn c') = c_sent (cl_conn c) @ encoding v \<and>
      int (length (encoding v)) \<le> max 0 (MaxResponseBytes cfg)"
    and "\<exists>n. c_sent (cl_conn c') = c_sent (cl_conn c) @ take n (encoding v) \<and>
      (int (length (encoding v)) > max 0 (MaxResponseBytes cfg) \<longrightarrow> n = 0)" by blast+
qed

text \<open>
  The bytes a client has received when its handler ends, against the replies to its requests:
  every reply in full, except that a failed write may leave a part of the last one, and nothing of
  one that is over the limit.
\<close>

definition delivered :: "int \<Rightarrow> ending \<Rightarrow> Value list \<Rightarrow> string \<Rightarrow> bool" where
  "delivered limit e rs bytes =
     (case e of
        WriteFailure _ \<Rightarrow> rs \<noteq> [] \<and> (\<exists>n. bytes = concat (map encoding (butlast rs)) @ take n (encoding (last rs)) \<and>
          (int (length (encoding (last rs))) > max 0 limit \<longrightarrow> n = 0))
      | _ \<Rightarrow> bytes = concat (map encoding rs))"

lemma delivered_Cons: "delivered limit e rs bytes \<Longrightarrow> delivered limit e (r # rs) (encoding r @ bytes)"
  by (cases e) (auto simp: delivered_def)

context command_executor
begin

lemma request_loop_serves:
  assumes "inv w" "client_ready c" "reads err limit (cl_decoder c)"
  shows "\<exists>e c' w' rs y bytes. request_loop U exec cfg c w = Some ((e, c'), w') \<and> inv w' \<and>
    serves U exec err limit (d_input (cl_decoder c)) w rs y w' \<and>
    (\<forall>x. e = DecodeError x \<longrightarrow> fst (Decode U (reader err limit y)) = Inl x) \<and>
    c_sent (cl_conn c') = c_sent (cl_conn c) @ bytes \<and> delivered (MaxResponseBytes cfg) e rs bytes"
  using assms
proof (induction "length (d_input (cl_decoder c))" arbitrary: c w rule: less_induct)
  case less
  obtain q c1 where d: "SetDeadline c = (q, c1)" by fastforce
  note c1 = SetDeadline_conn[OF d] SetDeadline_decoder[OF d]
  obtain r d1 where dec: "Decode U (cl_decoder c) = (r, d1)" by fastforce
  note dec' = dec[unfolded reads_Decode[OF less.prems(3)]]
  consider (Deadline) err where "q = Some err" | (Decode) err where "q = None" "r = Inl err" | (Request) v where "q = None" "r = Inr v"
    by (cases q; cases r) auto
  then show ?case
  proof cases
    case Deadline
    then have "request_loop U exec cfg c w = Some ((DeadlineError err, c1), w)" by (simp add: request_loop.simps[of U exec cfg c] d)
    then show ?thesis using less.prems c1 by (intro exI[of _ "[]"] exI conjI) (auto intro: serves.none simp: delivered_def)
  next
    case Decode
    then have "request_loop U exec cfg c w = Some ((DecodeError err, c1\<lparr>cl_decoder := d1\<rparr>), w)"
      by (simp add: request_loop.simps[of U exec cfg c] d dec c1)
    then show ?thesis using less.prems c1 Decode dec'
      by (intro exI[of _ "[]"] exI conjI) (auto intro: serves.none simp: delivered_def)
  next
    case Request
    obtain reply w1 where x: "reply_to U exec v w = Some (reply, w1)" "inv w1" "typed reply"
      using reply_returns[OF less.prems(1)] by metis
    let ?c = "c1\<lparr>cl_decoder := d1\<rparr>"
    have ready: "client_ready ?c" using c1(2) less.prems(2) by (simp add: client_ready_def)
    obtain s c2 where w: "writeResponse cfg reply ?c = (s, c2)" by fastforce
    note sent = writeResponse_sent[OF ready x(3) w]
    have loop: "request_loop U exec cfg c w =
        (case s of Some err \<Rightarrow> Some ((WriteFailure err, c2), w1) | None \<Rightarrow> request_loop U exec cfg c2 w1)"
      by (simp add: request_loop.simps[of U exec cfg c] d dec c1 Request x(1) w)
    show ?thesis
    proof (cases s)
      case (Some f)
      from sent(2) obtain n where n: "c_sent (cl_conn c2) = c_sent (cl_conn c) @ take n (encoding reply)"
        "int (length (encoding reply)) > max 0 (MaxResponseBytes cfg) \<longrightarrow> n = 0" using c1 by auto
      have "delivered (MaxResponseBytes cfg) (WriteFailure f) [reply] (take n (encoding reply))"
        using n(2) by (auto simp: delivered_def)
      moreover have "serves U exec err limit (d_input (cl_decoder c)) w [reply] (d_input d1) w1"
        using serves.request[OF dec'[unfolded Request] x(1) serves.none] .
      ultimately show ?thesis using loop Some n(1) x(2) by (intro exI conjI) auto
    next
      case None
      have d2: "cl_decoder c2 = d1" using writeResponse_decoder[OF w] by simp
      then have "length (d_input (cl_decoder c2)) < length (d_input (cl_decoder c))"
        using Decode_shrinks[OF dec[unfolded Request]] by simp
      moreover have "reads err limit (cl_decoder c2)" using Decode_reads[OF dec[unfolded Request] less.prems(3)] d2 by simp
      ultimately obtain e c' w' rs y bytes where
        IH: "request_loop U exec cfg c2 w1 = Some ((e, c'), w')" "inv w'" "serves U exec err limit (d_input (cl_decoder c2)) w1 rs y w'"
          "\<forall>x. e = DecodeError x \<longrightarrow> fst (Decode U (reader err limit y)) = Inl x"
          "c_sent (cl_conn c') = c_sent (cl_conn c2) @ bytes" "delivered (MaxResponseBytes cfg) e rs bytes"
        using less.hyps[OF _ x(2)] sent(1)[OF None] by blast
      have "c_sent (cl_conn c') = c_sent (cl_conn c) @ (encoding reply @ bytes)"
        using IH(5) sent(1)[OF None] c1 by simp
      moreover have "serves U exec err limit (d_input (cl_decoder c)) w (reply # rs) y w'"
        using serves.request[OF dec'[unfolded Request] x(1) IH(3)[unfolded d2]] .
      ultimately show ?thesis using loop None IH(1,2,4) delivered_Cons[OF IH(6), of reply] by (intro exI conjI) auto
    qed
  qed
qed

end


end
