(* ===== verification/Poller.thy ===== *)
theory Poller
  imports GoStd
begin

text \<open>
  The operating system as the reactor sees it, and the epoll wrapper
  \<open>internal/reactor/poller.go\<close>. The results of system calls are given: the data and errors
  a socket will deliver, how much each write takes, the connections that will be
  accepted, the outcomes of \<open>epoll_ctl\<close> and \<open>close\<close>, the events of each \<open>epoll_wait\<close>. Their
  effects are those the manual pages document. A list of results that is used up stands for a
  call that would block, so every finite behaviour of the system is covered.
\<close>

unbundle bit_operations_syntax

type_synonym uint32 = "32 word"

datatype errno = EAGAIN | EINTR | EBADF | Errno string

fun errno_text :: "errno \<Rightarrow> string" where
  "errno_text EAGAIN = ''resource temporarily unavailable''"
| "errno_text EINTR = ''interrupted system call''"
| "errno_text EBADF = ''bad file descriptor''"
| "errno_text (Errno t) = t"

record Event =
  ev_FD :: int
  ev_Events :: uint32

record socket =
  s_reads :: "(errno + string) list"
  s_writes :: "(errno + nat) list"
  s_sent :: string

record kernel =
  k_now :: "nat \<Rightarrow> time"
  k_ticks :: nat
  k_open :: "int set"
  k_fd :: "int set \<Rightarrow> int"
  k_sockets :: "int \<rightharpoonup> socket"
  k_accepts :: "(errno + socket) list"
  k_interest :: "int \<rightharpoonup> uint32"
  k_waits :: "(errno + Event list) list"
  k_results :: "nat \<Rightarrow> errno option"
  k_calls :: nat

subsection \<open>System calls\<close>

definition time_Now :: "kernel \<Rightarrow> time \<times> kernel" where
  "time_Now k = (k_now k (k_ticks k), k\<lparr>k_ticks := Suc (k_ticks k)\<rparr>)"

definition sys_result :: "kernel \<Rightarrow> errno option \<times> kernel" where
  "sys_result k = (k_results k (k_calls k), k\<lparr>k_calls := Suc (k_calls k)\<rparr>)"

text \<open>A new descriptor; \<open>k_fd\<close> says which number the kernel chooses, given those in use.\<close>

definition sys_descriptor :: "kernel \<Rightarrow> (errno + int) \<times> kernel" where
  "sys_descriptor k =
     (let (err, k) = sys_result k
      in case err of
           Some e \<Rightarrow> (Inl e, k)
         | None \<Rightarrow> let fd = k_fd k (k_open k) in (Inr fd, k\<lparr>k_open := insert fd (k_open k)\<rparr>))"

definition sys_accept :: "kernel \<Rightarrow> (errno + int) \<times> kernel" where
  "sys_accept k =
     (case k_accepts k of
        [] \<Rightarrow> (Inl EAGAIN, k)
      | Inl e # as \<Rightarrow> (Inl e, k\<lparr>k_accepts := as\<rparr>)
      | Inr s # as \<Rightarrow>
          let fd = k_fd k (k_open k)
          in (Inr fd, k\<lparr>k_accepts := as, k_open := insert fd (k_open k),
                        k_sockets := (k_sockets k)(fd \<mapsto> s\<lparr>s_sent := []\<rparr>)\<rparr>))"

text \<open>\<open>read\<close> and \<open>write\<close> return a number of bytes or an error, never both.\<close>

definition sys_read :: "int \<Rightarrow> kernel \<Rightarrow> (string \<times> errno option) \<times> kernel" where
  "sys_read fd k =
     (case k_sockets k fd of
        None \<Rightarrow> (([], Some EBADF), k)
      | Some s \<Rightarrow>
          (case s_reads s of
             [] \<Rightarrow> (([], Some EAGAIN), k)
           | r # rs \<Rightarrow>
               (case r of Inl e \<Rightarrow> ([], Some e) | Inr data \<Rightarrow> (data, None),
                k\<lparr>k_sockets := (k_sockets k)(fd \<mapsto> s\<lparr>s_reads := rs\<rparr>)\<rparr>)))"

definition sys_write :: "int \<Rightarrow> string \<Rightarrow> kernel \<Rightarrow> (nat \<times> errno option) \<times> kernel" where
  "sys_write fd p k =
     (case k_sockets k fd of
        None \<Rightarrow> ((0, Some EBADF), k)
      | Some s \<Rightarrow>
          (case s_writes s of
             [] \<Rightarrow> ((0, Some EAGAIN), k)
           | Inl e # ws \<Rightarrow> ((0, Some e), k\<lparr>k_sockets := (k_sockets k)(fd \<mapsto> s\<lparr>s_writes := ws\<rparr>)\<rparr>)
           | Inr n # ws \<Rightarrow>
               ((min n (length p), None),
                k\<lparr>k_sockets := (k_sockets k)(fd \<mapsto> s\<lparr>s_writes := ws, s_sent := s_sent s @ take n p\<rparr>)\<rparr>)))"

text \<open>A descriptor is released, and leaves the interest list, whatever \<open>close\<close> returns.\<close>

definition sys_close :: "int \<Rightarrow> kernel \<Rightarrow> errno option \<times> kernel" where
  "sys_close fd k =
     (let (err, k) = sys_result k
      in (err, k\<lparr>k_open := k_open k - {fd}, k_sockets := (k_sockets k)(fd := None),
                 k_interest := (k_interest k)(fd := None)\<rparr>))"

definition epoll_ctl :: "int \<Rightarrow> uint32 option \<Rightarrow> kernel \<Rightarrow> errno option \<times> kernel" where
  "epoll_ctl fd flags k =
     (let (err, k) = sys_result k
      in (err, if err = None then k\<lparr>k_interest := (k_interest k)(fd := flags)\<rparr> else k))"

definition epoll_wait :: "int \<Rightarrow> kernel \<Rightarrow> (errno + Event list) \<times> kernel" where
  "epoll_wait n k =
     (case k_waits k of
        [] \<Rightarrow> (Inr [], k)
      | w # ws \<Rightarrow> (map_sum id (take (nat n)) w, k\<lparr>k_waits := ws\<rparr>))"

subsection \<open>The poller\<close>

definition EPOLLIN :: uint32 where "EPOLLIN = 0x1"
definition EPOLLOUT :: uint32 where "EPOLLOUT = 0x4"
definition EPOLLERR :: uint32 where "EPOLLERR = 0x8"
definition EPOLLHUP :: uint32 where "EPOLLHUP = 0x10"
definition EPOLLRDHUP :: uint32 where "EPOLLRDHUP = 0x2000"

lemmas epoll_flags = EPOLLIN_def EPOLLOUT_def EPOLLERR_def EPOLLHUP_def EPOLLRDHUP_def

definition DefaultMaxEvents :: int where
  "DefaultMaxEvents = 128"

definition DefaultEventMask :: uint32 where
  "DefaultEventMask = EPOLLIN OR EPOLLERR OR EPOLLRDHUP"

record Poller =
  epfd :: int
  maxEvents :: int

definition NewPoller :: "int \<Rightarrow> kernel \<Rightarrow> (go_error + Poller) \<times> kernel" where
  "NewPoller n k =
     (let n = if n \<le> 0 then DefaultMaxEvents else n; (r, k) = sys_descriptor k
      in (case r of
            Inl err \<Rightarrow> Inl (''failed to create epoll instance: '' @ errno_text err)
          | Inr fd \<Rightarrow> Inr \<lparr>epfd = fd, maxEvents = n\<rparr>, k))"

definition RegisterWithEvents :: "int \<Rightarrow> uint32 \<Rightarrow> kernel \<Rightarrow> go_error option \<times> kernel" where
  "RegisterWithEvents fd events k =
     apfst (map_option (\<lambda>err. ''failed to register fd '' @ format_int fd @ '': '' @ errno_text err)) (epoll_ctl fd (Some events) k)"

definition Register :: "int \<Rightarrow> kernel \<Rightarrow> go_error option \<times> kernel" where
  "Register fd k = RegisterWithEvents fd DefaultEventMask k"

definition Modify :: "int \<Rightarrow> uint32 \<Rightarrow> kernel \<Rightarrow> go_error option \<times> kernel" where
  "Modify fd events k =
     apfst (map_option (\<lambda>err. ''failed to modify fd '' @ format_int fd @ '': '' @ errno_text err)) (epoll_ctl fd (Some events) k)"

definition Unregister :: "int \<Rightarrow> kernel \<Rightarrow> go_error option \<times> kernel" where
  "Unregister fd k =
     apfst (map_option (\<lambda>err. ''failed to unregister fd '' @ format_int fd @ '': '' @ errno_text err)) (epoll_ctl fd None k)"

lemma epoll_wait_waits: "epoll_wait n k = (Inl err, k') \<Longrightarrow> length (k_waits k') < length (k_waits k)"
  by (auto simp: epoll_wait_def split: list.splits)

function Wait :: "Poller \<Rightarrow> kernel \<Rightarrow> (go_error + Event list) \<times> kernel" where
  "Wait p k =
     (case epoll_wait (maxEvents p) k of
        (Inl err, k) \<Rightarrow>
          if err = EINTR then Wait p k
          else (Inl (''epoll_wait failed: '' @ errno_text err), k)
      | (Inr events, k) \<Rightarrow> (Inr events, k))"
  by pat_completeness auto
termination
  by (relation "measure (\<lambda>(p, k). length (k_waits k))") (auto dest!: epoll_wait_waits[OF sym])

declare Wait.simps [simp del]

definition poller_Close :: "Poller \<Rightarrow> kernel \<Rightarrow> go_error option \<times> kernel" where
  "poller_Close p k =
     apfst (map_option (\<lambda>err. ''failed to close epoll fd: '' @ errno_text err)) (sys_close (epfd p) k)"

subsection \<open>What the calls leave alone\<close>

text \<open>The bytes a client has been sent, and what its socket will deliver.\<close>

definition sent :: "int \<Rightarrow> kernel \<Rightarrow> string" where
  "sent fd k = (case k_sockets k fd of None \<Rightarrow> [] | Some s \<Rightarrow> s_sent s)"

definition arriving :: "int \<Rightarrow> kernel \<Rightarrow> (errno + string) list" where
  "arriving fd k = (case k_sockets k fd of None \<Rightarrow> [] | Some s \<Rightarrow> s_reads s)"

definition writable :: "int \<Rightarrow> kernel \<Rightarrow> (errno + nat) list" where
  "writable fd k = (case k_sockets k fd of None \<Rightarrow> [] | Some s \<Rightarrow> s_writes s)"

text \<open>Calls on one descriptor that keep it open.\<close>

definition local_to :: "int \<Rightarrow> kernel \<Rightarrow> kernel \<Rightarrow> bool" where
  "local_to fd k k' \<longleftrightarrow> k_open k' = k_open k \<and> k_fd k' = k_fd k \<and> k_accepts k' = k_accepts k \<and> k_waits k' = k_waits k \<and>
     (\<forall>f. f \<noteq> fd \<longrightarrow> k_sockets k' f = k_sockets k f \<and> k_interest k' f = k_interest k f) \<and>
     (k_sockets k' fd = None \<longleftrightarrow> k_sockets k fd = None) \<and> (k_interest k fd \<noteq> None \<longrightarrow> k_interest k' fd \<noteq> None)"

lemma local_to_refl [simp]: "local_to fd k k"
  by (simp add: local_to_def)

lemma local_to_trans: "local_to fd k k1 \<Longrightarrow> local_to fd k1 k' \<Longrightarrow> local_to fd k k'"
  by (auto simp: local_to_def)

lemma time_Now_effect:
  assumes "time_Now k = (t, k')"
  shows "local_to fd k k'" "sent fd k' = sent fd k" "arriving fd k' = arriving fd k" "writable fd k' = writable fd k"
    "k_interest k' = k_interest k"
  using assms by (auto simp: time_Now_def local_to_def sent_def arriving_def writable_def)

lemma Modify_effect:
  assumes "Modify fd flags k = (r, k')"
  shows "local_to fd k k'" "sent f k' = sent f k" "arriving f k' = arriving f k"
    "r = None \<Longrightarrow> k_interest k' fd = Some flags"
  using assms by (auto simp: Modify_def epoll_ctl_def sys_result_def local_to_def sent_def arriving_def apfst_def map_prod_def
      split: prod.splits if_splits)

lemma sys_write_effect:
  assumes "sys_write fd p k = ((n, err), k')"
  shows "local_to fd k k'" "sent fd k' = sent fd k @ take n p" "arriving fd k' = arriving fd k" "n \<le> length p"
    "err \<noteq> None \<Longrightarrow> n = 0"
    "err \<noteq> Some EAGAIN \<Longrightarrow> err \<noteq> Some EBADF \<Longrightarrow> length (writable fd k') < length (writable fd k)"
  using assms by (auto simp: sys_write_def local_to_def sent_def arriving_def writable_def min_def
      split: option.splits list.splits sum.splits)

lemma sys_read_effect:
  assumes "sys_read fd k = ((data, err), k')"
  shows "local_to fd k k'" "sent fd k' = sent fd k"
    "k_sockets k fd \<noteq> None \<Longrightarrow> arriving fd k = [] \<Longrightarrow> data = [] \<and> err = Some EAGAIN \<and> k' = k"
    "arriving fd k = r # rs \<Longrightarrow> arriving fd k' = rs \<and> (data, err) = (case r of Inl e \<Rightarrow> ([], Some e) | Inr x \<Rightarrow> (x, None))"
    "err \<noteq> Some EAGAIN \<Longrightarrow> err \<noteq> Some EBADF \<Longrightarrow> length (arriving fd k') < length (arriving fd k)"
  using assms by (auto simp: sys_read_def local_to_def sent_def arriving_def split: option.splits list.splits)

end
