(* ===== verification/RespStream.thy ===== *)
theory RespStream
  imports RespCorrect AofCorrect
begin

text \<open>
  Decoding a stream that arrives in pieces: on a part of the input the decoder either gives the
  value it would give on the whole, or runs out of input, or refuses what it would refuse.
\<close>

text \<open>
  A step is streaming if a value on a part of the input is the value on the whole, and an error
  other than the end of the input is an error of that kind on the whole. (It may be another
  error: a line that is too long may also be over the limit of the message.)
\<close>

definition refused :: "'a decoded \<Rightarrow> bool" where
  "refused r \<longleftrightarrow> (\<exists>err. fst r = Inl err \<and> \<not> is_eof err)"

definition streaming :: "(Decoder \<Rightarrow> 'a decoded) \<Rightarrow> bool" where
  "streaming f \<longleftrightarrow> (\<forall>d y. d_err d = EOF \<longrightarrow>
     (\<forall>x d'. f d = (Inr x, d') \<longrightarrow> d_err d' = EOF \<and> f (with_input y d) = (Inr x, with_input y d')) \<and>
     (refused (f d) \<longrightarrow> refused (f (with_input y d))))"

lemma streamingI:
  assumes "\<And>d x d' y. d_err d = EOF \<Longrightarrow> f d = (Inr x, d') \<Longrightarrow> d_err d' = EOF \<and> f (with_input y d) = (Inr x, with_input y d')"
    "\<And>d y. d_err d = EOF \<Longrightarrow> refused (f d) \<Longrightarrow> refused (f (with_input y d))"
  shows "streaming f"
  using assms unfolding streaming_def by blast

lemma streamingD:
  "streaming f \<Longrightarrow> d_err d = EOF \<Longrightarrow> f d = (Inr x, d') \<Longrightarrow> d_err d' = EOF"
  "streaming f \<Longrightarrow> d_err d = EOF \<Longrightarrow> f d = (Inr x, d') \<Longrightarrow> f (with_input y d) = (Inr x, with_input y d')"
  "streaming f \<Longrightarrow> d_err d = EOF \<Longrightarrow> refused (f d) \<Longrightarrow> refused (f (with_input y d))"
  unfolding streaming_def by blast+

lemma refused_simps [simp]: "refused (Inl err, d) \<longleftrightarrow> \<not> is_eof err" "\<not> refused (Inr x, d)"
  by (simp_all add: refused_def)

lemma streaming_return [simp]: "streaming (\<lambda>d. (Inr x, d))" "streaming (\<lambda>d. (Inl e, d))"
  by (simp_all add: streaming_def)

lemma refused_dbind: "refused (dbind r f) \<longleftrightarrow> refused r \<or> (\<exists>x d. r = (Inr x, d) \<and> refused (f x d))"
  by (cases r; cases "fst r") auto

lemma streaming_dbind:
  assumes "streaming f" "\<And>x. streaming (g x)"
  shows "streaming (\<lambda>d. dbind (f d) g)"
proof (rule streamingI)
  fix d x d' y
  assume d: "d_err d = EOF" "dbind (f d) g = (Inr x, d')"
  then obtain z d1 where z: "f d = (Inr z, d1)" "g z d1 = (Inr x, d')" by (auto simp: dbind_Inr)
  note d1 = streamingD(1)[OF assms(1) d(1) z(1)] streamingD(2)[OF assms(1) d(1) z(1)]
  from streamingD(1)[OF assms(2) d1(1) z(2)] streamingD(2)[OF assms(2) d1(1) z(2)] d1(2)
  show "d_err d' = EOF \<and> dbind (f (with_input y d)) g = (Inr x, with_input y d')" by simp
next
  fix d y
  assume d: "d_err d = EOF" "refused (dbind (f d) g)"
  then consider "refused (f d)" | z d1 where "f d = (Inr z, d1)" "refused (g z d1)" by (auto simp: refused_dbind)
  then show "refused (dbind (f (with_input y d)) g)"
  proof cases
    case 1
    with streamingD(3)[OF assms(1) d(1)] show ?thesis by (auto simp: refused_dbind)
  next
    case 2
    from streamingD(3)[OF assms(2) streamingD(1)[OF assms(1) d(1) 2(1)] 2(2)] streamingD(2)[OF assms(1) d(1) 2(1)]
    show ?thesis by (auto simp: refused_dbind)
  qed
qed

lemma streaming_if: "(b \<Longrightarrow> streaming f) \<Longrightarrow> (\<not> b \<Longrightarrow> streaming g) \<Longrightarrow> streaming (\<lambda>d. if b then f d else g d)"
  by (cases b) simp_all

lemma streaming_option:
  "streaming f \<Longrightarrow> (\<And>x. streaming (g x)) \<Longrightarrow> streaming (\<lambda>d. case r of None \<Rightarrow> f d | Some x \<Rightarrow> g x d)"
  by (cases r) simp_all

subsection \<open>The reader\<close>

lemma with_input_more [simp]: "d_err (with_input y d) = d_err d" "d_bufsize (with_input y d) = d_bufsize d"
  by (simp_all add: with_input_def)

lemma streaming_ReadByte: "streaming ReadByte"
  by (rule streamingI) (auto simp: ReadByte_def with_input_def refused_def split: list.splits)

lemma streaming_consume: "streaming (consume n)"
  by (rule streamingI) (auto simp: consume_def with_input_def refused_def split: if_splits)

lemma streaming_ReadFull: "streaming (ReadFull n)"
  by (rule streamingI) (auto simp: ReadFull_def with_input_def refused_def split: if_splits)

lemma takeWhile_append_less: "length (takeWhile P xs) < length xs \<Longrightarrow> takeWhile P (xs @ ys) = takeWhile P xs"
  by (induction xs) auto

lemma takeWhile_append_all: "length (takeWhile P xs) = length xs \<Longrightarrow> takeWhile P (xs @ ys) = xs @ takeWhile P ys"
proof (induction xs)
  case (Cons x xs)
  then show ?case using length_takeWhile_le[of P xs] by (auto split: if_splits)
qed simp

lemma takeWhile_append_longer: "length (takeWhile P xs) \<le> length (takeWhile P (xs @ ys))"
  by (induction xs) auto

lemma ReadSlice_more:
  assumes "ReadSlice d = ((chunk, status), d1)"
  shows "(status = Complete \<or> status = ErrBufferFull) \<Longrightarrow> ReadSlice (with_input y d) = ((chunk, status), with_input y d1)"
    and "status = ReaderError err \<Longrightarrow> \<exists>z status' d2. ReadSlice (with_input y d) = ((chunk @ z, status'), d2) \<and> d2\<lparr>d_input := []\<rparr> = d1"
    and "d_err d1 = d_err d"
proof -
  let ?n = "length (takeWhile (\<lambda>c. c \<noteq> LF) (d_input d))" and ?b = "buffer_size d"
  have b: "buffer_size (with_input y d) = ?b" by (simp add: buffer_size_def)
  have le: "?n \<le> length (d_input d)" by (rule length_takeWhile_le)
  consider (full) "?n < ?b" "?n < length (d_input d)" | (buffer) "\<not> (?n < ?b \<and> ?n < length (d_input d))" "?b \<le> length (d_input d)"
    | (rest) "?n = length (d_input d)" "length (d_input d) < ?b" using le by linarith
  then have "((status = Complete \<or> status = ErrBufferFull) \<longrightarrow> ReadSlice (with_input y d) = ((chunk, status), with_input y d1)) \<and>
    (status = ReaderError err \<longrightarrow> (\<exists>z status' d2. ReadSlice (with_input y d) = ((chunk @ z, status'), d2) \<and> d2\<lparr>d_input := []\<rparr> = d1))"
  proof cases
    case full
    with assms b show ?thesis by (auto simp: ReadSlice_def Let_def takeWhile_append_less with_input_def)
  next
    case buffer
    then have "?b \<le> ?n" using le by linarith
    moreover have "?n \<le> length (takeWhile (\<lambda>c. c \<noteq> LF) (d_input d @ y))"
      by (rule takeWhile_append_longer)
    ultimately show ?thesis using assms b buffer by (auto simp: ReadSlice_def Let_def with_input_def)
  next
    case rest
    then have "takeWhile (\<lambda>c. c \<noteq> LF) (d_input d @ y) = d_input d @ takeWhile (\<lambda>c. c \<noteq> LF) y"
      by (intro takeWhile_append_all)
    with rest assms b show ?thesis by (auto simp: ReadSlice_def Let_def with_input_def)
  qed
  then show "(status = Complete \<or> status = ErrBufferFull) \<Longrightarrow> ReadSlice (with_input y d) = ((chunk, status), with_input y d1)"
    and "status = ReaderError err \<Longrightarrow> \<exists>z status' d2. ReadSlice (with_input y d) = ((chunk @ z, status'), d2) \<and> d2\<lparr>d_input := []\<rparr> = d1"
    by blast+
  show "d_err d1 = d_err d" using assms by (auto simp: ReadSlice_def Let_def split: if_splits)
qed

text \<open>A charge that is refused, or a line that is too long, stays so with a longer chunk.\<close>

definition charge :: "string \<Rightarrow> string \<Rightarrow> Decoder \<Rightarrow> unit decoded" where
  "charge line chunk d =
     dbind (if chunk = [] then (Inr (), d) else consume (int (length chunk)) d) (\<lambda>_ d.
       if chunk \<noteq> [] \<and> length (line @ chunk) > maxRESPLineLength then (Inl LineTooLong, d) else (Inr (), d))"

lemma read_chunks_charge:
  "read_chunks line d =
     (case ReadSlice d of ((chunk, status), d1) \<Rightarrow> dbind (charge line chunk d1) (\<lambda>_ d2.
        case status of
          Complete \<Rightarrow> (Inr (line @ chunk), d2)
        | ErrBufferFull \<Rightarrow> read_chunks (line @ chunk) d2
        | ReaderError err \<Rightarrow> (Inl (IO err), d2)))"
  by (subst read_chunks.simps)
    (auto simp: charge_def dbind_assoc fun_eq_iff intro!: arg_cong2[of _ _ _ _ dbind] split: prod.split)

lemma charge_streaming: "streaming (charge line chunk)"
  unfolding charge_def
  by (intro streaming_dbind streaming_if streaming_consume streaming_return)

lemma charge_refused:
  assumes "refused (charge line chunk d)" "d'\<lparr>d_input := []\<rparr> = d"
  shows "refused (charge line (chunk @ z) d')"
proof -
  have "messageBytes d' = messageBytes d" "maxMessageBytes d' = maxMessageBytes d" using assms(2) by auto
  with assms(1) show ?thesis
    by (cases "chunk = []") (auto simp: charge_def consume_def refused_dbind split: if_splits)
qed

lemma charge_input: "charge line chunk d = (r, d') \<Longrightarrow> d_input d' = d_input d"
  by (auto simp: charge_def dbind_def dest: consume_input split: if_splits prod.splits sum.splits)

lemma read_chunks_more:
  assumes "d_err d = EOF"
  shows "(\<forall>x d'. read_chunks line d = (Inr x, d') \<longrightarrow> d_err d' = EOF \<and> read_chunks line (with_input y d) = (Inr x, with_input y d')) \<and>
    (refused (read_chunks line d) \<longrightarrow> refused (read_chunks line (with_input y d)))"
  using assms
proof (induction "length (d_input d)" arbitrary: line d rule: less_induct)
  case less
  obtain chunk status d1 where s: "ReadSlice d = ((chunk, status), d1)" by (metis prod.exhaust)
  note more = ReadSlice_more[OF s]
  note c = streamingD[OF charge_streaming[of line chunk], of d1]
  have e: "d_err d1 = EOF" using more(3) less.prems by simp
  note rc = read_chunks_charge[of line d, unfolded s prod.case]
  show ?case
  proof (cases status)
    case Complete
    with more(1)[of y] have "ReadSlice (with_input y d) = ((chunk, status), with_input y d1)" by simp
    note rc' = read_chunks_charge[of line "with_input y d", unfolded this prod.case]
    from c e show ?thesis unfolding rc rc' using Complete by (auto simp: dbind_Inr refused_dbind)
  next
    case ErrBufferFull
    with more(1)[of y] have "ReadSlice (with_input y d) = ((chunk, status), with_input y d1)" by simp
    note rc' = read_chunks_charge[of line "with_input y d", unfolded this prod.case]
    show ?thesis
    proof (cases "charge line chunk d1")
      case (Pair r d2)
      show ?thesis
      proof (cases r)
        case (Inl err)
        with Pair c(3)[OF e] show ?thesis unfolding rc rc' by (auto simp: refused_dbind)
      next
        case (Inr u)
        have "length (d_input d2) < length (d_input d)"
          using ReadSlice_full[of d chunk d1] s ErrBufferFull charge_input[OF Pair] by simp
        from less.hyps[OF this c(1)[OF e Pair[unfolded Inr]]] c(2)[OF e Pair[unfolded Inr], of y] Pair Inr ErrBufferFull
        show ?thesis unfolding rc rc' by simp
      qed
    qed
  next
    case (ReaderError err)
    with more(2)[of err y] obtain z status' d2 where
      s': "ReadSlice (with_input y d) = ((chunk @ z, status'), d2)" "d2\<lparr>d_input := []\<rparr> = d1" by blast
    have "err = EOF" using s ReaderError less.prems by (auto simp: ReadSlice_def Let_def split: if_splits)
    with charge_refused[OF _ s'(2), of line chunk z] read_chunks_charge[of line "with_input y d", unfolded s'(1) prod.case]
    show ?thesis unfolding rc using ReaderError by (auto simp: dbind_Inr refused_dbind)
  qed
qed

lemma streaming_read_chunks: "streaming (read_chunks line)"
  using read_chunks_more by (intro streamingI) blast+

lemma streaming_readLine: "streaming readLine"
  unfolding readLine_def Let_def by (intro streaming_dbind streaming_read_chunks streaming_if streaming_return)

lemma streaming_expectCRLF: "streaming expectCRLF"
  unfolding expectCRLF_def by (intro streaming_dbind streaming_ReadByte streaming_consume streaming_if streaming_return)

subsection \<open>The decoder\<close>

lemma streaming_lines: "streaming decodeSimpleString" "streaming decodeError" "streaming decodeInteger"
  unfolding decodeSimpleString_def decodeError_def decodeInteger_def
  by (intro streaming_dbind streaming_readLine streaming_option streaming_return)+

lemma streaming_bulk: "streaming decodeBulkString"
  unfolding decodeBulkString_def
  by (intro streaming_dbind streaming_readLine streaming_option streaming_if streaming_consume streaming_ReadFull streaming_expectCRLF streaming_return)

lemma streaming_elements: "streaming decode \<Longrightarrow> streaming (decode_elements decode n acc)"
proof (induction n arbitrary: acc)
  case (Suc n)
  then show ?case unfolding decode_elements_fun by (intro streaming_dbind) simp_all
qed (simp only: decode_elements_fun streaming_return)

lemma streaming_array: "streaming decode \<Longrightarrow> streaming (decodeArray decode)"
  unfolding decodeArray_def
  by (intro streaming_dbind streaming_readLine streaming_option streaming_return streaming_if streaming_elements)

lemma streaming_inline: "streaming (decodeInline U)"
proof (rule streamingI)
  fix d x d' y
  assume "d_err d = EOF" "decodeInline U d = (Inr x, d')"
  with streamingD(1,2)[OF streaming_readLine, of d] show "d_err d' = EOF \<and> decodeInline U (with_input y d) = (Inr x, with_input y d')"
    by (auto simp: decodeInline_def Let_def split: prod.splits sum.splits if_splits)
next
  fix d y
  assume d: "d_err d = EOF" "refused (decodeInline U d)"
  show "refused (decodeInline U (with_input y d))"
  proof (cases "refused (readLine d)")
    case True
    from streamingD(3)[OF streaming_readLine d(1) this, of y] show ?thesis
      by (auto simp: decodeInline_def refused_def split: prod.splits sum.splits)
  next
    case False
    with d(2) obtain l d' where "readLine d = (Inr l, d')" by (auto simp: decodeInline_def refused_def split: prod.splits sum.splits)
    with streamingD(2)[OF streaming_readLine d(1), of l d' y] d(2) show ?thesis
      by (auto simp: decodeInline_def Let_def split: if_splits)
  qed
qed

lemma streaming_unread:
  assumes "streaming f"
  shows "streaming (\<lambda>d. f (d\<lparr>d_input := c # d_input d, messageBytes := messageBytes d - 1\<rparr>))"
proof -
  have m: "(with_input y d)\<lparr>d_input := c # d_input (with_input y d), messageBytes := messageBytes (with_input y d) - 1\<rparr> =
      with_input y (d\<lparr>d_input := c # d_input d, messageBytes := messageBytes d - 1\<rparr>)" for y d
    by (simp add: with_input_def)
  let ?g = "\<lambda>d. d\<lparr>d_input := c # d_input d, messageBytes := messageBytes d - 1\<rparr>"
  show ?thesis
  proof (rule streamingI; unfold m)
    fix d x d' y
    assume "d_err d = EOF" "f (?g d) = (Inr x, d')"
    with streamingD(1,2)[OF assms, of "?g d"] show "d_err d' = EOF \<and> f (with_input y (?g d)) = (Inr x, with_input y d')" by simp
  next
    fix d y
    assume "d_err d = EOF" "refused (f (?g d))"
    with streamingD(3)[OF assms, of "?g d"] show "refused (f (with_input y (?g d)))" by simp
  qed
qed

lemma streaming_decode_nested: "streaming (decode_nested U n)"
proof (induction n)
  case 0
  show ?case by (simp add: streaming_def)
next
  case (Suc n)
  then show ?case
    unfolding decode_nested.simps
    by (intro streaming_dbind streaming_ReadByte streaming_consume streaming_if streaming_lines streaming_bulk streaming_array streaming_unread streaming_inline)
qed

lemma Decode_stream:
  assumes "d_err d = EOF"
  shows "Decode U d = (Inr v, d') \<Longrightarrow> Decode U (with_input y d) = (Inr v, with_input y d')"
    and "refused (Decode U d) \<Longrightarrow> refused (Decode U (with_input y d))"
proof -
  let ?d = "d\<lparr>messageBytes := 0\<rparr>"
  have m: "(with_input y d)\<lparr>messageBytes := 0\<rparr> = with_input y ?d" by (simp add: with_input_def)
  have e: "d_err ?d = EOF" using assms by simp
  show "Decode U d = (Inr v, d') \<Longrightarrow> Decode U (with_input y d) = (Inr v, with_input y d')"
    unfolding Decode_def m by (rule streamingD(2)[OF streaming_decode_nested e])
  show "refused (Decode U d) \<Longrightarrow> refused (Decode U (with_input y d))"
    unfolding Decode_def m by (rule streamingD(3)[OF streaming_decode_nested e])
qed

end
