(* ===== verification/Connection.thy ===== *)
theory Connection
  imports Poller Reply Requests RespStream "HOL-Library.Sublist"
begin

text \<open>
  A non-blocking client connection of the reactor, \<open>internal/reactor/connection.go\<close>: input is
  gathered in \<open>inBuf\<close> and decoded as far as it goes, replies are queued in \<open>outBuf\<close> and written as
  far as the socket takes them.
\<close>

subsection \<open>The connection\<close>

definition defaultMaxInboundBufferSize :: int where "defaultMaxInboundBufferSize = 2097152"
definition defaultMaxOutboundBufferSize :: int where "defaultMaxOutboundBufferSize = 4194304"
definition defaultIdleTimeout :: int where "defaultIdleTimeout = 30 * Second"
definition defaultWriteTimeout :: int where "defaultWriteTimeout = 10 * Second"

record Connection =
  cn_fd :: int
  inBuf :: string
  outBuf :: string
  lastActivity :: time
  writeStarted :: time
  maxInbound :: int
  maxOutbound :: int
  idleTimeout :: int
  writeTimeout :: int
  isClosed :: bool

definition NewConnectionWithLimits :: "int \<Rightarrow> int \<Rightarrow> int \<Rightarrow> int \<Rightarrow> int \<Rightarrow> kernel \<Rightarrow> Connection \<times> kernel" where
  "NewConnectionWithLimits fd maxIn maxOut idle write k =
     (let (now, k) = time_Now k
      in (\<lparr>cn_fd = fd, inBuf = [], outBuf = [], lastActivity = now, writeStarted = zero_time, maxInbound = maxIn,
           maxOutbound = maxOut, idleTimeout = idle, writeTimeout = write, isClosed = False\<rparr>, k))"

definition NewConnection :: "int \<Rightarrow> kernel \<Rightarrow> Connection \<times> kernel" where
  "NewConnection fd = NewConnectionWithLimits fd defaultMaxInboundBufferSize defaultMaxOutboundBufferSize
     defaultIdleTimeout defaultWriteTimeout"

definition conn_expired :: "time \<Rightarrow> Connection \<Rightarrow> bool" where
  "conn_expired now c \<longleftrightarrow>
     Sub now (lastActivity c) \<ge> idleTimeout c \<or> outBuf c \<noteq> [] \<and> Sub now (writeStarted c) \<ge> writeTimeout c"

datatype conn_error = ConnEOF | ConnError go_error

subsection \<open>Writing\<close>

definition conn_writeResponse :: "Value \<Rightarrow> Connection \<Rightarrow> kernel \<Rightarrow> conn_error option \<times> Connection \<times> kernel" where
  "conn_writeResponse val c k =
     (case encode_flush limitedBuffer_Write (\<lambda>t. ''response buffer limit exceeded: '' @ t) val
             \<lparr>lb_data = [], lb_limit = maxOutbound c - int (length (outBuf c))\<rparr> of
        Inl err \<Rightarrow> (Some (ConnError err), c, k)
      | Inr out \<Rightarrow>
          let (c, k) = (if outBuf c = [] then let (now, k) = time_Now k in (c\<lparr>writeStarted := now\<rparr>, k) else (c, k))
          in (None, c\<lparr>outBuf := outBuf c @ lb_data out\<rparr>, k))"

text \<open>What \<open>Flush\<close> does after one write, and whether it goes on.\<close>

definition after_write :: "nat \<Rightarrow> Connection \<Rightarrow> kernel \<Rightarrow> Connection \<times> kernel" where
  "after_write n c k =
     (if n > 0 then let (now, k) = time_Now k in (c\<lparr>lastActivity := now, outBuf := drop n (outBuf c)\<rparr>, k) else (c, k))"

lemma after_write_fields:
  assumes "after_write n c k = (c', k')"
  shows "cn_fd c' = cn_fd c" "writable fd k' = writable fd k"
  using assms time_Now_effect(4)[of k _ k' fd] by (auto simp: after_write_def Let_def split: if_splits prod.splits)

lemma flush_shrinks:
  assumes "sys_write (cn_fd c) p k = ((n, err), k1)" "after_write n c k1 = (c', k')" "err \<noteq> Some EAGAIN" "err \<noteq> Some EBADF"
  shows "length (writable (cn_fd c') k') < length (writable (cn_fd c) k)"
  using sys_write_effect(6)[OF assms(1)] after_write_fields[OF assms(2)] assms(3,4) by simp

function conn_Flush :: "Connection \<Rightarrow> kernel \<Rightarrow> conn_error option \<times> Connection \<times> kernel" where
  "conn_Flush c k =
     (if outBuf c = [] then
        let (err, k) = Modify (cn_fd c) DefaultEventMask k in (map_option ConnError err, c\<lparr>writeStarted := zero_time\<rparr>, k)
      else
        case sys_write (cn_fd c) (outBuf c) k of ((n, err), k) \<Rightarrow>
        case after_write n c k of (c, k) \<Rightarrow>
          (case err of
             Some e \<Rightarrow>
               if e = EAGAIN then
                 let (err, k) = Modify (cn_fd c) (DefaultEventMask OR EPOLLOUT) k in (map_option ConnError err, c, k)
               else if e = EINTR then conn_Flush c k
               else (Some (ConnError (''write error on fd '' @ format_int (cn_fd c) @ '': '' @ errno_text e)), c, k)
           | None \<Rightarrow>
               if n = 0 then (Some (ConnError (''write made no progress on fd '' @ format_int (cn_fd c))), c, k)
               else conn_Flush c k))"
  by pat_completeness auto
termination
  by (relation "measure (\<lambda>(c, k). length (writable (cn_fd c) k))") (auto dest: flush_shrinks[OF sym sym] split: prod.split)

declare conn_Flush.simps [simp del]

definition OnWrite :: "Connection \<Rightarrow> kernel \<Rightarrow> conn_error option \<times> Connection \<times> kernel" where
  "OnWrite c k = (if isClosed c then (Some (ConnError ''connection closed''), c, k) else conn_Flush c k)"

text \<open>
  The reply stream of a connection: what has been sent and what is queued. Flushing moves bytes
  from the second part to the first; unless it fails, the socket is watched for writability
  exactly if bytes are left.
\<close>

definition stream :: "Connection \<Rightarrow> kernel \<Rightarrow> string" where
  "stream c k = sent (cn_fd c) k @ outBuf c"

definition same_conn :: "Connection \<Rightarrow> Connection \<Rightarrow> bool" where
  "same_conn c c' \<longleftrightarrow> cn_fd c' = cn_fd c \<and> maxInbound c' = maxInbound c \<and> maxOutbound c' = maxOutbound c \<and>
     idleTimeout c' = idleTimeout c \<and> writeTimeout c' = writeTimeout c \<and> isClosed c' = isClosed c"

definition flushes :: "Connection \<Rightarrow> kernel \<Rightarrow> Connection \<Rightarrow> kernel \<Rightarrow> bool" where
  "flushes c k c' k' \<longleftrightarrow> same_conn c c' \<and> inBuf c' = inBuf c \<and> local_to (cn_fd c) k k' \<and>
     arriving (cn_fd c) k' = arriving (cn_fd c) k \<and> stream c' k' = stream c k \<and> (outBuf c = [] \<longrightarrow> outBuf c' = [])"

definition watched :: "Connection \<Rightarrow> kernel \<Rightarrow> bool" where
  "watched c k \<longleftrightarrow> k_interest k (cn_fd c) = Some (if outBuf c = [] then DefaultEventMask else DefaultEventMask OR EPOLLOUT)"

lemma same_conn_refl [simp]: "same_conn c c"
  by (simp add: same_conn_def)

lemma same_conn_trans: "same_conn c c1 \<Longrightarrow> same_conn c1 c' \<Longrightarrow> same_conn c c'"
  by (simp add: same_conn_def)

lemma flushes_trans: "flushes c k c1 k1 \<Longrightarrow> flushes c1 k1 c' k' \<Longrightarrow> flushes c k c' k'"
  using local_to_trans[of "cn_fd c" k k1 k'] by (auto simp: flushes_def same_conn_def)

lemma write_once:
  assumes "sys_write (cn_fd c) (outBuf c) k = ((n, err), k1)" "after_write n c k1 = (c', k')" "outBuf c \<noteq> []"
  shows "flushes c k c' k'"
proof -
  note w = sys_write_effect[OF assms(1)]
  show ?thesis
  proof (cases "n = 0")
    case True
    with assms(2,3) w show ?thesis by (simp add: after_write_def flushes_def stream_def)
  next
    case False
    obtain now k2 where t: "time_Now k1 = (now, k2)" by fastforce
    with assms(2) False have "c' = c\<lparr>lastActivity := now, outBuf := drop n (outBuf c)\<rparr>" "k' = k2" by (auto simp: after_write_def)
    with w time_Now_effect[OF t] local_to_trans[OF w(1)] assms(3) show ?thesis
      by (simp add: flushes_def stream_def same_conn_def)
  qed
qed

lemma Modify_flushes:
  assumes "Modify (cn_fd c) flags k = (r, k')"
  shows "flushes c k c k'"
  using Modify_effect[OF assms] by (simp add: flushes_def stream_def)

lemma Flush_effect:
  "conn_Flush c k = (r, c', k') \<Longrightarrow> flushes c k c' k' \<and> (r = None \<longrightarrow> watched c' k')"
proof (induction c k arbitrary: r c' k' rule: conn_Flush.induct)
  case (1 c k)
  show ?case
  proof (cases "outBuf c = []")
    case True
    obtain err k1 where m: "Modify (cn_fd c) DefaultEventMask k = (err, k1)" by fastforce
    with 1(3) True have "r = map_option ConnError err" "c' = c\<lparr>writeStarted := zero_time\<rparr>" "k' = k1"
      by (auto simp: conn_Flush.simps[of c k])
    with Modify_flushes[OF m] Modify_effect(4)[OF m] True show ?thesis
      by (auto simp: flushes_def same_conn_def stream_def watched_def)
  next
    case False
    obtain n err k1 where w: "sys_write (cn_fd c) (outBuf c) k = ((n, err), k1)" by (metis prod.exhaust)
    obtain c2 k2 where d: "after_write n c k1 = (c2, k2)" by fastforce
    note once = write_once[OF w d False]
    note run = 1(3)[unfolded conn_Flush.simps[of c k] if_not_P[OF False] w d prod.case]
    note IH = "1.IH"[OF False w[symmetric] refl d[symmetric]]
    consider (again) "err = Some EAGAIN" | (retry) "err = Some EINTR \<or> err = None \<and> n \<noteq> 0" "conn_Flush c2 k2 = (r, c', k')"
      | (fail) "r \<noteq> None" "c' = c2" "k' = k2"
      using run by (cases err) (auto split: if_splits)
    then show ?thesis
    proof cases
      case again
      obtain merr k3 where m: "Modify (cn_fd c2) (DefaultEventMask OR EPOLLOUT) k2 = (merr, k3)" by fastforce
      with run again have r: "r = map_option ConnError merr" "c' = c2" "k' = k3" by auto
      have "outBuf c2 \<noteq> []" using sys_write_effect(5)[OF w] again d False by (simp add: after_write_def)
      with flushes_trans[OF once Modify_flushes[OF m]] Modify_effect(4)[OF m] r show ?thesis by (auto simp: watched_def)
    next
      case retry
      then have "flushes c2 k2 c' k' \<and> (r = None \<longrightarrow> watched c' k')" using IH by (cases err) auto
      with flushes_trans[OF once] show ?thesis by blast
    next
      case fail
      with once show ?thesis by auto
    qed
  qed
qed


subsection \<open>Decoding and executing\<close>

text \<open>
  The body of \<open>processCommands\<close> from the decoder \<open>d\<close> on. Of the snapshot \<open>raw\<close> of \<open>inBuf\<close> the decoder
  has left \<open>d_input d\<close>, in its buffer or not yet in it.
\<close>

type_synonym 'w conn_result = "((conn_error option \<times> Connection \<times> kernel) \<times> 'w) option"

definition protocol_error :: "unicode \<Rightarrow> decode_error \<Rightarrow> Value" where
  "protocol_error U err = NewError (''ERR protocol error: '' @ decode_error_text U err)"

function process_loop ::
  "unicode \<Rightarrow> 'w exec \<Rightarrow> string \<Rightarrow> nat \<Rightarrow> Decoder \<Rightarrow> Connection \<Rightarrow> kernel \<Rightarrow> 'w \<Rightarrow> 'w conn_result"
where
  "process_loop U exec raw consumed d c k w =
     (if consumed < length raw then
        (case Decode U d of
           (Inl err, d) \<Rightarrow>
             if is_eof err then Some (conn_Flush (c\<lparr>inBuf := drop consumed (inBuf c)\<rparr>) k, w)
             else
               (case conn_writeResponse (protocol_error U err) c k of
                  (Some e, c, k) \<Rightarrow> Some ((Some e, c\<lparr>inBuf := drop consumed (inBuf c)\<rparr>, k), w)
                | (None, c, k) \<Rightarrow> Some (conn_Flush (c\<lparr>inBuf := []\<rparr>) k, w))
         | (Inr value, d) \<Rightarrow>
             let consumed = length raw - length (d_input d)
             in case reply_to U exec value w of
                  None \<Rightarrow> None
                | Some (response, w) \<Rightarrow>
                    (case conn_writeResponse response c k of
                       (Some e, c, k) \<Rightarrow> Some ((Some e, c\<lparr>inBuf := drop consumed (inBuf c)\<rparr>, k), w)
                     | (None, c, k) \<Rightarrow> process_loop U exec raw consumed d c k w))
      else Some (conn_Flush (c\<lparr>inBuf := drop consumed (inBuf c)\<rparr>) k, w))"
  by pat_completeness auto
termination
  by (relation "measure (\<lambda>(U, exec, raw, consumed, d, c, k, w). length (d_input d))") (auto dest: Decode_shrinks[OF sym])

declare process_loop.simps [simp del]

definition processCommands :: "unicode \<Rightarrow> 'w exec \<Rightarrow> Connection \<Rightarrow> kernel \<Rightarrow> 'w \<Rightarrow> 'w conn_result" where
  "processCommands U exec c k w =
     process_loop U exec (inBuf c) 0 (NewDecoderWithLimit (inBuf c) EOF 4096 (maxInbound c)) c k w"

text \<open>Replies are appended to the stream in order.\<close>

lemma writeResponse_effect:
  assumes "conn_writeResponse v c k = (r, c', k')"
  shows "same_conn c c'" "inBuf c' = inBuf c" "local_to (cn_fd c) k k'" "arriving (cn_fd c) k' = arriving (cn_fd c) k"
    "k_interest k' = k_interest k" "r \<noteq> None \<Longrightarrow> stream c' k' = stream c k"
    "typed v \<Longrightarrow> r = None \<Longrightarrow> stream c' k' = stream c k @ encoding v"
proof -
  let ?ft = "\<lambda>t. ''response buffer limit exceeded: '' @ t"
  let ?e = "encode_flush limitedBuffer_Write ?ft v \<lparr>lb_data = [], lb_limit = maxOutbound c - int (length (outBuf c))\<rparr>"
  note enc = encode_limitedBuffer[of v, where ft = ?ft and limit = "maxOutbound c - int (length (outBuf c))"]
  obtain now k1 where t: "time_Now k = (now, k1)" by fastforce
  note te = time_Now_effect[OF t]
  have "same_conn c c' \<and> inBuf c' = inBuf c \<and> local_to (cn_fd c) k k' \<and> arriving (cn_fd c) k' = arriving (cn_fd c) k \<and>
    k_interest k' = k_interest k \<and> (r \<noteq> None \<longrightarrow> stream c' k' = stream c k) \<and>
    (typed v \<longrightarrow> r = None \<longrightarrow> stream c' k' = stream c k @ encoding v)"
  proof (cases ?e)
    case (Inl err)
    with assms show ?thesis by (auto simp: conn_writeResponse_def)
  next
    case (Inr out)
    with enc have out: "typed v \<Longrightarrow> lb_data out = encoding v" by simp
    show ?thesis
    proof (cases "outBuf c = []")
      case True
      with assms Inr t have "r = None" "c' = c\<lparr>writeStarted := now, outBuf := lb_data out\<rparr>" "k' = k1" by (auto simp: conn_writeResponse_def)
      with te out True show ?thesis by (simp add: same_conn_def stream_def)
    next
      case False
      with assms Inr have "r = None" "c' = c\<lparr>outBuf := outBuf c @ lb_data out\<rparr>" "k' = k" by (auto simp: conn_writeResponse_def)
      with out show ?thesis by (simp add: same_conn_def stream_def)
    qed
  qed
  then show "same_conn c c'" "inBuf c' = inBuf c" "local_to (cn_fd c) k k'" "arriving (cn_fd c) k' = arriving (cn_fd c) k"
    "k_interest k' = k_interest k" "r \<noteq> None \<Longrightarrow> stream c' k' = stream c k"
    "typed v \<Longrightarrow> r = None \<Longrightarrow> stream c' k' = stream c k @ encoding v" by blast+
qed


abbreviation replies :: "Value list \<Rightarrow> string" where
  "replies rs \<equiv> concat (map encoding rs)"

text \<open>
  How processing the input \<open>x\<close> ends: all complete requests are answered and the rest is kept; or
  the rest is refused, reported and dropped; or a reply does not fit and the connection fails.
\<close>

definition unfinished :: "unicode \<Rightarrow> int \<Rightarrow> string \<Rightarrow> bool" where
  "unfinished U limit y \<longleftrightarrow> (\<exists>err. fst (Decode U (reader EOF limit y)) = Inl err \<and> is_eof err)"

definition ended ::
  "unicode \<Rightarrow> string \<Rightarrow> Value list \<Rightarrow> Connection \<Rightarrow> kernel \<Rightarrow> conn_error option \<Rightarrow> Connection \<Rightarrow> kernel \<Rightarrow> bool"
where
  "ended U y rs c k r c' k' \<longleftrightarrow>
     unfinished U (maxInbound c) y \<and> inBuf c' = y \<and> stream c' k' = stream c k @ replies rs \<or>
     refused (Decode U (reader EOF (maxInbound c) y)) \<and> inBuf c' = [] \<and>
       (\<exists>err. stream c' k' = stream c k @ replies (rs @ [protocol_error U err])) \<or>
     r \<noteq> None \<and> (stream c' k' = stream c k @ replies rs \<or> stream c' k' = stream c k @ replies (butlast rs))"

definition processed ::
  "unicode \<Rightarrow> 'w exec \<Rightarrow> string \<Rightarrow> Connection \<Rightarrow> kernel \<Rightarrow> 'w \<Rightarrow> conn_error option \<Rightarrow> Connection \<Rightarrow> kernel \<Rightarrow> 'w \<Rightarrow> bool"
where
  "processed U exec x c k w r c' k' w' \<longleftrightarrow> same_conn c c' \<and> local_to (cn_fd c) k k' \<and>
     arriving (cn_fd c) k' = arriving (cn_fd c) k \<and> length (inBuf c') \<le> length (inBuf c) \<and> (r = None \<longrightarrow> watched c' k') \<and>
     (\<exists>rs y. serves U exec EOF (maxInbound c) x w rs y w' \<and> ended U y rs c k r c' k')"

lemma unfinished_Nil [simp]: "unfinished U limit []"
  by (simp add: unfinished_def Decode_def maxRESPDepth_def eval_nat_numeral ReadByte_def NewDecoderWithLimit_def)

lemma processed_Flush:
  assumes "conn_Flush (c\<lparr>inBuf := y\<rparr>) k = (r, c', k')" "unfinished U (maxInbound c) y" "length y \<le> length (inBuf c)"
  shows "processed U exec y c k w r c' k' w"
proof -
  have f: "flushes (c\<lparr>inBuf := y\<rparr>) k c' k'" "r = None \<longrightarrow> watched c' k'" using Flush_effect[OF assms(1)] by simp_all
  then have "ended U y [] c k r c' k'" using assms(2) by (simp add: ended_def flushes_def stream_def)
  with f assms(3) show ?thesis
    by (auto simp: processed_def flushes_def same_conn_def intro!: exI[of _ "[]"] exI[of _ y] serves.none)
qed

lemma processed_refused:
  assumes "Decode U (reader EOF (maxInbound c) y) = (Inl err, d)" "\<not> is_eof err" "length y \<le> length (inBuf c)"
    "(case conn_writeResponse (protocol_error U err) c k of
        (Some e, c, k) \<Rightarrow> (Some e, c\<lparr>inBuf := drop n (inBuf c)\<rparr>, k) | (None, c, k) \<Rightarrow> conn_Flush (c\<lparr>inBuf := []\<rparr>) k) = (r, c', k')"
  shows "processed U exec y c k w r c' k' w"
proof -
  obtain q c1 k1 where w: "conn_writeResponse (protocol_error U err) c k = (q, c1, k1)" by (metis prod_cases3)
  note we = writeResponse_effect[OF w]
  have ref: "refused (Decode U (reader EOF (maxInbound c) y))" using assms(1,2) by simp
  have ty: "typed (protocol_error U err)" by (simp add: protocol_error_def)
  show ?thesis
  proof (cases q)
    case (Some e)
    with assms(4) w have e: "r = Some e" "c' = c1\<lparr>inBuf := drop n (inBuf c1)\<rparr>" "k' = k1" by auto
    then have "ended U y [] c k r c' k'" using we(6) Some by (simp add: ended_def stream_def)
    with e we show ?thesis
      by (auto simp: processed_def same_conn_def intro!: exI[of _ "[]"] exI[of _ y] serves.none)
  next
    case None
    with assms(4) w have fl: "conn_Flush (c1\<lparr>inBuf := []\<rparr>) k1 = (r, c', k')" by auto
    have f: "flushes (c1\<lparr>inBuf := []\<rparr>) k1 c' k'" "r = None \<longrightarrow> watched c' k'" using Flush_effect[OF fl] by simp_all
    then have "stream c' k' = stream c k @ encoding (protocol_error U err)" "inBuf c' = []"
      using we(7)[OF ty None] by (simp_all add: flushes_def stream_def)
    then have "ended U y [] c k r c' k'" using ref by (auto simp: ended_def)
    moreover have "same_conn c c'" "local_to (cn_fd c) k k'" "arriving (cn_fd c) k' = arriving (cn_fd c) k"
      using f(1) we(1-4) local_to_trans[of "cn_fd c" k k1 k'] by (auto simp: flushes_def same_conn_def)
    ultimately show ?thesis using f(2) \<open>inBuf c' = []\<close>
      by (auto simp: processed_def intro!: exI[of _ "[]"] exI[of _ y] serves.none)
  qed
qed

lemma processed_full:
  assumes "Decode U (reader EOF (maxInbound c) x) = (Inr v, d)" "reply_to U exec v w = Some (reply, w1)"
    "conn_writeResponse reply c k = (Some e, c1, k1)"
  shows "processed U exec x c k w (Some e) (c1\<lparr>inBuf := drop n (inBuf c1)\<rparr>) k1 w1"
proof -
  note we = writeResponse_effect[OF assms(3)]
  have "ended U (d_input d) [reply] c k (Some e) (c1\<lparr>inBuf := drop n (inBuf c1)\<rparr>) k1"
    using we(6) by (simp add: ended_def stream_def)
  with serves.request[OF assms(1,2) serves.none] we(1-4) show ?thesis
    by (auto simp: processed_def same_conn_def)
qed

lemma processed_request:
  assumes "Decode U (reader EOF (maxInbound c) x) = (Inr v, d)" "reply_to U exec v w = Some (reply, w1)" "typed reply"
    "conn_writeResponse reply c k = (None, c1, k1)" "processed U exec (d_input d) c1 k1 w1 r c' k' w'"
  shows "processed U exec x c k w r c' k' w'"
proof -
  note we = writeResponse_effect[OF assms(4)]
  obtain rs y where p: "serves U exec EOF (maxInbound c) (d_input d) w1 rs y w'" "ended U y rs c1 k1 r c' k'"
    using assms(5) we(1) by (auto simp: processed_def same_conn_def)
  have "ended U y (reply # rs) c k r c' k'"
    using p(2) we(1) we(7)[OF assms(3) refl] by (auto simp: ended_def same_conn_def butlast.simps(2) split: if_splits)
  moreover have "serves U exec EOF (maxInbound c) x w (reply # rs) y w'" using serves.request[OF assms(1,2) p(1)] .
  ultimately show ?thesis
    using assms(5) we(1-4) same_conn_trans[OF we(1)] local_to_trans[of "cn_fd c" k k1 k']
    by (auto simp: processed_def same_conn_def)
qed


context command_executor
begin

lemma process_loop_spec:
  assumes "inv w" "reads EOF (maxInbound c) d" "d_input d = drop consumed raw" "inBuf c = raw"
  shows "\<exists>r c' k' w'. process_loop U exec raw consumed d c k w = Some ((r, c', k'), w') \<and> inv w' \<and>
    processed U exec (d_input d) c k w r c' k' w'"
  using assms
proof (induction "length (d_input d)" arbitrary: consumed d c k w rule: less_induct)
  case less
  have left: "drop consumed (inBuf c) = d_input d" using less.prems(3,4) by simp
  have len: "length (d_input d) \<le> length (inBuf c)" using less.prems(3,4) by simp
  note loop = process_loop.simps[of U exec raw consumed d c k w]
  obtain q d1 where dec: "Decode U d = (q, d1)" by fastforce
  note dec' = dec[unfolded reads_Decode[OF less.prems(2)]]
  consider (all) "\<not> consumed < length raw" | (eof) err where "consumed < length raw" "q = Inl err" "is_eof err"
    | (bad) err where "consumed < length raw" "q = Inl err" "\<not> is_eof err" | (request) v where "consumed < length raw" "q = Inr v"
    by (cases q) auto
  then show ?case
  proof cases
    case all
    obtain r c' k' where f: "conn_Flush (c\<lparr>inBuf := d_input d\<rparr>) k = (r, c', k')" by (metis prod_cases3)
    have "d_input d = []" using all less.prems(3) by simp
    then have "processed U exec (d_input d) c k w r c' k' w" by (intro processed_Flush[OF f]) simp_all
    with f all loop less.prems(1) show ?thesis by (auto simp: left)
  next
    case eof
    obtain r c' k' where f: "conn_Flush (c\<lparr>inBuf := d_input d\<rparr>) k = (r, c', k')" by (metis prod_cases3)
    have "processed U exec (d_input d) c k w r c' k' w"
      by (rule processed_Flush[OF f]) (use eof dec' len in \<open>auto simp: unfinished_def\<close>)
    with f eof loop dec less.prems(1) show ?thesis by (auto simp: left)
  next
    case bad
    let ?a = "case conn_writeResponse (protocol_error U err) c k of
        (Some e, c, k) \<Rightarrow> (Some e, c\<lparr>inBuf := drop consumed (inBuf c)\<rparr>, k) | (None, c, k) \<Rightarrow> conn_Flush (c\<lparr>inBuf := []\<rparr>) k"
    obtain q1 c1 k1 where w: "conn_writeResponse (protocol_error U err) c k = (q1, c1, k1)" by (metis prod_cases3)
    obtain r c' k' where a: "?a = (r, c', k')" by (rule prod_cases3)
    have "processed U exec (d_input d) c k w r c' k' w" by (rule processed_refused[OF dec'[unfolded bad] bad(3) len a])
    moreover have "process_loop U exec raw consumed d c k w = Some (?a, w)"
      using bad loop dec w by (cases q1) simp_all
    ultimately show ?thesis using a less.prems(1) by auto
  next
    case request
    obtain reply w1 where x: "reply_to U exec v w = Some (reply, w1)" "inv w1" "typed reply"
      using reply_returns[OF less.prems(1)] by metis
    obtain q1 c1 k1 where w: "conn_writeResponse reply c k = (q1, c1, k1)" by (metis prod_cases3)
    note we = writeResponse_effect[OF w]
    let ?n = "length raw - length (d_input d1)"
    obtain used where "d_input d = used @ d_input d1" using Decode_suffix[OF dec[unfolded request]] by blast
    then have raw: "raw = (take consumed raw @ used) @ d_input d1" using less.prems(3) append_take_drop_id[of consumed raw] by simp
    then have d1: "d_input d1 = drop ?n raw" by (metis append_eq_conv_conj length_append diff_add_inverse2)
    show ?thesis
    proof (cases q1)
      case (Some e)
      let ?c = "c1\<lparr>inBuf := drop ?n (inBuf c1)\<rparr>"
      have "process_loop U exec raw consumed d c k w = Some ((Some e, ?c, k1), w1)"
        using request loop dec x(1) w Some by simp
      moreover have "processed U exec (d_input d) c k w (Some e) ?c k1 w1"
        by (rule processed_full[OF dec'[unfolded request] x(1) w[unfolded Some]])
      ultimately show ?thesis using x(2) by blast
    next
      case None
      have "process_loop U exec raw consumed d c k w = process_loop U exec raw ?n d1 c1 k1 w1"
        using request loop dec x(1) w None by simp
      moreover have "\<exists>r c' k' w'. process_loop U exec raw ?n d1 c1 k1 w1 = Some ((r, c', k'), w') \<and> inv w' \<and>
          processed U exec (d_input d1) c1 k1 w1 r c' k' w'"
      proof (rule less.hyps[OF Decode_shrinks[OF dec[unfolded request]] x(2) _ d1])
        show "reads EOF (maxInbound c1) d1" using Decode_reads[OF dec[unfolded request] less.prems(2)] we(1) by (simp add: same_conn_def)
        show "inBuf c1 = raw" using we(2) less.prems(4) by simp
      qed
      ultimately show ?thesis using processed_request[OF dec'[unfolded request] x(1,3)] w None by metis
    qed
  qed
qed

end


subsection \<open>Reading\<close>

lemma process_loop_frame:
  "process_loop U exec raw n d c k w = Some ((r, c', k'), w') \<Longrightarrow>
    same_conn c c' \<and> local_to (cn_fd c) k k' \<and> arriving (cn_fd c) k' = arriving (cn_fd c) k"
proof (induction U exec raw n d c k w arbitrary: r c' k' w' rule: process_loop.induct)
  case (1 U exec raw n d c k w)
  let ?ok = "\<lambda>c k c' k'. same_conn c c' \<and> local_to (cn_fd c) k k' \<and> arriving (cn_fd c) k' = arriving (cn_fd c) k"
  have trans: "?ok c k c2 k2" if "?ok c k c1 k1" "?ok c1 k1 c2 k2" for c1 k1 c2 k2
    using that same_conn_trans local_to_trans by (metis same_conn_def)
  have flush: "?ok c k c' k'" if "conn_Flush (c\<lparr>inBuf := y\<rparr>) k = (r, c', k')" for y r c' k' and c :: Connection and k
    using Flush_effect[OF that] by (auto simp: flushes_def same_conn_def)
  have queued: "?ok c k c1 k1" if "conn_writeResponse v c k = (e, c1, k1)" for v e c1 k1
    using writeResponse_effect[OF that] by auto
  obtain q d1 where dec: "Decode U d = (q, d1)" by fastforce
  note run = 1(2)[unfolded process_loop.simps[of U exec raw n d c k w] dec prod.case]
  show ?case
  proof (cases "n < length raw")
    case False
    with run have "conn_Flush (c\<lparr>inBuf := drop n (inBuf c)\<rparr>) k = (r, c', k')" by simp
    then show ?thesis by (rule flush)
  next
    case True
    show ?thesis
    proof (cases q)
      case (Inl err)
      obtain e c1 k1 where w: "conn_writeResponse (protocol_error U err) c k = (e, c1, k1)" by (metis prod_cases3)
      show ?thesis
      proof (cases "is_eof err")
        case True
        with run Inl \<open>n < length raw\<close> have "conn_Flush (c\<lparr>inBuf := drop n (inBuf c)\<rparr>) k = (r, c', k')" by simp
        then show ?thesis by (rule flush)
      next
        case False
        note run' = run[unfolded Inl sum.case if_P[OF \<open>n < length raw\<close>] if_not_P[OF False] w prod.case]
        show ?thesis
        proof (cases e)
          case None
          with run' have "conn_Flush (c1\<lparr>inBuf := []\<rparr>) k1 = (r, c', k')" by simp
          from trans[OF queued[OF w] flush[OF this]] show ?thesis .
        next
          case (Some err)
          with run' queued[OF w] show ?thesis by (auto simp: same_conn_def)
        qed
      qed
    next
      case (Inr v)
      obtain reply w1 where x: "reply_to U exec v w = Some (reply, w1)" using run True Inr by (cases "reply_to U exec v w") (auto simp: Let_def)
      obtain e c1 k1 where w: "conn_writeResponse reply c k = (e, c1, k1)" by (metis prod_cases3)
      show ?thesis
      proof (cases e)
        case (Some err)
        with run True Inr x w have "c' = c1\<lparr>inBuf := drop (length raw - length (d_input d1)) (inBuf c1)\<rparr>" "k' = k1" by (simp_all add: Let_def)
        with queued[OF w] show ?thesis by (simp add: same_conn_def)
      next
        case None
        with run True Inr x w have "process_loop U exec raw (length raw - length (d_input d1)) d1 c1 k1 w1 = Some ((r, c', k'), w')"
          by simp
        from trans[OF queued[OF w] "1.IH"[OF True dec[symmetric] Inr refl x refl w[symmetric] None refl this]] show ?thesis .
      qed
    qed
  qed
qed

text \<open>What \<open>OnRead\<close> does with data it has read.\<close>

definition receive :: "unicode \<Rightarrow> 'w exec \<Rightarrow> string \<Rightarrow> Connection \<Rightarrow> kernel \<Rightarrow> 'w \<Rightarrow> 'w conn_result" where
  "receive U exec data c k w =
     (if data = [] then Some ((None, c, k), w)
      else if int (length data) > maxInbound c - int (length (inBuf c))
      then Some ((Some (ConnError (''input buffer limit exceeded on fd '' @ format_int (cn_fd c))), c, k), w)
      else let (now, k) = time_Now k
           in processCommands U exec (c\<lparr>inBuf := inBuf c @ data, lastActivity := now\<rparr>) k w)"

lemma receive_frame:
  assumes "receive U exec data c k w = Some ((r, c', k'), w')"
  shows "same_conn c c' \<and> local_to (cn_fd c) k k' \<and> arriving (cn_fd c) k' = arriving (cn_fd c) k"
proof -
  obtain now k1 where t: "time_Now k = (now, k1)" by fastforce
  let ?c = "c\<lparr>inBuf := inBuf c @ data, lastActivity := now\<rparr>"
  consider "c' = c" "k' = k" | "processCommands U exec ?c k1 w = Some ((r, c', k'), w')"
    using assms t by (auto simp: receive_def split: if_splits)
  then show ?thesis
  proof cases
    case 2
    from process_loop_frame[OF this[unfolded processCommands_def]] time_Now_effect[OF t] show ?thesis
      using local_to_trans[of "cn_fd c" k k1 k'] by (auto simp: same_conn_def)
  qed simp
qed

function read_loop :: "unicode \<Rightarrow> 'w exec \<Rightarrow> Connection \<Rightarrow> kernel \<Rightarrow> 'w \<Rightarrow> 'w conn_result" where
  "read_loop U exec c k w =
     (case sys_read (cn_fd c) k of ((data, err), k) \<Rightarrow>
        case receive U exec data c k w of
          None \<Rightarrow> None
        | Some ((Some e, c, k), w) \<Rightarrow> Some ((Some e, c, k), w)
        | Some ((None, c, k), w) \<Rightarrow>
            (case err of
               Some e \<Rightarrow>
                 if e = EAGAIN then processCommands U exec c k w
                 else if e = EINTR then read_loop U exec c k w
                 else Some ((Some (ConnError (''read error on fd '' @ format_int (cn_fd c) @ '': '' @ errno_text e)), c, k), w)
             | None \<Rightarrow> if data = [] then Some ((Some ConnEOF, c, k), w) else read_loop U exec c k w))"
  by pat_completeness auto

lemma read_shrinks:
  assumes "sys_read (cn_fd c) k = ((data, err), k1)" "receive U exec data c k1 w = Some ((r, c', k'), w')"
    "err \<noteq> Some EAGAIN" "err \<noteq> Some EBADF"
  shows "length (arriving (cn_fd c') k') < length (arriving (cn_fd c) k)"
  using sys_read_effect(5)[OF assms(1)] receive_frame[OF assms(2)] assms(3,4) by (simp add: same_conn_def)

termination read_loop
  by (relation "measure (\<lambda>(U, exec, c, k, w). length (arriving (cn_fd c) k))") (auto dest: read_shrinks[OF sym])

declare read_loop.simps [simp del]

definition OnRead :: "unicode \<Rightarrow> 'w exec \<Rightarrow> Connection \<Rightarrow> kernel \<Rightarrow> 'w \<Rightarrow> 'w conn_result" where
  "OnRead U exec c k w =
     (if isClosed c then Some ((Some (ConnError ''connection closed''), c, k), w)
      else let (now, k) = time_Now k
           in if Sub now (lastActivity c) \<ge> idleTimeout c then Some ((Some (ConnError ''idle timeout''), c, k), w)
              else read_loop U exec c k w)"

subsection \<open>Closing\<close>

definition conn_Close :: "Connection \<Rightarrow> kernel \<Rightarrow> go_error option \<times> Connection \<times> kernel" where
  "conn_Close c k =
     (if isClosed c then (None, c, k)
      else let (_, k) = Unregister (cn_fd c) k; (err, k) = sys_close (cn_fd c) k
           in (case err of
                 Some e \<Rightarrow> if e \<noteq> EBADF then Some (''failed to close fd '' @ format_int (cn_fd c) @ '': '' @ errno_text e) else None
               | None \<Rightarrow> None, c\<lparr>isClosed := True\<rparr>, k))"


end
