(* ===== verification/ConnectionCorrect.thy ===== *)
theory ConnectionCorrect
  imports Connection
begin

text \<open>
  A reactor connection answers the requests in the bytes it has received, however these are
  cut into pieces on the way.
\<close>

subsection \<open>Input in pieces\<close>

lemma reader_more: "reader EOF limit (x @ z) = with_input z (reader EOF limit x)"
  by (simp add: with_input_def NewDecoderWithLimit_def)

lemma serves_more:
  "serves U exec EOF limit x w rs y w' \<Longrightarrow> serves U exec EOF limit (x @ z) w rs (y @ z) w'"
proof (induction rule: serves.induct)
  case (none x w)
  show ?case by (rule serves.none)
next
  case (request x v d w r w1 rs y w')
  have "Decode U (reader EOF limit (x @ z)) = (Inr v, with_input z d)"
    unfolding reader_more by (rule Decode_stream(1)[OF _ request.hyps(1)]) (simp add: NewDecoderWithLimit_def)
  moreover have "d_input (with_input z d) = d_input d @ z" by simp
  ultimately show ?case using serves.request[OF _ request.hyps(2)] request.IH by metis
qed

lemma refused_more: "refused (Decode U (reader EOF limit y)) \<Longrightarrow> refused (Decode U (reader EOF limit (y @ z)))"
  unfolding reader_more by (rule Decode_stream(2)) (simp_all add: NewDecoderWithLimit_def)

text \<open>An input in which, as far as it goes, every request is well-formed.\<close>

definition acceptable :: "unicode \<Rightarrow> 'w exec \<Rightarrow> int \<Rightarrow> string \<Rightarrow> 'w \<Rightarrow> bool" where
  "acceptable U exec limit x w \<longleftrightarrow>
     (\<forall>rs y w'. serves U exec EOF limit x w rs y w' \<longrightarrow> \<not> refused (Decode U (reader EOF limit y)))"

lemma acceptable_rest:
  assumes "serves U exec EOF limit x w rs y w'" "acceptable U exec limit (x @ z) w"
  shows "acceptable U exec limit (y @ z) w'"
  using assms(2) serves_trans[OF serves_more[OF assms(1), of z]] unfolding acceptable_def by blast

lemma acceptable_part:
  assumes "serves U exec EOF limit x w rs y w'" "acceptable U exec limit (x @ z) w"
  shows "\<not> refused (Decode U (reader EOF limit y))"
  using assms(2) serves_more[OF assms(1), of z] refused_more[where y = y and z = z] unfolding acceptable_def by blast

text \<open>What holds of a connection between two events, whatever the peer sends.\<close>

definition conn_inv :: "Connection \<Rightarrow> kernel \<Rightarrow> bool" where
  "conn_inv c k \<longleftrightarrow> \<not> isClosed c \<and> int (length (inBuf c)) \<le> max 0 (maxInbound c) \<and> watched c k"

text \<open>All requests in \<open>x\<close> have been answered, and what is left is kept.\<close>

definition answered ::
  "unicode \<Rightarrow> 'w exec \<Rightarrow> string \<Rightarrow> Connection \<Rightarrow> kernel \<Rightarrow> 'w \<Rightarrow> Connection \<Rightarrow> kernel \<Rightarrow> 'w \<Rightarrow> bool"
where
  "answered U exec x c k w c' k' w' \<longleftrightarrow>
     (\<exists>rs. serves U exec EOF (maxInbound c) x w rs (inBuf c') w' \<and> unfinished U (maxInbound c) (inBuf c') \<and>
       stream c' k' = stream c k @ replies rs)"

lemma processed_answered:
  assumes "processed U exec x c k w None c' k' w'" "acceptable U exec (maxInbound c) (x @ z) w"
  shows "answered U exec x c k w c' k' w'"
proof -
  obtain rs y where s: "serves U exec EOF (maxInbound c) x w rs y w'" "ended U y rs c k None c' k'"
    using assms(1) by (auto simp: processed_def)
  with acceptable_part[OF s(1) assms(2)] show ?thesis by (auto simp: ended_def answered_def)
qed

lemma answered_trans:
  assumes "answered U exec x c k w c1 k1 w1" "answered U exec (inBuf c1 @ z) c1 k1 w1 c' k' w'" "same_conn c c1"
  shows "answered U exec (x @ z) c k w c' k' w'"
proof -
  obtain rs where rs: "serves U exec EOF (maxInbound c) x w rs (inBuf c1) w1" "stream c1 k1 = stream c k @ replies rs"
    using assms(1) by (auto simp: answered_def)
  obtain rs' where rs': "serves U exec EOF (maxInbound c) (inBuf c1 @ z) w1 rs' (inBuf c') w'"
    "unfinished U (maxInbound c) (inBuf c')" "stream c' k' = stream c1 k1 @ replies rs'"
    using assms(2,3) by (auto simp: answered_def same_conn_def)
  from serves_trans[OF serves_more[OF rs(1), of z] rs'(1)] rs(2) rs'(2,3) show ?thesis
    by (auto simp: answered_def)
qed

text \<open>One way through \<open>OnRead\<close>: what was taken from the socket, and what has become of it.\<close>

definition arrived :: "(errno + string) list \<Rightarrow> string" where
  "arrived rs = concat (map (\<lambda>r. case r of Inl _ \<Rightarrow> [] | Inr x \<Rightarrow> x) rs)"

lemma arrived_simps [simp]: "arrived [] = []" "arrived (Inl e # rs) = arrived rs" "arrived (Inr x # rs) = x @ arrived rs"
  by (simp_all add: arrived_def)

definition read_result ::
  "unicode \<Rightarrow> 'w exec \<Rightarrow> Connection \<Rightarrow> kernel \<Rightarrow> 'w \<Rightarrow> conn_error option \<Rightarrow> Connection \<Rightarrow> kernel \<Rightarrow> 'w \<Rightarrow>
    (errno + string) list \<Rightarrow> bool"
where
  "read_result U exec c k w r c' k' w' used \<longleftrightarrow> same_conn c c' \<and> local_to (cn_fd c) k k' \<and>
     arriving (cn_fd c) k = used @ arriving (cn_fd c) k' \<and>
     (int (length (inBuf c)) \<le> max 0 (maxInbound c) \<longrightarrow> int (length (inBuf c')) \<le> max 0 (maxInbound c)) \<and>
     (r = None \<longrightarrow> watched c' k' \<and> (arriving (cn_fd c) k' = [] \<or> used \<noteq> [] \<and> last used = Inl EAGAIN) \<and>
       (acceptable U exec (maxInbound c) (inBuf c @ arrived used) w \<longrightarrow> answered U exec (inBuf c @ arrived used) c k w c' k' w'))"

lemma read_result_last:
  assumes "processed U exec (inBuf c) c k1 w r c' k' w'" "local_to (cn_fd c) k k1" "sent (cn_fd c) k1 = sent (cn_fd c) k"
    "arriving (cn_fd c) k = used @ arriving (cn_fd c) k1" "arrived used = []"
    "used = [] \<and> arriving (cn_fd c) k1 = [] \<or> used \<noteq> [] \<and> last used = Inl EAGAIN"
  shows "read_result U exec c k w r c' k' w' used"
proof -
  have "stream c k1 = stream c k" using assms(3) by (simp add: stream_def)
  moreover have "local_to (cn_fd c) k k'" using assms(1) local_to_trans[OF assms(2)] by (simp add: processed_def)
  ultimately show ?thesis
    using assms(1,4-6) processed_answered[of U exec "inBuf c" c k1 w c' k' w' "[]"]
    by (auto simp: read_result_def processed_def answered_def)
qed

lemma read_result_stop:
  assumes "same_conn c c'" "local_to (cn_fd c) k k'" "arriving (cn_fd c) k = u # arriving (cn_fd c) k'"
    "int (length (inBuf c)) \<le> max 0 (maxInbound c) \<longrightarrow> int (length (inBuf c')) \<le> max 0 (maxInbound c)"
  shows "read_result U exec c k w (Some e) c' k' w' [u]"
  using assms by (simp add: read_result_def)

lemma read_result_retry:
  assumes "read_result U exec c k1 w r c' k' w' used" "local_to (cn_fd c) k k1" "sent (cn_fd c) k1 = sent (cn_fd c) k"
    "arriving (cn_fd c) k = Inl e # arriving (cn_fd c) k1"
  shows "read_result U exec c k w r c' k' w' (Inl e # used)"
proof -
  have "stream c k1 = stream c k" using assms(3) by (simp add: stream_def)
  with assms(1,4) local_to_trans[OF assms(2)] show ?thesis by (auto simp: read_result_def answered_def)
qed

lemma read_result_next:
  assumes "read_result U exec c1 k1 w1 r c' k' w' used" "same_conn c c1" "local_to (cn_fd c) k k1"
    "arriving (cn_fd c) k = Inr data # arriving (cn_fd c) k1"
    "int (length (inBuf c)) \<le> max 0 (maxInbound c) \<longrightarrow> int (length (inBuf c1)) \<le> max 0 (maxInbound c)"
    "acceptable U exec (maxInbound c) (inBuf c @ data @ arrived used) w \<longrightarrow> answered U exec (inBuf c @ data) c k w c1 k1 w1"
  shows "read_result U exec c k w r c' k' w' (Inr data # used)"
proof -
  have eq: "cn_fd c1 = cn_fd c" "maxInbound c1 = maxInbound c" using assms(2) by (simp_all add: same_conn_def)
  have "answered U exec (inBuf c @ data @ arrived used) c k w c' k' w'"
    if a: "acceptable U exec (maxInbound c) (inBuf c @ data @ arrived used) w" and n: "r = None"
  proof -
    have ans: "answered U exec (inBuf c @ data) c k w c1 k1 w1" using assms(6) a by blast
    then obtain rs where "serves U exec EOF (maxInbound c) (inBuf c @ data) w rs (inBuf c1) w1" by (auto simp: answered_def)
    from acceptable_rest[OF this, of "arrived used"] a have "acceptable U exec (maxInbound c1) (inBuf c1 @ arrived used) w1"
      by (simp add: eq)
    then have "answered U exec (inBuf c1 @ arrived used) c1 k1 w1 c' k' w'" using assms(1) n by (simp add: read_result_def)
    from answered_trans[OF ans this assms(2)] show ?thesis by simp
  qed
  then show ?thesis
    using assms(1,4,5) eq same_conn_trans[OF assms(2)] local_to_trans[OF assms(3)] by (auto simp: read_result_def)
qed

context command_executor
begin

lemma processCommands_spec:
  assumes "inv w"
  obtains r c' k' w' where "processCommands U exec c k w = Some ((r, c', k'), w')" "inv w'" "processed U exec (inBuf c) c k w r c' k' w'"
proof -
  have "reads EOF (maxInbound c) (reader EOF (maxInbound c) (inBuf c))" by simp
  from process_loop_spec[OF assms this, of 0 "inBuf c", where U = U and k = k] that show thesis
    unfolding processCommands_def by auto
qed

lemma receive_spec:
  assumes "inv w"
  shows "\<exists>r c' k' w'. receive U exec data c k w = Some ((r, c', k'), w') \<and> inv w' \<and>
    (int (length (inBuf c)) \<le> max 0 (maxInbound c) \<longrightarrow> int (length (inBuf c')) \<le> max 0 (maxInbound c)) \<and>
    (data = [] \<longrightarrow> r = None \<and> c' = c \<and> k' = k \<and> w' = w) \<and>
    (data \<noteq> [] \<and> r = None \<and> acceptable U exec (maxInbound c) (inBuf c @ data @ z) w \<longrightarrow>
       answered U exec (inBuf c @ data) c k w c' k' w')"
proof -
  obtain now k1 where t: "time_Now k = (now, k1)" by fastforce
  let ?c = "c\<lparr>inBuf := inBuf c @ data, lastActivity := now\<rparr>"
  obtain r c' k' w' where p: "processCommands U exec ?c k1 w = Some ((r, c', k'), w')" "inv w'"
    "processed U exec (inBuf ?c) ?c k1 w r c' k' w'" by (rule processCommands_spec[OF assms])
  consider (none) "data = []" | (full) "data \<noteq> []" "int (length data) > maxInbound c - int (length (inBuf c))"
    | (room) "data \<noteq> []" "\<not> int (length data) > maxInbound c - int (length (inBuf c))" by blast
  then show ?thesis
  proof cases
    case none
    with assms show ?thesis by (simp add: receive_def)
  next
    case full
    with assms show ?thesis by (simp add: receive_def)
  next
    case room
    then have "receive U exec data c k w = Some ((r, c', k'), w')" using p(1) t by (simp add: receive_def)
    moreover have "length (inBuf c') \<le> length (inBuf c) + length data" using p(3) by (simp add: processed_def)
    moreover have "answered U exec (inBuf c @ data) c k w c' k' w'"
      if "r = None" "acceptable U exec (maxInbound c) (inBuf c @ data @ z) w"
    proof -
      have "stream ?c k1 = stream c k" using time_Now_effect(2)[OF t] by (simp add: stream_def)
      with processed_answered[of U exec "inBuf c @ data" ?c k1 w c' k' w' z] p(3) that show ?thesis by (simp add: answered_def)
    qed
    ultimately show ?thesis using p(2) room by auto
  qed
qed

lemma read_loop_spec:
  assumes "inv w" "k_sockets k (cn_fd c) \<noteq> None"
  shows "\<exists>r c' k' w' used. read_loop U exec c k w = Some ((r, c', k'), w') \<and> inv w' \<and> read_result U exec c k w r c' k' w' used"
  using assms
proof (induction "length (arriving (cn_fd c) k)" arbitrary: c k w rule: less_induct)
  case less
  obtain data err k1 where rd: "sys_read (cn_fd c) k = ((data, err), k1)" by (metis prod.exhaust)
  note re = sys_read_effect[OF rd]
  obtain r c1 k2 w1 where rc: "receive U exec data c k1 w = Some ((r, c1, k2), w1)" "inv w1"
    "int (length (inBuf c)) \<le> max 0 (maxInbound c) \<longrightarrow> int (length (inBuf c1)) \<le> max 0 (maxInbound c)"
    "data = [] \<longrightarrow> r = None \<and> c1 = c \<and> k2 = k1 \<and> w1 = w"
    using receive_spec[OF less.prems(1), where U = U and c = c and k = k1 and data = data] by blast
  note fr = receive_frame[OF rc(1)]
  have l2: "local_to (cn_fd c) k k2" using fr local_to_trans[OF re(1)] by blast
  note loop = read_loop.simps[of U exec c k w, unfolded rd prod.case rc(1) option.case]
  have last: ?case if e: "err = Some EAGAIN" and d: "data = []"
    and u: "arriving (cn_fd c) k = used @ arriving (cn_fd c) k1" "arrived used = []"
      "used = [] \<and> arriving (cn_fd c) k1 = [] \<or> used \<noteq> [] \<and> last used = Inl EAGAIN" for used
  proof -
    obtain r' c' k' w' where p: "processCommands U exec c k1 w = Some ((r', c', k'), w')" "inv w'"
      "processed U exec (inBuf c) c k1 w r' c' k' w'" by (rule processCommands_spec[OF less.prems(1)])
    have "read_result U exec c k w r' c' k' w' used" by (rule read_result_last[OF p(3) re(1,2) u])
    moreover have "read_loop U exec c k w = Some ((r', c', k'), w')" using loop rc(4) p(1) e d by simp
    ultimately show ?thesis using p(2) by blast
  qed
  show ?case
  proof (cases "arriving (cn_fd c) k")
    case Nil
    with re(3)[OF less.prems(2)] show ?thesis by (intro last[of "[]"]) simp_all
  next
    case (Cons u us)
    note u = re(4)[OF Cons]
    then have used: "arriving (cn_fd c) k = u # arriving (cn_fd c) k1" using Cons by simp
    show ?thesis
    proof (cases u)
      case (Inl e)
      then have d: "data = []" "err = Some e" using u by simp_all
      consider "e = EAGAIN" | "e = EINTR" | "e \<noteq> EAGAIN" "e \<noteq> EINTR" by blast
      then show ?thesis
      proof cases
        case 1
        with d used Inl show ?thesis by (intro last[of "[u]"]) simp_all
      next
        case 2
        have "k_sockets k1 (cn_fd c) \<noteq> None" using re(1) less.prems(2) by (simp add: local_to_def)
        with less.hyps[of c k1 w] less.prems(1) used obtain r' c' k' w' used' where
          "read_loop U exec c k1 w = Some ((r', c', k'), w')" "inv w'" "read_result U exec c k1 w r' c' k' w' used'" by auto
        with read_result_retry[OF this(3) re(1,2)] used Inl loop rc(4) d 2 show ?thesis by (intro exI[of _ "u # used'"] exI conjI) auto
      next
        case 3
        with loop rc(4) d have "\<exists>x. read_loop U exec c k w = Some ((Some x, c, k1), w)" by simp
        moreover have "read_result U exec c k w (Some x) c k1 w [u]" for x by (rule read_result_stop) (use re(1) used in simp_all)
        ultimately show ?thesis using less.prems(1) by blast
      qed
    next
      case (Inr x)
      then have d: "data = x" "err = None" using u by simp_all
      have used2: "arriving (cn_fd c) k = u # arriving (cn_fd c) k2" using used fr by simp
      have stop: "read_result U exec c k w (Some e) c1 k2 w1 [u]" for e
        by (rule read_result_stop[OF _ l2 used2 rc(3)]) (use fr in simp)
      consider (error) y where "r = Some y" | (eof) "r = None" "x = []" | (more) "r = None" "x \<noteq> []" by blast
      then show ?thesis
      proof cases
        case error
        with loop have "read_loop U exec c k w = Some ((Some y, c1, k2), w1)" by simp
        with stop rc(2) show ?thesis by blast
      next
        case eof
        with loop rc(4) d have "read_loop U exec c k w = Some ((Some ConnEOF, c1, k2), w1)" by simp
        with stop rc(2) show ?thesis by blast
      next
        case more
        have eq: "cn_fd c1 = cn_fd c" using fr by (simp add: same_conn_def)
        then have "k_sockets k2 (cn_fd c1) \<noteq> None" "length (arriving (cn_fd c1) k2) < length (arriving (cn_fd c) k)"
          using l2 less.prems(2) used2 by (simp_all add: local_to_def)
        with less.hyps[of c1 k2 w1] rc(2) obtain r' c' k' w' used' where IH:
          "read_loop U exec c1 k2 w1 = Some ((r', c', k'), w')" "inv w'" "read_result U exec c1 k2 w1 r' c' k' w' used'" by blast
        have "stream c k1 = stream c k" using re(2) by (simp add: stream_def)
        then have "acceptable U exec (maxInbound c) (inBuf c @ x @ arrived used') w \<longrightarrow> answered U exec (inBuf c @ x) c k w c1 k2 w1"
          using receive_spec[OF less.prems(1), where U = U and c = c and k = k1 and data = data and z = "arrived used'"] rc(1) d more
          by (auto simp: answered_def)
        then have "read_result U exec c k w r' c' k' w' (Inr x # used')"
          by (intro read_result_next[OF IH(3) _ l2 _ rc(3)]) (use fr used2 Inr in auto)
        moreover have "read_loop U exec c k w = Some ((r', c', k'), w')" using loop more d IH(1) by simp
        ultimately show ?thesis using IH(2) by blast
      qed
    qed
  qed
qed

lemma OnRead_spec:
  assumes "inv w" "conn_inv c k" "k_sockets k (cn_fd c) \<noteq> None"
  shows "\<exists>r c' k' w'. OnRead U exec c k w = Some ((r, c', k'), w') \<and> inv w' \<and> same_conn c c' \<and> local_to (cn_fd c) k k' \<and>
    (r = None \<longrightarrow> conn_inv c' k')"
proof -
  obtain now k1 where t: "time_Now k = (now, k1)" by fastforce
  note te = time_Now_effect[OF t]
  have open_c: "\<not> isClosed c" using assms(2) by (simp add: conn_inv_def)
  show ?thesis
  proof (cases "Sub now (lastActivity c) \<ge> idleTimeout c")
    case True
    with open_c t te(1) assms(1) show ?thesis by (simp add: OnRead_def)
  next
    case False
    have "k_sockets k1 (cn_fd c) \<noteq> None" using assms(3) te(1)[of "cn_fd c"] by (simp add: local_to_def)
    from read_loop_spec[OF assms(1) this, where U = U] obtain r c' k' w' used where
      r: "read_loop U exec c k1 w = Some ((r, c', k'), w')" "inv w'" "read_result U exec c k1 w r c' k' w' used" by blast
    have "OnRead U exec c k w = Some ((r, c', k'), w')" using open_c t False r(1) by (simp add: OnRead_def)
    moreover have "same_conn c c'" "local_to (cn_fd c) k k'" using r(3) local_to_trans[OF te(1)] by (simp_all add: read_result_def)
    moreover have "r = None \<longrightarrow> conn_inv c' k'"
      using r(3) assms(2) by (auto simp: read_result_def conn_inv_def same_conn_def)
    ultimately show ?thesis using r(2) by blast
  qed
qed

end

end
