(* ===== verification/EventLoop.thy ===== *)
theory EventLoop
  imports ConnectionCorrect Config "HOL-Library.AList"
begin

text \<open>
  The event loop of the reactor, \<open>internal/reactor/event_loop.go\<close>: accepting clients, dispatching
  the events of \<open>epoll_wait\<close>, closing idle connections, and the shutdown.
\<close>

subsection \<open>The loop\<close>

text \<open>
  The registry \<open>conns\<close> is a list of pairs with different keys; Go visits a map in no fixed order,
  and what the loops over it do to one connection does not depend on the others. \<open>stop_polls\<close>
  says how many more looks at the channel \<open>stopChan\<close> find it open.
\<close>

record EventLoop =
  el_poller :: Poller
  listenerFD :: int
  el_config :: Config
  conns :: "(int \<times> Connection) list"
  stop_polls :: nat
  running :: bool

definition NewEventLoopWithConfig :: "Poller \<Rightarrow> int \<Rightarrow> Config \<Rightarrow> nat \<Rightarrow> EventLoop" where
  "NewEventLoopWithConfig p fd cfg stop =
     \<lparr>el_poller = p, listenerFD = fd, el_config = WithDefaults cfg, conns = [], stop_polls = stop, running = False\<rparr>"

definition NewEventLoop :: "Poller \<Rightarrow> int \<Rightarrow> nat \<Rightarrow> EventLoop" where
  "NewEventLoop p fd stop = NewEventLoopWithConfig p fd DefaultConfig stop"

definition put_conn :: "Connection \<Rightarrow> int \<Rightarrow> EventLoop \<Rightarrow> EventLoop" where
  "put_conn c fd el = el\<lparr>conns := AList.update fd c (conns el)\<rparr>"

definition closeClient :: "int \<Rightarrow> EventLoop \<Rightarrow> kernel \<Rightarrow> EventLoop \<times> kernel" where
  "closeClient fd el k =
     (case map_of (conns el) fd of
        None \<Rightarrow> (el, k)
      | Some c \<Rightarrow> let (_, _, k) = conn_Close c k in (el\<lparr>conns := AList.delete fd (conns el)\<rparr>, k))"

text \<open>One accepted descriptor.\<close>

definition admit_client :: "int \<Rightarrow> EventLoop \<Rightarrow> kernel \<Rightarrow> EventLoop \<times> kernel" where
  "admit_client nfd el k =
     (let cfg = el_config el
      in if int (length (conns el)) \<ge> MaxConnections cfg then (el, snd (sys_close nfd k))
         else
           let (c, k) = NewConnectionWithLimits nfd (MaxRequestBytes cfg) (MaxResponseBytes cfg) (ReadTimeout cfg) (WriteTimeout cfg) k;
               el = put_conn c nfd el; (err, k) = Register nfd k
           in case err of
                Some _ \<Rightarrow> let (_, _, k) = conn_Close c k in (el\<lparr>conns := AList.delete nfd (conns el)\<rparr>, k)
              | None \<Rightarrow> (el, k))"

lemma conn_Close_accepts: "conn_Close c k = (r, c', k') \<Longrightarrow> k_accepts k' = k_accepts k"
  by (auto simp: conn_Close_def Unregister_def epoll_ctl_def sys_close_def sys_result_def apfst_def map_prod_def
      split: if_splits prod.splits)

lemma admit_client_accepts: "admit_client fd el k = (el', k') \<Longrightarrow> k_accepts k' = k_accepts k"
  by (auto simp: admit_client_def Let_def NewConnectionWithLimits_def time_Now_def Register_def RegisterWithEvents_def
      epoll_ctl_def sys_close_def sys_result_def apfst_def map_prod_def dest!: conn_Close_accepts
      split: if_splits prod.splits option.splits)

lemma sys_accept_accepts:
  "sys_accept k = (r, k') \<Longrightarrow> r \<noteq> Inl EAGAIN \<Longrightarrow> length (k_accepts k') < length (k_accepts k)"
  by (auto simp: sys_accept_def Let_def split: list.splits sum.splits)

function handleAccept :: "EventLoop \<Rightarrow> kernel \<Rightarrow> EventLoop \<times> kernel" where
  "handleAccept el k =
     (case sys_accept k of
        (Inl e, k) \<Rightarrow> if e = EINTR then handleAccept el k else (el, k)
      | (Inr nfd, k) \<Rightarrow> (case admit_client nfd el k of (el, k) \<Rightarrow> handleAccept el k))"
  by pat_completeness auto
termination
  by (relation "measure (\<lambda>(el, k). length (k_accepts k))")
    (auto dest!: sys_accept_accepts[OF sym] dest: admit_client_accepts split: prod.split)

declare handleAccept.simps [simp del]

text \<open>The part of \<open>handleClientEvent\<close> after reading.\<close>

definition finish_event :: "int \<Rightarrow> uint32 \<Rightarrow> Connection \<Rightarrow> EventLoop \<Rightarrow> kernel \<Rightarrow> EventLoop \<times> kernel" where
  "finish_event fd events c el k =
     (if events AND (EPOLLERR OR EPOLLHUP OR EPOLLRDHUP) \<noteq> 0 \<and> events AND EPOLLIN = 0 then closeClient fd el k
      else if events AND EPOLLOUT \<noteq> 0 then
        (case OnWrite c k of
           (Some _, c, k) \<Rightarrow> closeClient fd (put_conn c fd el) k
         | (None, c, k) \<Rightarrow> (put_conn c fd el, k))
      else (el, k))"

definition handleClientEvent ::
  "unicode \<Rightarrow> 'w exec \<Rightarrow> int \<Rightarrow> uint32 \<Rightarrow> EventLoop \<Rightarrow> kernel \<Rightarrow> 'w \<Rightarrow> ((EventLoop \<times> kernel) \<times> 'w) option"
where
  "handleClientEvent U exec fd events el k w =
     (case map_of (conns el) fd of
        None \<Rightarrow> Some ((el, k), w)
      | Some c \<Rightarrow>
          if events AND EPOLLIN \<noteq> 0 then
            (case OnRead U exec c k w of
               None \<Rightarrow> None
             | Some ((Some _, c, k), w) \<Rightarrow> Some (closeClient fd (put_conn c fd el) k, w)
             | Some ((None, c, k), w) \<Rightarrow> Some (finish_event fd events c (put_conn c fd el) k, w))
          else Some (finish_event fd events c el k, w))"

text \<open>\<open>expireConnections\<close> with the time it has read, on the keys still to be visited.\<close>

primrec expire_all :: "time \<Rightarrow> (int \<times> Connection) list \<Rightarrow> EventLoop \<Rightarrow> kernel \<Rightarrow> EventLoop \<times> kernel" where
  "expire_all now [] el k = (el, k)"
| "expire_all now (p # ps) el k =
     (case (if conn_expired now (snd p) then closeClient (fst p) el k else (el, k)) of
        (el, k) \<Rightarrow> expire_all now ps el k)"

definition expireConnections :: "EventLoop \<Rightarrow> kernel \<Rightarrow> EventLoop \<times> kernel" where
  "expireConnections el k = (let (now, k) = time_Now k in expire_all now (conns el) el k)"

primrec close_all :: "(int \<times> Connection) list \<Rightarrow> kernel \<Rightarrow> kernel" where
  "close_all [] k = k"
| "close_all (p # ps) k = (case conn_Close (snd p) k of (_, _, k) \<Rightarrow> close_all ps k)"

definition cleanup :: "EventLoop \<Rightarrow> kernel \<Rightarrow> EventLoop \<times> kernel" where
  "cleanup el k =
     (let k = close_all (conns el) k; (_, k) = sys_close (listenerFD el) k; (_, k) = poller_Close (el_poller el) k
      in (el\<lparr>conns := []\<rparr>, k))"

text \<open>The loop over the ready events; \<open>True\<close> if it found the channel closed.\<close>

fun dispatch ::
  "unicode \<Rightarrow> 'w exec \<Rightarrow> Event list \<Rightarrow> EventLoop \<Rightarrow> kernel \<Rightarrow> 'w \<Rightarrow> ((bool \<times> EventLoop \<times> kernel) \<times> 'w) option"
where
  "dispatch U exec [] el k w = Some ((False, el, k), w)"
| "dispatch U exec (ev # evs) el k w =
     (if stop_polls el = 0 then Some ((True, el, k), w)
      else
        let el = el\<lparr>stop_polls := stop_polls el - 1\<rparr>
        in if ev_FD ev = listenerFD el then case handleAccept el k of (el, k) \<Rightarrow> dispatch U exec evs el k w
           else
             (case handleClientEvent U exec (ev_FD ev) (ev_Events ev) el k w of
                None \<Rightarrow> None
              | Some ((el, k), w) \<Rightarrow> dispatch U exec evs el k w))"

subsection \<open>The loop ends when it is told to\<close>

lemma closeClient_frame:
  "closeClient fd el k = (el', k') \<Longrightarrow>
    stop_polls el' = stop_polls el \<and> listenerFD el' = listenerFD el \<and> el_poller el' = el_poller el \<and> el_config el' = el_config el"
  by (auto simp: closeClient_def split: option.splits prod.splits)

lemma put_conn_frame [simp]:
  "stop_polls (put_conn c fd el) = stop_polls el" "listenerFD (put_conn c fd el) = listenerFD el"
  "el_poller (put_conn c fd el) = el_poller el" "el_config (put_conn c fd el) = el_config el"
  "conns (put_conn c fd el) = AList.update fd c (conns el)"
  by (simp_all add: put_conn_def)

definition same_loop :: "EventLoop \<Rightarrow> EventLoop \<Rightarrow> bool" where
  "same_loop el el' \<longleftrightarrow> stop_polls el' = stop_polls el \<and> listenerFD el' = listenerFD el \<and> el_poller el' = el_poller el \<and>
     el_config el' = el_config el"

lemma same_loop_refl [simp]: "same_loop el el"
  by (simp add: same_loop_def)

lemma same_loop_trans: "same_loop el el1 \<Longrightarrow> same_loop el1 el' \<Longrightarrow> same_loop el el'"
  by (simp add: same_loop_def)

lemma admit_client_frame: "admit_client fd el k = (el', k') \<Longrightarrow> same_loop el el'"
  by (auto simp: admit_client_def Let_def same_loop_def split: if_splits prod.splits option.splits)

lemma handleAccept_frame: "handleAccept el k = (el', k') \<Longrightarrow> same_loop el el'"
proof (induction el k arbitrary: el' k' rule: handleAccept.induct)
  case (1 el k)
  obtain r k1 where a: "sys_accept k = (r, k1)" by fastforce
  note run = "1.prems"[unfolded handleAccept.simps[of el k] a prod.case]
  show ?case
  proof (cases r)
    case (Inl e)
    with run "1.IH"(1)[OF a[symmetric] Inl] show ?thesis by (auto split: if_splits)
  next
    case (Inr fd)
    obtain el1 k2 where d: "admit_client fd el k1 = (el1, k2)" by fastforce
    with run Inr have "handleAccept el1 k2 = (el', k')" by simp
    from same_loop_trans[OF admit_client_frame[OF d] "1.IH"(2)[OF a[symmetric] Inr d[symmetric] this]] show ?thesis .
  qed
qed

lemma finish_event_frame: "finish_event fd events c el k = (el', k') \<Longrightarrow> same_loop el el'"
  by (auto simp: finish_event_def same_loop_def dest!: closeClient_frame split: if_splits prod.splits option.splits)

lemma handleClientEvent_frame:
  assumes "handleClientEvent U exec fd events el k w = Some ((el', k'), w')"
  shows "same_loop el el'"
proof -
  consider "el' = el" | c el1 k1 where "closeClient fd el1 k1 = (el', k')" "same_loop el el1"
    | c el1 k1 where "finish_event fd events c el1 k1 = (el', k')" "same_loop el el1"
    using assms by (auto simp: handleClientEvent_def same_loop_def split: if_splits option.splits)
  then show ?thesis
    by cases (auto dest!: closeClient_frame finish_event_frame simp: same_loop_def)
qed

lemma expire_all_frame: "expire_all now ps el k = (el', k') \<Longrightarrow> same_loop el el'"
proof (induction ps arbitrary: el k)
  case (Cons p ps)
  obtain el1 k1 where c: "(if conn_expired now (snd p) then closeClient (fst p) el k else (el, k)) = (el1, k1)" by fastforce
  then have "same_loop el el1" by (auto simp: same_loop_def dest!: closeClient_frame split: if_splits)
  moreover have "same_loop el1 el'" using Cons.prems c by (intro Cons.IH[of el1 k1]) simp
  ultimately show ?case by (rule same_loop_trans)
qed simp

definition later_loop :: "EventLoop \<Rightarrow> EventLoop \<Rightarrow> bool" where
  "later_loop el el' \<longleftrightarrow> stop_polls el' \<le> stop_polls el \<and> listenerFD el' = listenerFD el \<and> el_poller el' = el_poller el \<and>
     el_config el' = el_config el"

lemma dispatch_later: "dispatch U exec evs el k w = Some ((b, el', k'), w') \<Longrightarrow> later_loop el el'"
proof (induction U exec evs el k w rule: dispatch.induct)
  case (2 U exec ev evs el k w)
  let ?el = "el\<lparr>stop_polls := stop_polls el - 1\<rparr>"
  show ?case
  proof (cases "stop_polls el = 0")
    case True
    with 2 show ?thesis by (simp add: later_loop_def)
  next
    case False
    show ?thesis
    proof (cases "ev_FD ev = listenerFD el")
      case True
      obtain el1 k1 where h: "handleAccept ?el k = (el1, k1)" by fastforce
      with "2.prems" True False have "dispatch U exec evs el1 k1 w = Some ((b, el', k'), w')" by simp
      from "2.IH"(1)[OF False refl _ h[symmetric] this] True handleAccept_frame[OF h] False show ?thesis by (auto simp: same_loop_def later_loop_def)
    next
      case L: False
      then obtain el1 k1 w1 where h: "handleClientEvent U exec (ev_FD ev) (ev_Events ev) ?el k w = Some ((el1, k1), w1)"
        using "2.prems" False by (auto split: option.splits)
      with "2.prems" L False have "dispatch U exec evs el1 k1 w1 = Some ((b, el', k'), w')" by simp
      from "2.IH"(2)[OF False refl _ h refl refl this] L handleClientEvent_frame[OF h] False show ?thesis by (auto simp: same_loop_def later_loop_def)
    qed
  qed
qed (simp add: later_loop_def)

text \<open>
  The body of \<open>Run\<close>. \<open>Wait\<close> retries interrupted calls itself, so that the test for \<open>EINTR\<close> after it
  never succeeds and is left out.
\<close>

function run_loop ::
  "unicode \<Rightarrow> 'w exec \<Rightarrow> ('w \<Rightarrow> 'w) \<Rightarrow> EventLoop \<Rightarrow> kernel \<Rightarrow> 'w \<Rightarrow> ((go_error option \<times> EventLoop \<times> kernel) \<times> 'w) option"
where
  "run_loop U exec active el k w =
     (if stop_polls el = 0 then Some ((None, el, k), w)
      else
        case Wait (el_poller el) k of
          (Inl err, k) \<Rightarrow> Some ((Some (''event loop poller wait error: '' @ err), el\<lparr>stop_polls := stop_polls el - 1\<rparr>, k), w)
        | (Inr events, k) \<Rightarrow>
            (case dispatch U exec events (el\<lparr>stop_polls := stop_polls el - 1\<rparr>) k w of
               None \<Rightarrow> None
             | Some ((True, el, k), w) \<Rightarrow> Some ((None, el, k), w)
             | Some ((False, el, k), w) \<Rightarrow>
                 (case active w of w \<Rightarrow> case expireConnections el k of (el, k) \<Rightarrow> run_loop U exec active el k w)))"
  by pat_completeness auto

lemma expireConnections_frame: "expireConnections el k = (el', k') \<Longrightarrow> same_loop el el'"
  by (auto simp: expireConnections_def dest: expire_all_frame split: prod.splits)

lemma iteration_polls:
  assumes "dispatch U exec evs (el\<lparr>stop_polls := stop_polls el - 1\<rparr>) k w = Some ((b, el1, k1), w1)"
    "expireConnections el1 k1 = (el', k')" "stop_polls el \<noteq> 0"
  shows "stop_polls el' < stop_polls el" "later_loop el el'"
  using dispatch_later[OF assms(1)] expireConnections_frame[OF assms(2)] assms(3) by (auto simp: same_loop_def later_loop_def)

termination run_loop
  by (relation "measure (\<lambda>(U, exec, active, el, k, w). stop_polls el)") (auto dest: iteration_polls(1)[unfolded One_nat_def, OF _ sym])

declare run_loop.simps [simp del]

definition Run ::
  "unicode \<Rightarrow> 'w exec \<Rightarrow> ('w \<Rightarrow> 'w) \<Rightarrow> EventLoop \<Rightarrow> kernel \<Rightarrow> 'w \<Rightarrow> ((go_error option \<times> EventLoop \<times> kernel) \<times> 'w) option"
where
  "Run U exec active el k w =
     (case run_loop U exec active (el\<lparr>running := True\<rparr>) k w of
        None \<Rightarrow> None
      | Some ((err, el, k), w) \<Rightarrow> let (el, k) = cleanup (el\<lparr>running := False\<rparr>) k in Some ((err, el, k), w))"

definition loop_Stop :: "EventLoop \<Rightarrow> EventLoop" where
  "loop_Stop el = (if running el then el\<lparr>stop_polls := 0\<rparr> else el)"

end
