(* ===== verification/EventLoopCorrect.thy ===== *)
theory EventLoopCorrect
  imports EventLoop
begin

text \<open>
  The event loop keeps its registry, the descriptors of the process and the interest list of
  epoll in step: no descriptor is leaked, no writable socket is forgotten, and the number of
  clients and the size of their input buffers stay within the configured bounds.
\<close>

subsection \<open>The invariant\<close>

text \<open>The kernel hands out a descriptor that is not in use.\<close>

definition fd_law :: "kernel \<Rightarrow> bool" where
  "fd_law k \<longleftrightarrow> (\<forall>S. finite S \<longrightarrow> k_fd k S \<notin> S)"

text \<open>\<open>B\<close> are the descriptors the process has open besides those of its clients.\<close>

definition el_inv :: "int set \<Rightarrow> EventLoop \<Rightarrow> kernel \<Rightarrow> bool" where
  "el_inv B el k \<longleftrightarrow> finite B \<and> fd_law k \<and> distinct (map fst (conns el)) \<and>
     int (length (conns el)) \<le> max 0 (MaxConnections (el_config el)) \<and>
     (\<forall>fd c. map_of (conns el) fd = Some c \<longrightarrow> cn_fd c = fd \<and> conn_inv c k) \<and>
     k_open k = B \<union> dom (map_of (conns el)) \<and> B \<inter> dom (map_of (conns el)) = {} \<and> dom (k_sockets k) = dom (map_of (conns el))"

lemma conn_inv_other:
  "conn_inv c k \<Longrightarrow> k_interest k' (cn_fd c) = k_interest k (cn_fd c) \<Longrightarrow> conn_inv c k'"
  by (simp add: conn_inv_def watched_def)

lemma el_invD:
  assumes "el_inv B el k"
  shows "finite B" "fd_law k" "distinct (map fst (conns el))" "int (length (conns el)) \<le> max 0 (MaxConnections (el_config el))"
    "k_open k = B \<union> dom (map_of (conns el))" "B \<inter> dom (map_of (conns el)) = {}" "dom (k_sockets k) = dom (map_of (conns el))"
  using assms unfolding el_inv_def by blast+

lemma el_inv_conn: "el_inv B el k \<Longrightarrow> map_of (conns el) fd = Some c \<Longrightarrow> cn_fd c = fd \<and> conn_inv c k"
  unfolding el_inv_def by blast

lemma el_inv_same:
  assumes "el_inv B el k" "conns el' = conns el" "el_config el' = el_config el" "k_open k' = k_open k" "k_fd k' = k_fd k"
    "k_sockets k' = k_sockets k" "\<And>f. f \<in> dom (map_of (conns el)) \<Longrightarrow> k_interest k' f = k_interest k f"
  shows "el_inv B el' k'"
proof -
  have "cn_fd c = fd \<and> conn_inv c k'" if "map_of (conns el) fd = Some c" for fd c
    using el_inv_conn[OF assms(1) that] conn_inv_other[of c k k'] assms(7)[of fd] domI[of "map_of (conns el)", OF that] by simp
  then have "\<forall>fd c. map_of (conns el) fd = Some c \<longrightarrow> cn_fd c = fd \<and> conn_inv c k'" by (intro allI impI)
  with assms(1) show ?thesis unfolding el_inv_def fd_law_def assms(2-6) by argo
qed

lemma length_alist_update: "length (AList.update fd c xs) = (if fd \<in> fst ` set xs then length xs else Suc (length xs))"
  by (induction xs) auto

lemma el_inv_put:
  assumes "el_inv B el k" "map_of (conns el) fd = Some c" "local_to fd k k'" "cn_fd c' = fd" "conn_inv c' k'"
  shows "el_inv B (put_conn c' fd el) k'"
proof -
  let ?cs = "AList.update fd c' (conns el)"
  have m: "map_of ?cs = (map_of (conns el))(fd \<mapsto> c')" by (rule update_conv')
  have "fd \<in> fst ` set (conns el)" using assms(2) by (force dest: map_of_SomeD)
  then have "length ?cs = length (conns el)" by (simp add: length_alist_update)
  moreover have "dom (map_of ?cs) = dom (map_of (conns el))" unfolding m using assms(2) by auto
  moreover have "dom (k_sockets k') = dom (k_sockets k)"
    using assms(3) unfolding local_to_def dom_def by (intro Collect_cong) metis
  moreover have "cn_fd c2 = f \<and> conn_inv c2 k'" if "map_of ?cs f = Some c2" for f c2
    using that[unfolded m] assms conn_inv_other[of c2 k k'] by (cases "f = fd") (auto simp: el_inv_def local_to_def)
  moreover have "distinct (map fst ?cs)" using assms(1) by (simp add: el_inv_def distinct_update)
  moreover have "k_open k' = k_open k" "k_fd k' = k_fd k" using assms(3) by (simp_all add: local_to_def)
  ultimately show ?thesis using assms(1) unfolding el_inv_def fd_law_def put_conn_frame by auto
qed

lemma conn_Close_effect:
  assumes "conn_Close c k = (r, c', k')" "\<not> isClosed c"
  shows "k_open k' = k_open k - {cn_fd c}" "k_sockets k' = (k_sockets k)(cn_fd c := None)" "k_fd k' = k_fd k"
    "f \<noteq> cn_fd c \<Longrightarrow> k_interest k' f = k_interest k f"
  using assms by (auto simp: conn_Close_def Unregister_def epoll_ctl_def sys_close_def sys_result_def apfst_def map_prod_def
      split: if_splits prod.splits)

lemma el_inv_delete:
  assumes "el_inv B el k" "map_of (conns el) fd = Some c" "k_open k' = k_open k - {fd}" "k_sockets k' = (k_sockets k)(fd := None)"
    "k_fd k' = k_fd k" "\<And>f. f \<noteq> fd \<Longrightarrow> k_interest k' f = k_interest k f"
  shows "el_inv B (el\<lparr>conns := AList.delete fd (conns el)\<rparr>) k'"
proof -
  let ?cs = "AList.delete fd (conns el)"
  have m: "map_of ?cs = (map_of (conns el))(fd := None)" by (rule delete_conv')
  note inv = el_invD[OF assms(1)]
  have d: "dom (map_of ?cs) = dom (map_of (conns el)) - {fd}" by (simp only: m dom_fun_upd simp_thms if_True)
  have "cn_fd c2 = f \<and> conn_inv c2 k'" if "map_of ?cs f = Some c2" for f c2
    using that[unfolded m] assms(1,6) conn_inv_other[of c2 k k'] by (cases "f = fd") (auto simp: el_inv_def)
  then have "\<forall>f c2. map_of ?cs f = Some c2 \<longrightarrow> cn_fd c2 = f \<and> conn_inv c2 k'" by (intro allI impI)
  moreover have "int (length ?cs) \<le> max 0 (MaxConnections (el_config el))" using inv(4) length_delete_le[of fd "conns el"] by linarith
  moreover have "k_open k' = B \<union> dom (map_of ?cs)" "B \<inter> dom (map_of ?cs) = {}"
    unfolding assms(3) inv(5) d using inv(6) assms(2) by auto
  moreover have "dom (k_sockets k') = dom (map_of ?cs)" unfolding assms(4) d inv(7)[symmetric] by simp
  moreover have "distinct (map fst ?cs)" using inv(3) by (rule distinct_delete)
  moreover have "fd_law k'" using inv(2) by (simp add: fd_law_def assms(5))
  moreover note inv(1)
  moreover have e: "conns (el\<lparr>conns := ?cs\<rparr>) = ?cs" "el_config (el\<lparr>conns := ?cs\<rparr>) = el_config el" by simp_all
  ultimately show ?thesis
    unfolding el_inv_def e by (intro conjI)
qed

subsection \<open>Closing and accepting\<close>

lemma closeClient_inv:
  assumes "el_inv B el k" "map_of (conns el) fd = Some c" "same_conn c c'" "local_to fd k k1"
    "closeClient fd (put_conn c' fd el) k1 = (el', k')"
  shows "el_inv B el' k'"
proof -
  have c: "cn_fd c = fd" "\<not> isClosed c" using assms(1,2) by (auto simp: el_inv_def conn_inv_def)
  then have c': "cn_fd c' = fd" "\<not> isClosed c'" using assms(3) by (auto simp: same_conn_def)
  obtain r c2 k2 where cl: "conn_Close c' k1 = (r, c2, k2)" by (metis prod_cases3)
  note eff = conn_Close_effect[OF cl c'(2), unfolded c'(1)]
  have "el' = el\<lparr>conns := AList.delete fd (conns el)\<rparr>" "k' = k2"
    using assms(5) cl by (auto simp: closeClient_def update_conv' delete_update_same put_conn_def)
  moreover have "k_sockets k2 = (k_sockets k)(fd := None)"
    using assms(4) by (auto simp: eff(2) local_to_def)
  ultimately show ?thesis
    using assms(4) eff by (auto intro!: el_inv_delete[OF assms(1,2)] simp: local_to_def)
qed

lemma closeClient_plain_inv: "el_inv B el k \<Longrightarrow> closeClient fd el k = (el', k') \<Longrightarrow> el_inv B el' k'"
proof (cases "map_of (conns el) fd")
  case (Some c)
  then have p: "put_conn c fd el = el" by (simp add: put_conn_def update_triv)
  assume "el_inv B el k" "closeClient fd el k = (el', k')"
  with closeClient_inv[OF _ Some same_conn_refl local_to_refl, of B k el' k'] p show ?thesis by simp
qed (simp add: closeClient_def)

lemma sys_close_effect:
  assumes "sys_close fd k = (r, k')"
  shows "k_open k' = k_open k - {fd}" "k_sockets k' = (k_sockets k)(fd := None)" "k_fd k' = k_fd k"
    "k_interest k' = (k_interest k)(fd := None)"
  using assms by (auto simp: sys_close_def sys_result_def)

lemma Register_effect:
  assumes "Register fd k = (r, k')"
  shows "k_open k' = k_open k" "k_sockets k' = k_sockets k" "k_fd k' = k_fd k"
    "f \<noteq> fd \<Longrightarrow> k_interest k' f = k_interest k f" "r = None \<Longrightarrow> k_interest k' fd = Some DefaultEventMask"
  using assms by (auto simp: Register_def RegisterWithEvents_def epoll_ctl_def sys_result_def apfst_def map_prod_def
      split: prod.splits if_splits)

lemma el_inv_insert:
  assumes "el_inv B el k" "fd \<notin> k_open k" "int (length (conns el)) < MaxConnections (el_config el)" "cn_fd c = fd" "conn_inv c k'"
    "k_open k' = insert fd (k_open k)" "k_sockets k' = (k_sockets k)(fd \<mapsto> s)" "k_fd k' = k_fd k"
    "\<And>f. f \<noteq> fd \<Longrightarrow> k_interest k' f = k_interest k f"
  shows "el_inv B (put_conn c fd el) k'"
proof -
  let ?cs = "AList.update fd c (conns el)"
  have m: "map_of ?cs = (map_of (conns el))(fd \<mapsto> c)" by (rule update_conv')
  note inv = el_invD[OF assms(1)]
  have d: "dom (map_of ?cs) = insert fd (dom (map_of (conns el)))" by (simp add: m)
  have "cn_fd c2 = f \<and> conn_inv c2 k'" if "map_of ?cs f = Some c2" for f c2
    using that[unfolded m] assms(1,4,5,9) conn_inv_other[of c2 k k'] by (cases "f = fd") (auto simp: el_inv_def)
  then have "\<forall>f c2. map_of ?cs f = Some c2 \<longrightarrow> cn_fd c2 = f \<and> conn_inv c2 k'" by (intro allI impI)
  moreover have "int (length ?cs) \<le> max 0 (MaxConnections (el_config el))" using assms(3) by (simp add: length_alist_update)
  moreover have "k_open k' = B \<union> dom (map_of ?cs)" "B \<inter> dom (map_of ?cs) = {}"
    unfolding assms(6) inv(5) d using inv(5,6) assms(2) by auto
  moreover have "dom (k_sockets k') = dom (map_of ?cs)" unfolding assms(7) d inv(7)[symmetric] by simp
  moreover have "distinct (map fst ?cs)" using inv(3) by (rule distinct_update)
  moreover have "fd_law k'" using inv(2) by (simp add: fd_law_def assms(8))
  moreover note inv(1)
  ultimately show ?thesis unfolding el_inv_def put_conn_frame by (intro conjI)
qed

lemma sys_accept_effect:
  assumes "sys_accept k = (Inr fd, k')"
  obtains s where "fd = k_fd k (k_open k)" "k_open k' = insert fd (k_open k)" "k_sockets k' = (k_sockets k)(fd \<mapsto> s)"
    "k_fd k' = k_fd k" "k_interest k' = k_interest k"
proof -
  obtain s as where "k_accepts k = Inr s # as"
    using assms by (cases "k_accepts k"; cases "hd (k_accepts k)") (auto simp: sys_accept_def)
  with assms that show thesis by (auto simp: sys_accept_def Let_def)
qed

lemma accept_inv:
  assumes "el_inv B el k" "sys_accept k = (Inr fd, k1)" "admit_client fd el k1 = (el', k')"
  shows "el_inv B el' k'"
proof -
  note inv = el_invD[OF assms(1)]
  have fin: "finite (k_open k)" unfolding inv(5) using inv(1) by (simp add: finite_dom_map_of)
  obtain s where s: "fd = k_fd k (k_open k)" "k_open k1 = insert fd (k_open k)" "k_sockets k1 = (k_sockets k)(fd \<mapsto> s)"
    "k_fd k1 = k_fd k" "k_interest k1 = k_interest k"
    by (rule sys_accept_effect[OF assms(2)])
  have fd: "fd \<notin> k_open k" using inv(2) fin s(1) by (simp add: fd_law_def)
  then have fds: "fd \<notin> dom (k_sockets k)" "fd \<notin> dom (map_of (conns el))" unfolding inv(5,7) by blast+
  have closed: "el_inv B el k2" if "k_open k2 = insert fd (k_open k) - {fd}" "k_sockets k2 = (k_sockets k)(fd := None)"
    "k_fd k2 = k_fd k" "\<And>f. f \<noteq> fd \<Longrightarrow> k_interest k2 f = k_interest k f" for k2
  proof (rule el_inv_same[OF assms(1) refl refl _ that(3)])
    show "k_open k2 = k_open k" using that(1) fd by auto
    show "k_sockets k2 = k_sockets k" using that(2) fds(1) by (auto simp: fun_eq_iff dom_def)
    show "k_interest k2 f = k_interest k f" if "f \<in> dom (map_of (conns el))" for f
      by (rule \<open>\<And>f. f \<noteq> fd \<Longrightarrow> k_interest k2 f = k_interest k f\<close>) (use that fds(2) in blast)
  qed
  let ?cfg = "el_config el"
  obtain c k2 where n: "NewConnectionWithLimits fd (MaxRequestBytes ?cfg) (MaxResponseBytes ?cfg) (ReadTimeout ?cfg) (WriteTimeout ?cfg) k1 = (c, k2)"
    by fastforce
  then have c: "cn_fd c = fd" "\<not> isClosed c" "inBuf c = []" "outBuf c = []" "k2 = k1\<lparr>k_ticks := Suc (k_ticks k1)\<rparr>"
    by (auto simp: NewConnectionWithLimits_def time_Now_def)
  obtain err k3 where r: "Register fd k2 = (err, k3)" by fastforce
  note re = Register_effect[OF r]
  obtain q c4 k4 where cl: "conn_Close c k3 = (q, c4, k4)" by (metis prod_cases3)
  note ce = conn_Close_effect[OF cl c(2), unfolded c(1)]
  consider (full) "int (length (conns el)) \<ge> MaxConnections ?cfg"
    | (unregistered) e where "\<not> int (length (conns el)) \<ge> MaxConnections ?cfg" "err = Some e"
    | (ok) "\<not> int (length (conns el)) \<ge> MaxConnections ?cfg" "err = None" by fastforce
  then show ?thesis
  proof cases
    case full
    obtain q k5 where sc: "sys_close fd k1 = (q, k5)" by fastforce
    with assms(3) full have "el' = el" "k' = k5" by (auto simp: admit_client_def)
    with closed[of k5] sys_close_effect[OF sc] s show ?thesis by simp
  next
    case unregistered
    have "AList.delete fd (AList.update fd c (conns el)) = conns el" using fds(2) by (simp add: delete_update_same dom_map_of_conv_image_fst)
    with assms(3) unregistered n r cl have "el' = el" "k' = k4" by (auto simp: admit_client_def put_conn_def)
    with closed[of k4] ce re c(5) s show ?thesis by simp
  next
    case ok
    with assms(3) n r have "el' = put_conn c fd el" "k' = k3" by (auto simp: admit_client_def)
    moreover have "conn_inv c k3" using c re(5)[OF ok(2)] by (simp add: conn_inv_def watched_def)
    ultimately show ?thesis using ok(1) re c s(2-5) by (simp add: el_inv_insert[OF assms(1) fd])
  qed
qed

lemma handleAccept_inv: "handleAccept el k = (el', k') \<Longrightarrow> el_inv B el k \<Longrightarrow> el_inv B el' k'"
proof (induction el k arbitrary: el' k' rule: handleAccept.induct)
  case (1 el k)
  obtain r k1 where a: "sys_accept k = (r, k1)" by fastforce
  note run = "1.prems"(1)[unfolded handleAccept.simps[of el k] a prod.case]
  show ?case
  proof (cases r)
    case (Inl e)
    have "k_open k1 = k_open k" "k_fd k1 = k_fd k" "k_sockets k1 = k_sockets k" "k_interest k1 = k_interest k"
      using a Inl by (auto simp: sys_accept_def Let_def split: list.splits sum.splits)
    then have "el_inv B el k1" by (intro el_inv_same[OF "1.prems"(2)]) simp_all
    with run Inl "1.IH"(1)[OF a[symmetric] Inl] show ?thesis by (auto split: if_splits)
  next
    case (Inr fd)
    obtain el1 k2 where d: "admit_client fd el k1 = (el1, k2)" by fastforce
    with run Inr have "handleAccept el1 k2 = (el', k')" by simp
    from "1.IH"(2)[OF a[symmetric] Inr d[symmetric] this] accept_inv[OF "1.prems"(2) a[unfolded Inr] d] show ?thesis .
  qed
qed

subsection \<open>Events\<close>

lemma conn_inv_socket: "el_inv B el k \<Longrightarrow> map_of (conns el) fd = Some c \<Longrightarrow> k_sockets k (cn_fd c) \<noteq> None"
  using el_inv_conn[of B el k fd c] el_invD(7)[of B el k] by (metis domI domIff)

lemma OnWrite_inv:
  assumes "conn_inv c k" "OnWrite c k = (r, c', k')"
  shows "same_conn c c'" "local_to (cn_fd c) k k'" "r = None \<Longrightarrow> conn_inv c' k'"
proof -
  have "conn_Flush c k = (r, c', k')" using assms by (simp add: OnWrite_def conn_inv_def)
  from Flush_effect[OF this] assms(1) show "same_conn c c'" "local_to (cn_fd c) k k'" "r = None \<Longrightarrow> conn_inv c' k'"
    by (auto simp: flushes_def conn_inv_def same_conn_def)
qed

lemma finish_event_inv:
  assumes "el_inv B el k" "map_of (conns el) fd = Some c" "finish_event fd events c el k = (el', k')"
  shows "el_inv B el' k'"
proof -
  note c = el_inv_conn[OF assms(1,2)]
  obtain r c1 k1 where w: "OnWrite c k = (r, c1, k1)" by (metis prod_cases3)
  note wi = OnWrite_inv[OF conjunct2[OF c] w]
  have l: "local_to fd k k1" using wi(2) c by simp
  let ?gone = "events AND (EPOLLERR OR EPOLLHUP OR EPOLLRDHUP) \<noteq> 0 \<and> events AND EPOLLIN = 0" and ?out = "events AND EPOLLOUT \<noteq> 0"
  note run = assms(3)[unfolded finish_event_def w prod.case]
  consider (gone) ?gone | (fail) e where "\<not> ?gone" ?out "r = Some e" | (out) "\<not> ?gone" ?out "r = None" | (none) "\<not> ?gone" "\<not> ?out"
    by (cases r) blast+
  then show ?thesis
  proof cases
    case gone
    from run[unfolded if_P[OF gone]] show ?thesis by (rule closeClient_plain_inv[OF assms(1)])
  next
    case fail
    from run[unfolded if_not_P[OF fail(1)] if_P[OF fail(2)] fail(3) option.case] show ?thesis
      by (rule closeClient_inv[OF assms(1,2) wi(1) l])
  next
    case out
    from run[unfolded if_not_P[OF out(1)] if_P[OF out(2)] out(3) option.case] have "el' = put_conn c1 fd el" "k' = k1" by simp_all
    with el_inv_put[OF assms(1,2) l _ wi(3)[OF out(3)]] wi(1) c show ?thesis by (simp add: same_conn_def)
  next
    case none
    from run[unfolded if_not_P[OF none(1)] if_not_P[OF none(2)]] assms(1) show ?thesis by simp
  qed
qed

lemma expire_all_inv: "expire_all now ps el k = (el', k') \<Longrightarrow> el_inv B el k \<Longrightarrow> el_inv B el' k'"
proof (induction ps arbitrary: el k)
  case (Cons p ps)
  obtain el1 k1 where c: "(if conn_expired now (snd p) then closeClient (fst p) el k else (el, k)) = (el1, k1)" by fastforce
  then have "el_inv B el1 k1" using closeClient_plain_inv[OF Cons.prems(2)] Cons.prems(2) by (auto split: if_splits)
  moreover have "expire_all now ps el1 k1 = (el', k')" using Cons.prems(1) c by simp
  ultimately show ?case by (intro Cons.IH)
qed simp

lemma expireConnections_inv: "expireConnections el k = (el', k') \<Longrightarrow> el_inv B el k \<Longrightarrow> el_inv B el' k'"
proof -
  assume e: "expireConnections el k = (el', k')" "el_inv B el k"
  obtain now k1 where t: "time_Now k = (now, k1)" by fastforce
  have "el_inv B el k1" by (rule el_inv_same[OF e(2)]) (use t in \<open>auto simp: time_Now_def\<close>)
  with e(1) t expire_all_inv show ?thesis by (auto simp: expireConnections_def)
qed

lemma Wait_kernel: "Wait p k = (r, k') \<Longrightarrow> k_open k' = k_open k \<and> k_fd k' = k_fd k \<and> k_sockets k' = k_sockets k \<and> k_interest k' = k_interest k"
proof (induction p k arbitrary: r k' rule: Wait.induct)
  case (1 p k)
  obtain q k1 where w: "epoll_wait (maxEvents p) k = (q, k1)" by fastforce
  then have k1: "k_open k1 = k_open k" "k_fd k1 = k_fd k" "k_sockets k1 = k_sockets k" "k_interest k1 = k_interest k"
    by (auto simp: epoll_wait_def split: list.splits)
  with 1 w show ?case by (cases q) (auto simp: Wait.simps[of p k] split: if_splits)
qed

text \<open>An executor that also runs expiration cycles.\<close>

locale active_executor = command_executor +
  fixes active :: "'w \<Rightarrow> 'w"
  assumes active_inv: "inv w \<Longrightarrow> inv (active w)"

context command_executor
begin

lemma handleClientEvent_spec:
  assumes "inv w" "el_inv B el k"
  shows "\<exists>el' k' w'. handleClientEvent U exec fd events el k w = Some ((el', k'), w') \<and> inv w' \<and> el_inv B el' k'"
proof (cases "map_of (conns el) fd")
  case None
  with assms show ?thesis by (simp add: handleClientEvent_def)
next
  case (Some c)
  note c = el_inv_conn[OF assms(2) Some]
  show ?thesis
  proof (cases "events AND EPOLLIN \<noteq> 0")
    case False
    obtain el' k' where f: "finish_event fd events c el k = (el', k')" by fastforce
    with finish_event_inv[OF assms(2) Some f] assms(1) Some False show ?thesis by (auto simp: handleClientEvent_def)
  next
    case True
    obtain r c1 k1 w1 where r: "OnRead U exec c k w = Some ((r, c1, k1), w1)" "inv w1" "same_conn c c1" "local_to fd k k1"
      "r = None \<longrightarrow> conn_inv c1 k1"
      using OnRead_spec[OF assms(1) conjunct2[OF c] conn_inv_socket[OF assms(2) Some], where U = U] c by blast
    note run = handleClientEvent_def[of U exec fd events el k w, unfolded Some option.case if_P[OF True] r(1) prod.case]
    show ?thesis
    proof (cases r)
      case (Some e)
      obtain el' k' where f: "closeClient fd (put_conn c1 fd el) k1 = (el', k')" by fastforce
      from closeClient_inv[OF assms(2) \<open>map_of (conns el) fd = Some c\<close> r(3,4) f] run Some f r(2) show ?thesis by simp
    next
      case None
      have i: "el_inv B (put_conn c1 fd el) k1"
        by (rule el_inv_put[OF assms(2) Some r(4)]) (use r(3,5) None c in \<open>auto simp: same_conn_def\<close>)
      obtain el' k' where f: "finish_event fd events c1 (put_conn c1 fd el) k1 = (el', k')" by fastforce
      have "map_of (conns (put_conn c1 fd el)) fd = Some c1" by (simp add: update_conv')
      from finish_event_inv[OF i this f] run None f r(2) show ?thesis by simp
    qed
  qed
qed

lemma dispatch_spec:
  assumes "inv w" "el_inv B el k"
  shows "\<exists>b el' k' w'. dispatch U exec evs el k w = Some ((b, el', k'), w') \<and> inv w' \<and> el_inv B el' k'"
  using assms
proof (induction evs arbitrary: el k w)
  case (Cons ev evs)
  let ?el = "el\<lparr>stop_polls := stop_polls el - 1\<rparr>"
  have i: "el_inv B ?el k" by (rule el_inv_same[OF Cons.prems(2)]) simp_all
  consider (stop) "stop_polls el = 0" | (accept) "stop_polls el \<noteq> 0" "ev_FD ev = listenerFD el"
    | (client) "stop_polls el \<noteq> 0" "ev_FD ev \<noteq> listenerFD el" by blast
  then show ?case
  proof cases
    case stop
    with Cons.prems show ?thesis by (simp add: ex_bool_eq)
  next
    case accept
    obtain el1 k1 where h: "handleAccept ?el k = (el1, k1)" by fastforce
    with accept Cons.IH[OF Cons.prems(1) handleAccept_inv[OF h i]] show ?thesis by simp
  next
    case client
    obtain el1 k1 w1 where h: "handleClientEvent U exec (ev_FD ev) (ev_Events ev) ?el k w = Some ((el1, k1), w1)" "inv w1" "el_inv B el1 k1"
      using handleClientEvent_spec[OF Cons.prems(1) i] by blast
    with client Cons.IH[OF h(2,3)] show ?thesis by simp
  qed
qed (simp add: ex_bool_eq)

end

context active_executor
begin

lemma run_loop_spec:
  assumes "inv w" "el_inv B el k"
  shows "\<exists>err el' k' w'. run_loop U exec active el k w = Some ((err, el', k'), w') \<and> inv w' \<and> el_inv B el' k' \<and>
    later_loop el el'"
  using assms
proof (induction "stop_polls el" arbitrary: el k w rule: less_induct)
  case less
  let ?el = "el\<lparr>stop_polls := stop_polls el - 1\<rparr>"
  note run = run_loop.simps[of U exec active el k w]
  show ?case
  proof (cases "stop_polls el = 0")
    case True
    with less.prems run show ?thesis by (simp add: later_loop_def)
  next
    case False
    obtain r k1 where w: "Wait (el_poller el) k = (r, k1)" by fastforce
    have i: "el_inv B ?el k1" by (rule el_inv_same[OF less.prems(2)]) (use Wait_kernel[OF w] in simp_all)
    show ?thesis
    proof (cases r)
      case (Inl err)
      with run False w i less.prems(1) show ?thesis by (simp add: later_loop_def)
    next
      case (Inr evs)
      obtain b el2 k2 w2 where d: "dispatch U exec evs ?el k1 w = Some ((b, el2, k2), w2)" "inv w2" "el_inv B el2 k2"
        using dispatch_spec[OF less.prems(1) i] by blast
      show ?thesis
      proof (cases b)
        case True
        with run False w Inr d dispatch_later[OF d(1)] show ?thesis by (auto simp: later_loop_def)
      next
        case F: False
        obtain el3 k3 where e: "expireConnections el2 k2 = (el3, k3)" by fastforce
        have "run_loop U exec active el k w = run_loop U exec active el3 k3 (active w2)" using run False w Inr d(1) F e by simp
        moreover note it = iteration_polls[OF d(1) e False]
        ultimately show ?thesis
          using less.hyps[OF it(1) active_inv[OF d(2)] expireConnections_inv[OF e d(3)]] it(2) by (auto simp: later_loop_def)
      qed
    qed
  qed
qed

end

end
