(* ===== verification/Opening.thy ===== *)
theory Opening
  imports Server Requests
begin

text \<open>
  Opening the append-only file always returns, whatever bytes the file holds, and leaves the
  store in a consistent state even if recovery stops half-way.
\<close>

lemma mutation_not_rewrite: "IsMutation (cmd_name cmd) \<Longrightarrow> cmd_name cmd \<noteq> ''AOFREWRITE''"
  by (auto simp: IsMutation_def)

lemma Execute_without_journal:
  assumes "store_inv (ex_store e)" "env_ok E" "ex_journal e = None" "IsMutation (cmd_name cmd)"
  obtains r e' where "Execute U E J cmd e = Some (Returned r, e')" "store_inv (ex_store e')" "ex_journal e' = None"
proof -
  let ?f = "\<lambda>e. apfst Inr (apply_command U E cmd e)"
  have x: "Execute U E J cmd e = run_admitted E J cmd ?f e"
    using mutation_not_rewrite[OF assms(4)] assms(3) by (simp add: Execute_def)
  have f: "frame_inv e (snd (?f e'))" if "frame_inv e e'" for e'
    using apply_command_frame[of e' E U cmd] assms(2) frame_inv_chain[of e e'] that by (simp add: frame_inv_def)
  obtain r e' where r: "run_admitted E J cmd ?f e = Some (r, e')" "frame_inv e e'"
    using run_admitted_returns[OF assms(1), of ?f E J cmd] f by blast
  obtain y where "r = Returned y" using run_admitted_Returned[OF r(1)] by blast
  with x r that assms(3) show thesis by (auto simp: frame_inv_def same_frame_def)
qed

lemma replay_loop_returns:
  assumes "store_inv (ex_store e)" "env_ok E" "ex_journal e = None"
  shows "\<exists>r e'. replay_loop U E len d e = Some (r, e') \<and> store_inv (ex_store e')"
  using assms
proof (induction "length (d_input d)" arbitrary: d e rule: less_induct)
  case less
  obtain r d' where dec: "Decode U d = (r, d')" by fastforce
  note loop = replay_loop.simps[of U E len d e, unfolded dec Let_def prod.case]
  show ?case
  proof (cases r)
    case (Inl err)
    with loop less.prems(1) show ?thesis by simp
  next
    case (Inr v)
    let ?stop = "len - length (d_input d') \<le> len - length (d_input d)"
    consider (stop) ?stop | (unparsed) err where "\<not> ?stop" "Parse U v = Inl err"
      | (other) cmd where "\<not> ?stop" "Parse U v = Inr cmd" "\<not> IsMutation (cmd_name cmd)"
      | (run) cmd where "\<not> ?stop" "Parse U v = Inr cmd" "IsMutation (cmd_name cmd)"
      by (cases "Parse U v") auto
    then show ?thesis
    proof cases
      case run
      obtain q e' where x: "Execute U E no_journal cmd e = Some (Returned q, e')" "store_inv (ex_store e')" "ex_journal e' = None"
        using Execute_without_journal[OF less.prems(1,2,3) run(3)] by metis
      have "length (d_input d') < length (d_input d)" using run(1) by simp
      note IH = less.hyps[OF this x(2) less.prems(2) x(3)]
      show ?thesis
      proof (cases q)
        case (Inl err)
        with loop Inr run x(1,2) show ?thesis by simp
      next
        case (Inr y)
        with loop \<open>r = Inr v\<close> run x(1) IH show ?thesis by simp
      qed
    qed (use loop Inr less.prems(1) in simp_all)
  qed
qed

lemma replay_returns:
  assumes "store_inv s" "env_ok E"
  shows "\<exists>r f' s'. replay U E eof f s = Some ((r, f'), s') \<and> store_inv s'"
proof -
  obtain q f1 where sk: "file_seek 0 f = (q, f1)" by fastforce
  show ?thesis
  proof (cases q)
    case (Some err)
    with sk assms(1) show ?thesis by (simp add: replay_def)
  next
    case None
    obtain r e' where r: "replay_loop U E (length (f_data f1)) (NewDecoderWithLimit (f_data f1) eof 4096 (int maxRecordBytes))
        (NewExecutor s) = Some (r, e')" "store_inv (ex_store e')"
      using replay_loop_returns[of "NewExecutor s" E, OF _ assms(2)] assms(1) by (simp add: NewExecutor_def) blast
    obtain t f2 where tr: "file_truncate (the (projr r)) f1 = (t, f2)" by fastforce
    consider err where "r = Inl err" | "r = Inr None" | n where "r = Inr (Some n)" by (cases r) auto
    then show ?thesis using sk None r tr by cases (cases t; simp add: replay_def)+
  qed
qed

lemma Open_returns:
  assumes "store_inv s" "env_ok E"
  shows "\<exists>r s'. Open U E path policy existing eof dir newfaults s = Some (r, s') \<and> store_inv s'"
proof -
  let ?f = "case existing of Some f \<Rightarrow> f | None \<Rightarrow> \<lparr>f_data = [], f_pos = 0, f_synced = 0, f_calls = 0, f_faults = newfaults 0\<rparr>"
  obtain r f1 s' where r: "replay U E eof ?f s = Some ((r, f1), s')" "store_inv s'" using replay_returns[OF assms] by blast
  obtain q f2 where sk: "file_seek (length (f_data f1)) f1 = (q, f2)" by fastforce
  show ?thesis
    unfolding Open_def Let_def r(1) option.case prod.case sk
    using assms(1) r(2) by (simp split: option.split)
qed

lemma openPersistence_returns:
  assumes "store_inv (ex_store e)" "env_ok E"
  shows "\<exists>err e'. openPersistence U E dsk cfg e = Some (err, e') \<and> store_inv (ex_store e') \<and> writeQueue e' = writeQueue e \<and>
    (err \<noteq> None \<longrightarrow> ex_journal e' = ex_journal e) \<and> (AOFEnabled cfg \<and> err = None \<longrightarrow> ex_journal e' \<noteq> None)"
proof -
  obtain r s' where r: "Open U E (AOFPath cfg) (AOFSyncPolicy cfg) (disk_file dsk) (disk_eof dsk) (disk_calls dsk)
      (disk_newfaults dsk) (ex_store e) = Some (r, s')" "store_inv s'" using Open_returns[OF assms] by blast
  show ?thesis using assms(1) r by (cases r) (auto simp: openPersistence_def SetJournal_def)
qed

end
