(* ===== verification/ReactorServer.thy ===== *)
theory ReactorServer
  imports EventLoopCorrect Opening
begin

text \<open>
  The reactor server, \<open>internal/reactor/server.go\<close>: opening the append-only file and the listening
  socket, running the event loop, and releasing everything again.
\<close>

subsection \<open>Starting\<close>

text \<open>The result of \<open>net.ResolveTCPAddr\<close>, as far as \<open>Start\<close> looks at it.\<close>

datatype address = IPv4 | IPv6 (is_unspecified: bool) | NoIP

text \<open>Give up on a descriptor.\<close>

definition give_up :: "int \<Rightarrow> go_error \<Rightarrow> kernel \<Rightarrow> (go_error + 'a) \<times> kernel" where
  "give_up fd err k = (Inl err, snd (sys_close fd k))"

definition listen_on :: "Config \<Rightarrow> address \<Rightarrow> kernel \<Rightarrow> (go_error + int) \<times> kernel" where
  "listen_on cfg addr k =
     (case sys_descriptor k of
        (Inl e, k) \<Rightarrow> (Inl (''failed to create socket: '' @ errno_text e), k)
      | (Inr fd, k) \<Rightarrow>
          (case sys_result k of
             (Some e, k) \<Rightarrow> give_up fd (''failed to set SO_REUSEADDR: '' @ errno_text e) k
           | (None, k) \<Rightarrow>
               let k = (if addr = IPv6 True then snd (sys_result k) else k)
               in case sys_result k of
                    (Some e, k) \<Rightarrow>
                      give_up fd (''failed to bind socket to '' @ Host cfg @ '':'' @ Port cfg @ '': '' @ errno_text e) k
                  | (None, k) \<Rightarrow>
                      (case sys_result k of
                         (Some e, k) \<Rightarrow> give_up fd (''failed to listen on socket: '' @ errno_text e) k
                       | (None, k) \<Rightarrow>
                           (case sys_result k of
                              (Some e, k) \<Rightarrow> give_up fd (''get listener address: '' @ errno_text e) k
                            | (None, k) \<Rightarrow> (Inr fd, k)))))"

definition watch_listener :: "int \<Rightarrow> kernel \<Rightarrow> (go_error + Poller) \<times> kernel" where
  "watch_listener fd k =
     (case NewPoller DefaultMaxEvents k of
        (Inl err, k) \<Rightarrow> give_up fd (''failed to create reactor poller: '' @ err) k
      | (Inr p, k) \<Rightarrow>
          (case Register fd k of
             (Some err, k) \<Rightarrow> give_up fd (''failed to register listener fd with epoll: '' @ err) (snd (poller_Close p k))
           | (None, k) \<Rightarrow> (Inr p, k)))"

text \<open>
  \<open>Start\<close> between opening and closing the append-only file; \<open>stop\<close> says when \<open>Stop\<close> is noticed.
\<close>

definition serve_sockets ::
  "unicode \<Rightarrow> 'w exec \<Rightarrow> ('w \<Rightarrow> 'w) \<Rightarrow> Config \<Rightarrow> (string \<Rightarrow> string \<Rightarrow> go_error + address) \<Rightarrow> nat \<Rightarrow> kernel \<Rightarrow> 'w \<Rightarrow>
    ((go_error option \<times> kernel) \<times> 'w) option"
where
  "serve_sockets U exec active cfg resolve stop k w =
     (case ParseInt (Port cfg) of
        None \<Rightarrow> Some ((Some (''invalid port '' @ Quote U (Port cfg) @ '': '' @ num_error U ''Atoi'' (Port cfg)), k), w)
      | Some port \<Rightarrow>
          (case resolve (Host cfg) (format_int port) of
             Inl err \<Rightarrow> Some ((Some (''invalid listen address '' @ Quote U (Host cfg) @ '': '' @ err), k), w)
           | Inr addr \<Rightarrow>
               if addr = NoIP then Some ((Some (''unsupported IP address '' @ Quote U (Host cfg)), k), w)
               else
                 (case listen_on cfg addr k of
                    (Inl err, k) \<Rightarrow> Some ((Some err, k), w)
                  | (Inr fd, k) \<Rightarrow>
                      (case watch_listener fd k of
                         (Inl err, k) \<Rightarrow> Some ((Some err, k), w)
                       | (Inr p, k) \<Rightarrow>
                           (case Run U exec active (NewEventLoopWithConfig p fd cfg stop) k w of
                              None \<Rightarrow> None
                            | Some ((err, el, k), w) \<Rightarrow> Some ((err, k), w))))))"

datatype start_error = InvalidConfig go_error | PersistenceError open_error | Stopped "go_error option" "Log option"

text \<open>
  \<open>Start\<close>, on a server whose configuration has its defaults; \<open>stop\<close> says when the loop notices
  \<open>Stop\<close>. The error at the end joins that of the loop and that of closing the log.
\<close>

definition reactor_Start ::
  "unicode \<Rightarrow> env \<Rightarrow> disk \<Rightarrow> (string \<Rightarrow> string \<Rightarrow> go_error + address) \<Rightarrow> Config \<Rightarrow> nat \<Rightarrow> kernel \<Rightarrow> Log Executor \<Rightarrow>
    ((start_error \<times> kernel) \<times> Log Executor) option"
where
  "reactor_Start U E dsk resolve cfg stop k e =
     (case Validate U cfg of
        Some err \<Rightarrow> Some ((InvalidConfig err, k), e)
      | None \<Rightarrow>
          (case openPersistence U E dsk cfg e of
             None \<Rightarrow> None
           | Some (Some err, e) \<Rightarrow> Some ((PersistenceError err, k), e)
           | Some (None, e) \<Rightarrow>
               (case serve_sockets U (call_executor U E (log_ops U)) (\<lambda>e. snd (ActiveExpire E (log_ops U) e)) cfg resolve stop k e of
                  None \<Rightarrow> None
                | Some ((err, k), e) \<Rightarrow>
                    let ((cerr, l), e) = closePersistence e in Some ((Stopped (join_errors [err, cerr]) l, k), e))))"

definition reactor_NewServer :: "Config \<Rightarrow> Config \<times> Log Executor" where
  "reactor_NewServer cfg = (let cfg = WithDefaults cfg in (cfg, newExecutor NewStore cfg))"

subsection \<open>Nothing is left open\<close>

lemma close_all_effect:
  "(\<forall>p \<in> set ps. \<not> isClosed (snd p) \<and> cn_fd (snd p) = fst p) \<Longrightarrow>
    k_open (close_all ps k) = k_open k - fst ` set ps \<and> k_sockets (close_all ps k) = k_sockets k |` (- fst ` set ps) \<and>
    k_fd (close_all ps k) = k_fd k"
proof (induction ps arbitrary: k)
  case (Cons p ps)
  obtain r c k1 where cl: "conn_Close (snd p) k = (r, c, k1)" by (metis prod_cases3)
  have "\<not> isClosed (snd p)" "cn_fd (snd p) = fst p" using Cons.prems by simp_all
  note e = conn_Close_effect[OF cl this(1), unfolded this(2)]
  have "k_sockets k1 |` (- fst ` set ps) = k_sockets k |` (- fst ` set (p # ps))"
    unfolding e(2) by (auto simp: restrict_map_def fun_eq_iff)
  moreover have "k_open k1 - fst ` set ps = k_open k - fst ` set (p # ps)" unfolding e(1) by auto
  ultimately show ?case using Cons.IH[of k1] Cons.prems e(3) by (simp add: cl)
qed (simp add: restrict_map_def)

lemma poller_Close_effect:
  assumes "poller_Close p k = (r, k')"
  shows "k_open k' = k_open k - {epfd p}" "k_sockets k' = (k_sockets k)(epfd p := None)" "k_fd k' = k_fd k"
  using assms sys_close_effect[of "epfd p" k, OF prod.collapse[symmetric]] by (auto simp: poller_Close_def apfst_def map_prod_def split_beta)

lemma cleanup_effect:
  assumes "el_inv B el k" "cleanup el k = (el', k')"
  shows "k_open k' = B - {listenerFD el, epfd (el_poller el)}" "k_sockets k' = Map.empty" "k_fd k' = k_fd k" "conns el' = []"
proof -
  note inv = el_invD[OF assms(1)]
  let ?k = "close_all (conns el) k"
  have "\<forall>p \<in> set (conns el). \<not> isClosed (snd p) \<and> cn_fd (snd p) = fst p"
  proof
    fix p
    assume "p \<in> set (conns el)"
    then have "map_of (conns el) (fst p) = Some (snd p)" using inv(3) by (simp add: map_of_eq_Some_iff)
    from el_inv_conn[OF assms(1) this] show "\<not> isClosed (snd p) \<and> cn_fd (snd p) = fst p" by (simp add: conn_inv_def)
  qed
  note c = close_all_effect[OF this, of k]
  have "k_sockets k |` (- fst ` set (conns el)) = Map.empty"
    using inv(7) unfolding dom_map_of_conv_image_fst by (auto simp: restrict_map_def fun_eq_iff)
  then have sockets: "k_sockets ?k = Map.empty" using c by simp
  have opened: "k_open ?k = B" using c inv(5,6) by (auto simp: dom_map_of_conv_image_fst)
  obtain r1 k1 where 1: "sys_close (listenerFD el) ?k = (r1, k1)" by fastforce
  obtain r2 k2 where 2: "poller_Close (el_poller el) k1 = (r2, k2)" by fastforce
  have "el' = el\<lparr>conns := []\<rparr>" "k' = k2" using assms(2) 1 2 by (auto simp: cleanup_def)
  with opened sockets c sys_close_effect[OF 1] poller_Close_effect[OF 2]
  show "k_open k' = B - {listenerFD el, epfd (el_poller el)}" "k_sockets k' = Map.empty" "k_fd k' = k_fd k" "conns el' = []" by auto
qed

lemma give_up_effect:
  assumes "give_up fd err k = (r, k')"
  shows "r = Inl err" "k_open k' = k_open k - {fd}" "k_sockets k' = (k_sockets k)(fd := None)" "k_fd k' = k_fd k"
  using assms sys_close_effect[of fd k, OF prod.collapse[symmetric]] by (auto simp: give_up_def)

text \<open>A state of the kernel in which the server can be started.\<close>

definition idle_kernel :: "int set \<Rightarrow> kernel \<Rightarrow> bool" where
  "idle_kernel B k \<longleftrightarrow> finite B \<and> k_open k = B \<and> k_sockets k = Map.empty \<and> fd_law k"

lemma idle_kernel_same:
  "k_open k' = k_open k \<Longrightarrow> k_sockets k' = k_sockets k \<Longrightarrow> k_fd k' = k_fd k \<Longrightarrow> idle_kernel B k' = idle_kernel B k"
  by (simp only: idle_kernel_def fd_law_def)

lemma sys_result_idle:
  assumes "sys_result k = (r, k')"
  shows "idle_kernel B k' = idle_kernel B k"
  by (rule idle_kernel_same) (use assms in \<open>auto simp: sys_result_def\<close>)

lemma sys_descriptor_idle:
  assumes "sys_descriptor k = (r, k')" "idle_kernel B k"
  shows "case r of Inl _ \<Rightarrow> idle_kernel B k' | Inr fd \<Rightarrow> fd \<notin> B \<and> idle_kernel (insert fd B) k'"
proof -
  obtain q k1 where q: "sys_result k = (q, k1)" by fastforce
  have i: "idle_kernel B k1" using sys_result_idle[OF q] assms(2) by simp
  show ?thesis
  proof (cases q)
    case (Some e)
    with assms(1) q i show ?thesis by (auto simp: sys_descriptor_def)
  next
    case None
    let ?fd = "k_fd k1 (k_open k1)"
    have r: "r = Inr ?fd" "k' = k1\<lparr>k_open := insert ?fd (k_open k1)\<rparr>" using assms(1) q None by (simp_all add: sys_descriptor_def Let_def)
    have "?fd \<notin> B" using i by (simp add: idle_kernel_def fd_law_def)
    with i show ?thesis by (simp add: r idle_kernel_def fd_law_def)
  qed
qed

lemma close_idle:
  assumes "k_open k' = k_open k - {fd}" "k_sockets k' = (k_sockets k)(fd := None)" "k_fd k' = k_fd k"
    "idle_kernel (insert fd B) k" "fd \<notin> B"
  shows "idle_kernel B k'"
  using assms by (simp add: idle_kernel_def fd_law_def)

text \<open>After an error everything is as before; after success \<open>Q\<close> holds.\<close>

definition released_or :: "int set \<Rightarrow> ('a \<Rightarrow> kernel \<Rightarrow> bool) \<Rightarrow> (go_error + 'a) \<times> kernel \<Rightarrow> bool" where
  "released_or B Q r = (case r of (Inl err, k) \<Rightarrow> idle_kernel B k | (Inr x, k) \<Rightarrow> Q x k)"

lemma released_or_simps [simp]: "released_or B Q (Inl err, k) = idle_kernel B k" "released_or B Q (Inr x, k) = Q x k"
  by (simp_all add: released_or_def)

lemma give_up_released:
  assumes "idle_kernel (insert fd B) k" "fd \<notin> B"
  shows "released_or B Q (give_up fd err k)"
proof -
  obtain q k' where "sys_close fd k = (q, k')" by fastforce
  with close_idle[OF sys_close_effect(1,2,3)[OF this] assms] show ?thesis by (simp add: give_up_def)
qed

lemma listen_on_released:
  assumes "idle_kernel B k"
  shows "released_or B (\<lambda>fd k. fd \<notin> B \<and> idle_kernel (insert fd B) k) (listen_on cfg addr k)"
proof -
  obtain r k1 where d: "sys_descriptor k = (r, k1)" by fastforce
  note di = sys_descriptor_idle[OF d assms]
  show ?thesis
  proof (cases r)
    case (Inl e)
    with d di show ?thesis by (simp add: listen_on_def)
  next
    case (Inr fd)
    with di have fd: "fd \<notin> B" "idle_kernel (insert fd B) k1" by simp_all
    obtain q1 k2 where 1: "sys_result k1 = (q1, k2)" by fastforce
    let ?k = "if addr = IPv6 True then snd (sys_result k2) else k2"
    obtain q2 k3 where 2: "sys_result ?k = (q2, k3)" by fastforce
    obtain q3 k4 where 3: "sys_result k3 = (q3, k4)" by fastforce
    obtain q4 k5 where 4: "sys_result k4 = (q4, k5)" by fastforce
    have i2: "idle_kernel (insert fd B) k2" using sys_result_idle[OF 1] fd(2) by simp
    have "idle_kernel (insert fd B) ?k" using i2 sys_result_idle[of k2, OF prod.collapse[symmetric]] by simp
    then have i3: "idle_kernel (insert fd B) k3" using sys_result_idle[OF 2] by simp
    have i4: "idle_kernel (insert fd B) k4" using sys_result_idle[OF 3] i3 by simp
    have i5: "idle_kernel (insert fd B) k5" using sys_result_idle[OF 4] i4 by simp
    note g = give_up_released[OF i2 fd(1)] give_up_released[OF i3 fd(1)] give_up_released[OF i4 fd(1)] give_up_released[OF i5 fd(1)]
    note run = listen_on_def[of cfg addr k, unfolded d prod.case Inr sum.case 1 Let_def 2 3 4]
    show ?thesis
      unfolding run using i5 fd(1) by (cases q1; cases q2; cases q3; cases q4) (simp_all only: option.case g released_or_simps simp_thms)
  qed
qed

lemma watch_listener_released:
  assumes "idle_kernel (insert fd B) k" "fd \<notin> B"
  shows "released_or B (\<lambda>p k. epfd p \<notin> insert fd B \<and> idle_kernel (insert (epfd p) (insert fd B)) k) (watch_listener fd k)"
proof -
  obtain r k1 where d: "sys_descriptor k = (r, k1)" by fastforce
  note di = sys_descriptor_idle[OF d assms(1)]
  show ?thesis
  proof (cases r)
    case (Inl e)
    with di have "idle_kernel (insert fd B) k1" by simp
    from give_up_released[OF this assms(2)] show ?thesis by (simp add: watch_listener_def NewPoller_def d Inl)
  next
    case (Inr ep)
    with di have ep: "ep \<notin> insert fd B" "idle_kernel (insert ep (insert fd B)) k1" by simp_all
    let ?p = "\<lparr>epfd = ep, maxEvents = DefaultMaxEvents\<rparr>"
    have p: "NewPoller DefaultMaxEvents k = (Inr ?p, k1)" by (simp add: NewPoller_def d Inr DefaultMaxEvents_def)
    obtain err k2 where r: "Register fd k1 = (err, k2)" by fastforce
    have i2: "idle_kernel (insert ep (insert fd B)) k2" using idle_kernel_same[OF Register_effect(1,2,3)[OF r]] ep(2) by simp
    obtain q k3 where c: "poller_Close ?p k2 = (q, k3)" by fastforce
    have "idle_kernel (insert fd B) k3"
      by (rule close_idle[OF _ _ _ i2 ep(1)]) (use poller_Close_effect[OF c] in simp_all)
    note g = give_up_released[OF this assms(2)]
    show ?thesis using ep(1) i2 g by (cases err) (simp_all add: watch_listener_def p r c)
  qed
qed

lemma el_inv_start:
  assumes "idle_kernel B k"
  shows "el_inv B (NewEventLoopWithConfig p fd cfg stop) k"
  using assms by (simp add: el_inv_def NewEventLoopWithConfig_def idle_kernel_def)

context active_executor
begin

lemma Run_releases:
  assumes "inv w" "idle_kernel (insert (epfd p) (insert fd B)) k" "fd \<notin> B" "epfd p \<notin> B"
  shows "\<exists>err el' k' w'. Run U exec active (NewEventLoopWithConfig p fd cfg stop) k w = Some ((err, el', k'), w') \<and> inv w' \<and>
    idle_kernel B k'"
proof -
  let ?el = "(NewEventLoopWithConfig p fd cfg stop)\<lparr>running := True\<rparr>"
  have "el_inv (insert (epfd p) (insert fd B)) ?el k" by (rule el_inv_same[OF el_inv_start[OF assms(2)]]) simp_all
  from run_loop_spec[OF assms(1) this, where U = U] obtain err el1 k1 w1 where
    r: "run_loop U exec active ?el k w = Some ((err, el1, k1), w1)" "inv w1" "el_inv (insert (epfd p) (insert fd B)) el1 k1"
      "later_loop ?el el1" by blast
  have "el_inv (insert (epfd p) (insert fd B)) (el1\<lparr>running := False\<rparr>) k1" by (rule el_inv_same[OF r(3)]) simp_all
  moreover obtain el' k' where c: "cleanup (el1\<lparr>running := False\<rparr>) k1 = (el', k')" by fastforce
  ultimately have "k_open k' = B" "k_sockets k' = Map.empty" "k_fd k' = k_fd k1"
    using cleanup_effect[OF _ c] r(4) assms(3,4) by (auto simp: later_loop_def NewEventLoopWithConfig_def)
  then have "idle_kernel B k'" using el_invD(1,2)[OF r(3)] by (simp add: idle_kernel_def fd_law_def)
  with r c show ?thesis by (simp add: Run_def)
qed

lemma serve_sockets_releases:
  assumes "inv w" "idle_kernel B k"
  shows "\<exists>err k' w'. serve_sockets U exec active cfg resolve stop k w = Some ((err, k'), w') \<and> inv w' \<and> idle_kernel B k'"
proof (cases "ParseInt (Port cfg)")
  case None
  with assms show ?thesis by (simp add: serve_sockets_def)
next
  case (Some port)
  show ?thesis
  proof (cases "resolve (Host cfg) (format_int port)")
    case (Inl err)
    with Some assms show ?thesis by (simp add: serve_sockets_def)
  next
    case (Inr addr)
    note run = serve_sockets_def[of U exec active cfg resolve stop k w, unfolded Some option.case Inr sum.case]
    obtain r1 k1 where l: "listen_on cfg addr k = (r1, k1)" by fastforce
    note lo = listen_on_released[OF assms(2), of cfg addr, unfolded l]
    consider (noip) "addr = NoIP" | (nosock) err where "addr \<noteq> NoIP" "r1 = Inl err" | (sock) fd where "addr \<noteq> NoIP" "r1 = Inr fd"
      by (cases r1) auto
    then show ?thesis
    proof cases
      case sock
      then have fd: "fd \<notin> B" "idle_kernel (insert fd B) k1" using lo by simp_all
      obtain r2 k2 where w: "watch_listener fd k1 = (r2, k2)" by fastforce
      note wo = watch_listener_released[OF fd(2,1), unfolded w]
      show ?thesis
      proof (cases r2)
        case (Inl err)
        with run sock l w wo assms(1) show ?thesis by simp
      next
        case (Inr p)
        then have "epfd p \<notin> B" "idle_kernel (insert (epfd p) (insert fd B)) k2" using wo by simp_all
        from Run_releases[OF assms(1) this(2) fd(1) this(1), where U = U and cfg = cfg and stop = stop] run sock l w Inr
        show ?thesis by auto
      qed
    qed (use run l lo assms in simp_all)
  qed
qed

end

interpretation rx: active_executor "call_executor U E J" "\<lambda>e. env_ok E \<and> serving J e" "\<lambda>e. snd (ActiveExpire E J e)" for U E J
proof
  fix e
  assume "env_ok E \<and> serving J e"
  then show "env_ok E \<and> serving J (snd (ActiveExpire E J e))"
    using ActiveExpire_inv(1)[of e E J, OF _ _ prod.collapse[symmetric]] by (auto simp: serving_def frame_inv_def same_frame_def)
qed

text \<open>Serving neither installs nor removes the journal.\<close>

interpretation kj: active_executor "call_executor U E J" "\<lambda>e. env_ok E \<and> serving J e \<and> (ex_journal e = None \<longleftrightarrow> b)"
  "\<lambda>e. snd (ActiveExpire E J e)" for U E J b
proof
  fix e
  assume a: "env_ok E \<and> serving J e \<and> (ex_journal e = None \<longleftrightarrow> b)"
  then show "env_ok E \<and> serving J (snd (ActiveExpire E J e)) \<and> (ex_journal (snd (ActiveExpire E J e)) = None \<longleftrightarrow> b)"
    using ActiveExpire_inv(1)[of e E J, OF _ _ prod.collapse[symmetric]] by (auto simp: serving_def frame_inv_def same_frame_def)
  fix cmd
  obtain r' e' where c: "call_executor U E J cmd e = Some (r', e')" "serving J e'" "sendable r'" "ex_journal e' = None \<longleftrightarrow> ex_journal e = None"
    using call_executor_returns[OF a[THEN conjunct1] a[THEN conjunct2, THEN conjunct1], of U cmd] by (elim exE conjE)
  then show "\<exists>r w'. call_executor U E J cmd e = Some (r, w')" by blast
  fix r w
  assume "call_executor U E J cmd e = Some (r, w)"
  with a c show "env_ok E \<and> serving J w \<and> (ex_journal w = None \<longleftrightarrow> b)" by simp
next
  fix e cmd v w
  assume "env_ok E \<and> serving J e \<and> (ex_journal e = None \<longleftrightarrow> b)" "call_executor U E J cmd e = Some (Inr v, w)"
  then show "typed v" using call_executor_returns[of E J e U cmd] by auto
qed

lemma closePersistence_effect:
  assumes "closePersistence e = ((c, l), e')"
  shows "ex_journal e' = None" "ex_store e' = ex_store e" "ex_journal e \<noteq> None \<Longrightarrow> \<exists>l'. l = Some l' \<and> l_closed l'"
  using assms by (auto simp: closePersistence_def SetJournal_def log_Close_closed split: option.splits prod.splits)

lemma reactor_releases:
  assumes "env_ok E" "serving (log_ops U) e" "ex_journal e = None" "idle_kernel B k"
  shows "\<exists>r k' e'. reactor_Start U E dsk resolve cfg stop k e = Some ((r, k'), e') \<and> idle_kernel B k' \<and> ex_journal e' = None \<and>
    store_inv (ex_store e') \<and> (AOFEnabled cfg \<longrightarrow> (\<forall>err lo. r = Stopped err lo \<longrightarrow> (\<exists>l. lo = Some l \<and> l_closed l)))"
proof (cases "Validate U cfg")
  case (Some err)
  with assms show ?thesis by (simp add: reactor_Start_def serving_def)
next
  case None
  have inv: "store_inv (ex_store e)" using assms(2) by (simp add: serving_def)
  obtain err e1 where o: "openPersistence U E dsk cfg e = Some (err, e1)" "store_inv (ex_store e1)" "writeQueue e1 = writeQueue e"
    "err \<noteq> None \<longrightarrow> ex_journal e1 = ex_journal e" "AOFEnabled cfg \<and> err = None \<longrightarrow> ex_journal e1 \<noteq> None"
    using openPersistence_returns[OF inv assms(1)] by blast
  show ?thesis
  proof (cases err)
    case (Some x)
    with None o assms(3,4) show ?thesis by (simp add: reactor_Start_def)
  next
    case N: None
    have "serving (log_ops U) e1" using assms(2) o(2,3) by (simp add: serving_def)
    from kj.serve_sockets_releases[OF conjI[OF assms(1) conjI[OF this refl]] assms(4), of U U cfg resolve stop]
    obtain x k' e2 where s: "serve_sockets U (call_executor U E (log_ops U)) (\<lambda>e. snd (ActiveExpire E (log_ops U) e)) cfg resolve stop k e1 =
        Some ((x, k'), e2)" "serving (log_ops U) e2" "ex_journal e2 = None \<longleftrightarrow> ex_journal e1 = None" "idle_kernel B k'" by (elim exE conjE)
    obtain c l e3 where c: "closePersistence e2 = ((c, l), e3)" by (metis prod.exhaust)
    with s o N None closePersistence_effect[OF c] show ?thesis by (simp add: reactor_Start_def serving_def)
  qed
qed

end
