(* ===== verification/NetworkTheorems.thy ===== *)
theory NetworkTheorems
  imports ClientHandler ReactorServer Examples
begin

text \<open>Properties of the connections of the two servers.\<close>

lemma serving_new: "serving J (newExecutor NewStore cfg)"
  by (simp add: serving_def NewStore_refines(1))

lemma handleClient_serves:
  assumes "env_ok E" "serving J e"
  shows "\<exists>end cn' e' rs rest bytes.
    handleClient U (call_executor U E J) cfg cn input err e = Some ((end, cn'), e') \<and> c_closed cn' \<and>
    serves U (call_executor U E J) err (MaxRequestBytes cfg) input e rs rest e' \<and>
    (\<forall>x. end = DecodeError x \<longrightarrow> fst (Decode U (reader err (MaxRequestBytes cfg) rest)) = Inl x) \<and>
    c_sent cn' = c_sent cn @ bytes \<and> delivered (MaxResponseBytes cfg) end rs bytes"
proof -
  let ?c = "NewClientWithLimit cn input err (MaxRequestBytes cfg)"
  have "client_ready ?c" by (simp add: client_ready_def NewClientWithLimit_def NewWriterSize_def)
  moreover have "reads err (MaxRequestBytes cfg) (cl_decoder ?c)" by (simp add: NewClientWithLimit_def)
  ultimately obtain x c' e' rs y bytes where r: "request_loop U (call_executor U E J) cfg ?c e = Some ((x, c'), e')"
    "serves U (call_executor U E J) err (MaxRequestBytes cfg) (d_input (cl_decoder ?c)) e rs y e'"
    "\<forall>z. x = DecodeError z \<longrightarrow> fst (Decode U (reader err (MaxRequestBytes cfg) y)) = Inl z"
    "c_sent (cl_conn c') = c_sent (cl_conn ?c) @ bytes" "delivered (MaxResponseBytes cfg) x rs bytes"
    using ex.request_loop_serves[OF conjI[OF assms], where U = U and cfg = cfg] by blast
  let ?cn = "cl_conn (snd (client_Close c'))"
  have "handleClient U (call_executor U E J) cfg cn input err e = Some ((x, ?cn), e')" using r(1) by (simp add: handleClient_def)
  moreover have "c_closed ?cn" "c_sent ?cn = c_sent (cl_conn c')" by (simp_all add: client_Close_def conn_call_def)
  moreover have "c_sent (cl_conn ?c) = c_sent cn" "d_input (cl_decoder ?c) = input"
    by (simp_all add: NewClientWithLimit_def NewWriterSize_def)
  ultimately show ?thesis using r(2-5) by (intro exI conjI) auto
qed

text \<open>
  C6: a client of the goroutine server gets the replies to its requests, in order and each
  exactly once. Whatever bytes it sends and however its connection fails, its handler ends and
  closes the connection; it has executed the requests at the front of the input one after the
  other, and the client has received the encoding of every reply, except that a failing write
  may leave a part of the last one, and nothing of a reply over the response limit. If it ended
  because of the input, what follows the requests is what the decoder refuses.
\<close>

theorem client_served:
  assumes "env_ok E" "serving J e"
  shows "\<exists>end cn' e' rs rest bytes.
    handleClient U (call_executor U E J) cfg cn input err e = Some ((end, cn'), e') \<and> c_closed cn' \<and>
    serves U (call_executor U E J) err (MaxRequestBytes cfg) input e rs rest e' \<and>
    (\<forall>x. end = DecodeError x \<longrightarrow> fst (Decode U (reader err (MaxRequestBytes cfg) rest)) = Inl x) \<and>
    c_sent cn' = c_sent cn @ bytes \<and> delivered (MaxResponseBytes cfg) end rs bytes"
  by (rule handleClient_serves[OF assms])

theorem client_served_witness:
  "\<exists>end cn' e' rs rest bytes.
    handleClient plain_unicode (call_executor plain_unicode (wenv 0) (log_ops plain_unicode)) DefaultConfig
      \<lparr>c_sent = [], c_calls = 0, c_faults = \<lambda>n. (0, None), c_closed = False\<rparr> (''PING'' @ CRLF @ ''*1'' @ CRLF) EOF
      (newExecutor NewStore DefaultConfig) = Some ((end, cn'), e') \<and>
    c_sent cn' = bytes \<and> delivered (MaxResponseBytes DefaultConfig) end rs bytes \<and> c_closed cn'"
proof -
  let ?cn = "\<lparr>c_sent = [], c_calls = 0, c_faults = \<lambda>n. (0, None), c_closed = False\<rparr>"
  have "env_ok (wenv 0)" by (intro wenv_ok) (simp add: zero_time_def)
  from client_served[OF this serving_new[of "log_ops plain_unicode" DefaultConfig], where cn = ?cn and cfg = DefaultConfig]
  show ?thesis by (simp only: conn.simps append_Nil) blast
qed

subsection \<open>Both servers\<close>

text \<open>The requests of an input are determined once the decoder gives up on the rest.\<close>

lemma serves_maximal:
  assumes "serves U exec err limit x w rs y w1" "serves U exec err limit x w rs' z w2"
    "fst (Decode U (reader err limit y)) = Inl e1" "fst (Decode U (reader err limit z)) = Inl e2"
  shows "rs = rs' \<and> y = z \<and> w1 = w2"
proof -
  have stuck: "us = [] \<and> v = u \<and> w3 = w0"
    if "serves U exec err limit u w0 us v w3" "fst (Decode U (reader err limit u)) = Inl e" for u w0 us v w3 e
    using that by cases auto
  show ?thesis
  proof (cases "length rs \<le> length rs'")
    case True
    from serves_prefix[OF assms(1,2) this] stuck[OF _ assms(3)] show ?thesis by auto
  next
    case False
    then have "length rs' \<le> length rs" by simp
    from serves_prefix[OF assms(2,1) this] stuck[OF _ assms(4)] show ?thesis by auto
  qed
qed

lemma serves_acceptable:
  assumes "serves U exec EOF limit x w rs y w'" "unfinished U limit y"
  shows "acceptable U exec limit x w"
  unfolding acceptable_def
proof (intro allI impI notI)
  fix rs1 y1 w1
  assume a: "serves U exec EOF limit x w rs1 y1 w1" "refused (Decode U (reader EOF limit y1))"
  obtain e where e: "fst (Decode U (reader EOF limit y)) = Inl e" "is_eof e" using assms(2) by (auto simp: unfinished_def)
  obtain e1 where e1: "fst (Decode U (reader EOF limit y1)) = Inl e1" "\<not> is_eof e1" using a(2) by (auto simp: refused_def)
  from serves_maximal[OF assms(1) a(1) e(1) e1(1)] e e1 show False by auto
qed

text \<open>
  C7: the two servers give the same service. A client sends the same bytes to the goroutine
  server, which reads them as a stream, and to the reactor, which receives them in pieces cut
  anywhere. If the goroutine server handles all requests until the end of the input, and the
  reactor reports no error, then both execute the same requests with the same effect, and the
  bytes that the reactor has sent or queued are the bytes that the goroutine server has sent.
\<close>

theorem servers_agree:
  assumes "env_ok E" "serving J e" "exec = call_executor U E J"
    "inBuf c = []" "outBuf c = []" "maxInbound c = MaxRequestBytes cfg" "k_sockets k (cn_fd c) \<noteq> None" "sent (cn_fd c) k = []"
    "arriving (cn_fd c) k = map Inr pieces" "c_sent cn = []"
    "OnRead U exec c k e = Some ((None, c', k'), e1)"
    "handleClient U exec cfg cn (concat pieces) EOF e = Some ((DecodeError err, cn'), e2)" "is_eof err"
  shows "sent (cn_fd c') k' @ outBuf c' = c_sent cn' \<and> e1 = e2"
proof -
  let ?limit = "MaxRequestBytes cfg" and ?x = "concat pieces"
  obtain rs y bytes where g: "serves U exec EOF ?limit ?x e rs y e2" "fst (Decode U (reader EOF ?limit y)) = Inl err"
    "c_sent cn' = c_sent cn @ bytes" "delivered (MaxResponseBytes cfg) (DecodeError err) rs bytes"
    using handleClient_serves[OF assms(1,2), of U cfg cn ?x EOF] assms(12) unfolding assms(3) by auto
  then have acc: "acceptable U exec (maxInbound c) (inBuf c @ ?x) e"
    using serves_acceptable[OF g(1)] assms(4,6,13) by (simp add: unfinished_def)
  obtain now k1 where t: "time_Now k = (now, k1)" by fastforce
  note te = time_Now_effect[OF t]
  have r: "read_loop U exec c k1 e = Some ((None, c', k'), e1)" using assms(11) t by (auto simp: OnRead_def split: if_splits)
  have "k_sockets k1 (cn_fd c) \<noteq> None" using assms(7) te(1)[of "cn_fd c"] by (simp add: local_to_def)
  then have "\<exists>r c' k' w' used. read_loop U exec c k1 e = Some ((r, c', k'), w') \<and> (env_ok E \<and> serving J w') \<and>
      read_result U exec c k1 e r c' k' w' used"
    unfolding assms(3) by (intro ex.read_loop_spec conjI assms(1,2))
  with r obtain used where u: "read_result U exec c k1 e None c' k' e1 used" by auto
  have arr: "map Inr pieces = used @ arriving (cn_fd c) k'" using u assms(9) te(3) by (simp add: read_result_def)
  moreover have "last used \<noteq> Inl EAGAIN" if "used \<noteq> []"
  proof
    assume "last used = Inl EAGAIN"
    then have "Inl EAGAIN \<in> set (map Inr pieces :: (errno + string) list)" using arr that last_in_set[of used] by auto
    then show False by auto
  qed
  ultimately have used: "used = map Inr pieces" using u by (auto simp: read_result_def)
  have "arrived (map Inr pieces) = ?x" by (simp add: arrived_def comp_def)
  with u acc have "answered U exec (inBuf c @ ?x) c k1 e c' k' e1" by (simp add: read_result_def used)
  then obtain rs' where a: "serves U exec EOF ?limit ?x e rs' (inBuf c') e1" "unfinished U ?limit (inBuf c')"
    "stream c' k' = stream c k1 @ replies rs'" using assms(4,6) by (auto simp: answered_def)
  obtain err' where "fst (Decode U (reader EOF ?limit (inBuf c'))) = Inl err'" using a(2) by (auto simp: unfinished_def)
  from serves_maximal[OF g(1) a(1) g(2) this] g(3,4) a(3) assms(5,8,10) te(2)[of "cn_fd c"] show ?thesis
    by (simp add: delivered_def stream_def)
qed

subsubsection \<open>An example\<close>

text \<open>A client that sends \<open>PING\<close>, to the reactor in two pieces.\<close>

abbreviation wcall :: "Log Executor exec" where
  "wcall \<equiv> call_executor plain_unicode (wenv 0) (log_ops plain_unicode)"

abbreviation wex :: "Log Executor" where
  "wex \<equiv> newExecutor NewStore DefaultConfig"

abbreviation wconn :: conn where
  "wconn \<equiv> \<lparr>c_sent = [], c_calls = 0, c_faults = \<lambda>n. (0, None), c_closed = False\<rparr>"

definition wkernel :: "kernel" where
  "wkernel = \<lparr>k_now = \<lambda>_. 0, k_ticks = 0, k_open = {5}, k_fd = \<lambda>S. Max (insert 0 S) + 1,
     k_sockets = [5 \<mapsto> \<lparr>s_reads = [Inr ''PI'', Inr (''NG'' @ CRLF)], s_writes = [Inr 100], s_sent = []\<rparr>], k_accepts = [],
     k_interest = Map.empty, k_waits = [], k_results = \<lambda>_. None, k_calls = 0\<rparr>"

abbreviation wclient :: Connection where
  "wclient \<equiv> fst (NewConnection 5 wkernel)"

lemma decode_64:
  "decode_nested U 64 d = dbind (ReadByte d) (\<lambda>prefix d.
     dbind (consume 1 d) (\<lambda>_ d.
       if prefix = SimpleString then decodeSimpleString d
       else if prefix = Error then decodeError d
       else if prefix = Integer then decodeInteger d
       else if prefix = BulkString then decodeBulkString d
       else if prefix = Array then decodeArray (decode_nested U 63) d
       else decodeInline U (d\<lparr>d_input := prefix # d_input d, messageBytes := messageBytes d - 1\<rparr>)))"
  using decode_nested.simps(2)[of U 63 d] by simp

lemmas dec_eval = NewDecoderWithLimit_def Decode_def maxRESPDepth_def decode_64 ReadByte_def consume_def
  decodeInline_def readLine_def read_chunks.simps ReadSlice_def Let_def buffer_size_def maxRESPLineLength_def

lemmas encode_eval = encode_flush_def new_values encodeSimpleString_def Fprintf_def bufio_write.simps NewWriterSize_def Flush_def

lemma default_limits: "MaxRequestBytes DefaultConfig = 2097152" "MaxResponseBytes DefaultConfig = 4194304"
  by (simp_all add: DefaultConfig_def)

lemma decode_part: "fst (Decode plain_unicode (reader EOF 2097152 ''PI'')) = Inl (InlineError (IO EOF))"
  by (simp add: dec_eval)

lemma decode_end: "fst (Decode plain_unicode (reader EOF 2097152 [])) = Inl (IO EOF)"
  by (simp add: dec_eval)

lemma decode_ping:
  "\<exists>d. Decode plain_unicode (reader EOF 2097152 (''PING'' @ CRLF)) = (Inr (NewArray [NewBulkString ''PING'']), d) \<and> d_input d = []"
  by (simp add: dec_eval Fields_def is_ascii_def split_space.simps is_space_def)

lemma parse_ping: "Parse plain_unicode (NewArray [NewBulkString ''PING'']) = Inr (mk_cmd ''PING'' [])"
  by (simp add: Parse_def new_values ToUpper_def is_ascii_def upper_char_def Let_def)

lemma reply_ping: "\<exists>e'. reply_to plain_unicode wcall (NewArray [NewBulkString ''PING'']) wex = Some (NewSimpleString ''PONG'', e')"
proof -
  have "\<exists>e'. wcall (mk_cmd ''PING'' []) wex = Some (Inr (NewSimpleString ''PONG''), e')"
    by (simp add: call_executor_def Execute_def IsMutation_def run_admitted_def admitOrReject_def admit_def growsMemory_def
        apply_command_def execute_def handlePing_def Let_def)
  then show ?thesis by (auto simp: reply_to_def parse_ping)
qed

lemma write_pong:
  "encode_flush limitedBuffer_Write ft (NewSimpleString ''PONG'') \<lparr>lb_data = [], lb_limit = 4194304\<rparr> =
     Inr \<lparr>lb_data = ''+PONG'' @ CRLF, lb_limit = 4194304\<rparr>"
  "encode_flush limitedWriter_Write ft (NewSimpleString ''PONG'') \<lparr>lw_data = [], lw_limit = 4194304, lw_written = 0\<rparr> =
     Inr \<lparr>lw_data = ''+PONG'' @ CRLF, lw_limit = 4194304, lw_written = 7\<rparr>"
  by (simp_all add: encode_eval limitedBuffer_Write_def limitedWriter_Write_def)

lemma handler_ping:
  "\<exists>cn' e'. handleClient plain_unicode wcall DefaultConfig wconn (''PING'' @ CRLF) EOF wex = Some ((DecodeError (IO EOF), cn'), e')"
proof -
  obtain d where d: "Decode plain_unicode (reader EOF 2097152 (''PING'' @ CRLF)) = (Inr (NewArray [NewBulkString ''PING'']), d)"
    "d_input d = []" using decode_ping by blast
  obtain e' where e: "reply_to plain_unicode wcall (NewArray [NewBulkString ''PING'']) wex = Some (NewSimpleString ''PONG'', e')"
    using reply_ping by blast
  have "reads EOF 2097152 d" by (rule Decode_reads[OF d(1)]) simp
  then have "fst (Decode plain_unicode d) = Inl (IO EOF)" using reads_Decode decode_end d(2) by metis
  then obtain d' where d': "Decode plain_unicode d = (Inl (IO EOF), d')" by (metis prod.collapse)
  let ?c = "NewClientWithLimit wconn (''PING'' @ CRLF) EOF 2097152"
  obtain c1 where w: "writeResponse DefaultConfig (NewSimpleString ''PONG'') (snd (SetDeadline ?c)\<lparr>cl_decoder := d\<rparr>) = (None, c1)"
    "c_faults (cl_conn c1) = (\<lambda>n. (0, None))" "cl_decoder c1 = d"
    by (simp add: writeResponse_def default_limits write_pong SetDeadline_def conn_call_def NewClientWithLimit_def NewWriterSize_def
        client_Write_def bufio_write.simps Flush_def conn_write_def)
  have s: "SetDeadline ?c = (None, snd (SetDeadline ?c))" "cl_decoder (snd (SetDeadline ?c)) = reader EOF 2097152 (''PING'' @ CRLF)"
    by (simp_all add: SetDeadline_def conn_call_def NewClientWithLimit_def NewWriterSize_def)
  have s1: "SetDeadline c1 = (None, snd (SetDeadline c1))" "cl_decoder (snd (SetDeadline c1)) = d"
    by (simp_all add: SetDeadline_def conn_call_def w)
  have "request_loop plain_unicode wcall DefaultConfig ?c wex = request_loop plain_unicode wcall DefaultConfig c1 e'"
    by (subst request_loop.simps, subst s(1)) (simp only: prod.case option.case s(2) d(1) sum.case e w(1))
  also have "\<dots> = Some ((DecodeError (IO EOF), (snd (SetDeadline c1))\<lparr>cl_decoder := d'\<rparr>), e')"
    by (subst request_loop.simps, subst s1(1)) (simp only: prod.case option.case s1(2) d' sum.case)
  finally show ?thesis by (simp add: handleClient_def default_limits)
qed

lemma reactor_ping: "\<exists>c' k' e'. OnRead plain_unicode wcall wclient wkernel wex = Some ((None, c', k'), e')"
proof -
  obtain d where d: "Decode plain_unicode (reader EOF 2097152 (''PING'' @ CRLF)) = (Inr (NewArray [NewBulkString ''PING'']), d)"
    "d_input d = []" using decode_ping by blast
  obtain e' where e: "reply_to plain_unicode wcall (NewArray [NewBulkString ''PING'']) wex = Some (NewSimpleString ''PONG'', e')"
    using reply_ping by blast
  obtain d' where d': "Decode plain_unicode (reader EOF 2097152 ''PI'') = (Inl (InlineError (IO EOF)), d')"
    using decode_part by (metis prod.collapse)
  note calls = time_Now_def sys_result_def sys_read_def sys_write_def epoll_ctl_def Modify_def Sub_def
  note conn = NewConnection_def NewConnectionWithLimits_def defaultMaxInboundBufferSize_def defaultMaxOutboundBufferSize_def
    defaultIdleTimeout_def defaultWriteTimeout_def
  note handler = OnRead_def read_loop.simps receive_def processCommands_def process_loop.simps conn_writeResponse_def
    conn_Flush.simps after_write_def
  have "\<exists>c' k'. OnRead plain_unicode wcall wclient wkernel wex = Some ((None, c', k'), e')"
    by (simp add: wkernel_def calls conn handler d[simplified] d' e write_pong)
  then show ?thesis by blast
qed

theorem servers_agree_witness:
  "\<exists>c' k' e cn'. OnRead plain_unicode wcall wclient wkernel wex = Some ((None, c', k'), e) \<and>
    handleClient plain_unicode wcall DefaultConfig wconn (''PING'' @ CRLF) EOF wex = Some ((DecodeError (IO EOF), cn'), e) \<and>
    sent (cn_fd c') k' @ outBuf c' = c_sent cn'"
proof -
  obtain c' k' e1 where r: "OnRead plain_unicode wcall wclient wkernel wex = Some ((None, c', k'), e1)" using reactor_ping by blast
  obtain cn' e2 where h: "handleClient plain_unicode wcall DefaultConfig wconn (''PING'' @ CRLF) EOF wex =
    Some ((DecodeError (IO EOF), cn'), e2)" using handler_ping by blast
  have c: "''PING'' @ CRLF = concat [''PI'', ''NG'' @ CRLF]" by simp
  have "env_ok (wenv 0)" by (intro wenv_ok) (simp add: zero_time_def)
  from servers_agree[OF this serving_new[of "log_ops plain_unicode"] refl _ _ _ _ _ _ _ r h[unfolded c]] r h
  show ?thesis
    by (simp add: NewConnection_def NewConnectionWithLimits_def time_Now_def wkernel_def sent_def arriving_def default_limits
        defaultMaxInboundBufferSize_def)
qed

subsection \<open>The event loop\<close>

text \<open>
  C8: the event loop always returns, and whenever it is told to stop its registry is sound: it
  never has more connections than the limit, every connection is open, stands under its own
  descriptor, holds no more unfinished input than a request may have, and is watched for
  writability exactly if it has replies to send; and the open descriptors are those from before
  and those of the connections, so none has leaked.
\<close>

theorem event_loop_sound:
  assumes "env_ok E" "serving J e" "idle_kernel B k"
  shows "\<exists>err el k' e'.
    run_loop U (call_executor U E J) (\<lambda>e. snd (ActiveExpire E J e)) (NewEventLoopWithConfig p fd cfg stop) k e =
      Some ((err, el, k'), e') \<and>
    int (length (conns el)) \<le> max 0 (MaxConnections (WithDefaults cfg)) \<and> distinct (map fst (conns el)) \<and>
    (\<forall>n c. map_of (conns el) n = Some c \<longrightarrow> cn_fd c = n \<and> \<not> isClosed c \<and> int (length (inBuf c)) \<le> max 0 (maxInbound c) \<and>
      k_interest k' n = Some (if outBuf c = [] then DefaultEventMask else DefaultEventMask OR EPOLLOUT)) \<and>
    k_open k' = B \<union> dom (map_of (conns el)) \<and> B \<inter> dom (map_of (conns el)) = {} \<and> store_inv (ex_store e')"
proof -
  let ?el = "NewEventLoopWithConfig p fd cfg stop"
  from rx.run_loop_spec[OF conjI[OF assms(1,2)] el_inv_start[OF assms(3)], where U = U]
  obtain err el k' e' where r: "run_loop U (call_executor U E J) (\<lambda>e. snd (ActiveExpire E J e)) ?el k e = Some ((err, el, k'), e')"
    "serving J e'" "el_inv B el k'" "later_loop ?el el" by blast
  note inv = el_invD[OF r(3)]
  have "el_config el = WithDefaults cfg" using r(4) by (simp add: later_loop_def NewEventLoopWithConfig_def)
  moreover have "cn_fd c = n \<and> \<not> isClosed c \<and> int (length (inBuf c)) \<le> max 0 (maxInbound c) \<and>
      k_interest k' n = Some (if outBuf c = [] then DefaultEventMask else DefaultEventMask OR EPOLLOUT)"
    if "map_of (conns el) n = Some c" for n c
    using el_inv_conn[OF r(3) that] by (auto simp: conn_inv_def watched_def)
  moreover have "store_inv (ex_store e')" using r(2) by (simp add: serving_def)
  ultimately show ?thesis using r(1) inv(3-6) by (intro exI[of _ err] exI[of _ el] exI[of _ k'] exI[of _ e'] conjI allI impI) simp_all
qed

text \<open>A kernel with one client waiting, and the events of its connection.\<close>

definition wstart :: kernel where
  "wstart = wkernel\<lparr>k_open := {0, 1, 2}, k_sockets := Map.empty,
     k_accepts := [Inr \<lparr>s_reads = [Inr ''PING''], s_writes = [Inr 3], s_sent = []\<rparr>],
     k_waits := [Inr [\<lparr>ev_FD = 3, ev_Events = EPOLLIN\<rparr>], Inr [\<lparr>ev_FD = 5, ev_Events = EPOLLIN\<rparr>]]\<rparr>"

lemma wstart_idle: "idle_kernel {0, 1, 2} wstart" "idle_kernel {0, 1, 2, 3, 4} (wstart\<lparr>k_open := {0, 1, 2, 3, 4}\<rparr>)"
proof -
  have "Max (insert 0 S) + 1 \<notin> S" if "finite S" for S :: "int set"
  proof
    assume "Max (insert 0 S) + 1 \<in> S"
    then have "Max (insert 0 S) + 1 \<le> Max (insert 0 S)" using that by (intro Max_ge) simp_all
    then show False by simp
  qed
  then show "idle_kernel {0, 1, 2} wstart" "idle_kernel {0, 1, 2, 3, 4} (wstart\<lparr>k_open := {0, 1, 2, 3, 4}\<rparr>)"
    by (simp_all add: idle_kernel_def fd_law_def wstart_def wkernel_def)
qed

theorem event_loop_sound_witness:
  "\<exists>err el k' e'.
    run_loop plain_unicode wcall (\<lambda>e. snd (ActiveExpire (wenv 0) (log_ops plain_unicode) e))
      (NewEventLoopWithConfig \<lparr>epfd = 4, maxEvents = 128\<rparr> 3 DefaultConfig 9) (wstart\<lparr>k_open := {0, 1, 2, 3, 4}\<rparr>) wex =
      Some ((err, el, k'), e') \<and>
    k_open k' = {0, 1, 2, 3, 4} \<union> dom (map_of (conns el)) \<and> store_inv (ex_store e')"
proof -
  have "env_ok (wenv 0)" by (intro wenv_ok) (simp add: zero_time_def)
  from event_loop_sound[OF this serving_new[of "log_ops plain_unicode" DefaultConfig] wstart_idle(2), of plain_unicode
      "\<lparr>epfd = 4, maxEvents = 128\<rparr>" 3 DefaultConfig 9]
  show ?thesis by (elim exE conjE) (intro exI conjI, assumption+)
qed

text \<open>
  C9: \<open>Start\<close> of the reactor server always returns once it is stopped and leaves nothing behind.
  Whatever the append-only file holds, wherever opening it, the socket calls or the event loop
  fail, and whatever the clients do, afterwards the sockets and epoll instances that are open are those from before, no
  client socket is left, no log is installed, and the store satisfies its invariant. If the server has been
  serving with persistence enabled, its log has been closed.
\<close>

theorem reactor_releases_all:
  assumes "env_ok E" "serving (log_ops U) e" "ex_journal e = None" "idle_kernel B k"
  shows "\<exists>r k' e'. reactor_Start U E dsk resolve cfg stop k e = Some ((r, k'), e') \<and> k_open k' = B \<and> k_sockets k' = Map.empty \<and>
    ex_journal e' = None \<and> store_inv (ex_store e') \<and>
    (AOFEnabled cfg \<longrightarrow> (\<forall>err lo. r = Stopped err lo \<longrightarrow> (\<exists>l. lo = Some l \<and> l_closed l)))"
  using reactor_releases[OF assms, of dsk resolve cfg stop] by (auto simp: idle_kernel_def)

theorem reactor_releases_all_witness:
  "\<exists>r k' e'. reactor_Start plain_unicode (wenv 0) (wdisk [wset]) (\<lambda>host port. Inr IPv4) (fst (reactor_NewServer DefaultConfig)) 9
      wstart (snd (reactor_NewServer DefaultConfig)) = Some ((r, k'), e') \<and>
    k_open k' = {0, 1, 2} \<and> ex_journal e' = None \<and> (\<forall>err lo. r = Stopped err lo \<longrightarrow> (\<exists>l. lo = Some l \<and> l_closed l))"
proof -
  have "env_ok (wenv 0)" by (intro wenv_ok) (simp add: zero_time_def)
  moreover have "serving (log_ops plain_unicode) (snd (reactor_NewServer DefaultConfig))" "ex_journal (snd (reactor_NewServer DefaultConfig)) = None"
    by (simp_all add: reactor_NewServer_def serving_new Let_def)
  moreover note wstart_idle(1)
  ultimately have "\<exists>r k' e'. reactor_Start plain_unicode (wenv 0) (wdisk [wset]) (\<lambda>host port. Inr IPv4) (fst (reactor_NewServer DefaultConfig)) 9
      wstart (snd (reactor_NewServer DefaultConfig)) = Some ((r, k'), e') \<and>
    k_open k' = {0, 1, 2} \<and> k_sockets k' = Map.empty \<and> ex_journal e' = None \<and> store_inv (ex_store e') \<and>
    (AOFEnabled (fst (reactor_NewServer DefaultConfig)) \<longrightarrow> (\<forall>err lo. r = Stopped err lo \<longrightarrow> (\<exists>l. lo = Some l \<and> l_closed l)))"
    by (rule reactor_releases_all)
  moreover have "AOFEnabled (fst (reactor_NewServer DefaultConfig))"
    by (simp add: reactor_NewServer_def WithDefaults_DefaultConfig default_facts)
  ultimately show ?thesis by (elim exE conjE) (intro exI conjI, (assumption | simp)+)
qed


end
