(* ===== verification/Lifecycle.thy ===== *)
theory Lifecycle
  imports ClientHandler Opening
begin

text \<open>
  The life of the goroutine server, \<open>internal/server/server.go\<close>: \<open>Start\<close>, \<open>Serve\<close>, \<open>Shutdown\<close>, the
  loop that expires keys, and the handlers of the clients, all running at the same time. A step
  is what happens under one lock, or one call that may block; the calls of \<open>Start\<close>, \<open>Serve\<close> and
  \<open>Shutdown\<close> are threads with the point they have reached.
\<close>

subsection \<open>The server\<close>

datatype server_error = Failure go_error | OpenFailure open_error

text \<open>The errors that \<open>errors.Join\<close> has collected; none is a success.\<close>

type_synonym result = "server_error list"

definition failure :: "go_error option \<Rightarrow> result" where
  "failure err = (case err of None \<Rightarrow> [] | Some t \<Rightarrow> [Failure t])"

text \<open>
  Where a call is. The flag of the points in \<open>Serve\<close> says whether \<open>Start\<close> called it;
  \<open>CloseWait\<close> and \<open>CloseLog\<close> are in \<open>closePersistence\<close>, the last thing every caller does.
\<close>

datatype call =
    StartBegin | StartOpen | StartListen | StartCheck | StartServed result | StartWait result
  | ServeBegin bool | ServeOpen bool | ServeEnter bool | ServeExpire bool | ServeAccept bool | ServeAdmit bool
  | ServeFail bool go_error | ServeLeave bool result
  | CloseWait result | CloseLog result
  | ShutdownBegin | ShutdownListener "nat option" | ShutdownServe result | ShutdownClients result | ShutdownExpired result
  | Finished result

text \<open>
  Connections and threads are numbered. \<open>sv_leaving\<close> are the handlers that have left the
  table \<open>active\<close> and not yet the wait group, \<open>sv_hungup\<close> the connections that were closed, and
  \<open>sv_listening\<close> the threads whose listener is open. \<open>sv_launched\<close> records the calls of \<open>Start\<close>
  and \<open>Serve\<close>.
\<close>

record server =
  sv_config :: Config
  sv_ex :: "Log Executor"
  sv_active :: "nat set"
  sv_leaving :: "nat set"
  sv_hungup :: "nat set"
  sv_closing :: bool
  sv_started :: bool
  sv_shutdownRequested :: bool
  sv_stopped :: bool
  sv_serveDone :: bool
  sv_clientsWg :: nat
  sv_expireWg :: nat
  sv_listener :: "nat option"
  sv_listening :: "nat set"
  sv_calls :: "nat \<rightharpoonup> call"
  sv_launched :: "nat list"

definition NewServer :: "Config \<Rightarrow> server" where
  "NewServer cfg =
     (let cfg = WithDefaults cfg
      in \<lparr>sv_config = cfg, sv_ex = newExecutor NewStore cfg, sv_active = {}, sv_leaving = {}, sv_hungup = {},
          sv_closing = False, sv_started = False, sv_shutdownRequested = False, sv_stopped = False, sv_serveDone = False,
          sv_clientsWg = 0, sv_expireWg = 0, sv_listener = None, sv_listening = {}, sv_calls = Map.empty, sv_launched = []\<rparr>)"

definition hang_up :: "server \<Rightarrow> server" where
  "hang_up s = s\<lparr>sv_hungup := sv_hungup s \<union> sv_active s\<rparr>"

definition close_listener :: "nat \<Rightarrow> server \<Rightarrow> server" where
  "close_listener t s = s\<lparr>sv_listening := sv_listening s - {t}\<rparr>"

subsection \<open>The calls\<close>

inductive Start_step :: "unicode \<Rightarrow> nat \<Rightarrow> call \<Rightarrow> server \<Rightarrow> call \<Rightarrow> server \<Rightarrow> bool" for U t where
  invalid: "Validate U (sv_config s) = Some err \<Longrightarrow>
    Start_step U t StartBegin s (Finished [Failure (''invalid server configuration: '' @ err)]) s"
| stopped: "Validate U (sv_config s) = None \<Longrightarrow> sv_closing s \<Longrightarrow> Start_step U t StartBegin s (Finished []) s"
| checked: "Validate U (sv_config s) = None \<Longrightarrow> \<not> sv_closing s \<Longrightarrow> Start_step U t StartBegin s StartOpen s"
| opened: "env_ok E \<Longrightarrow> openPersistence U E dsk (sv_config s) (sv_ex s) = Some (None, e) \<Longrightarrow>
    Start_step U t StartOpen s StartListen (s\<lparr>sv_ex := e\<rparr>)"
| open_error: "env_ok E \<Longrightarrow> openPersistence U E dsk (sv_config s) (sv_ex s) = Some (Some err, e) \<Longrightarrow>
    Start_step U t StartOpen s (Finished [OpenFailure err]) (s\<lparr>sv_ex := e\<rparr>)"
| listen: "Start_step U t StartListen s StartCheck (s\<lparr>sv_listening := insert t (sv_listening s)\<rparr>)"
| listen_error: "Start_step U t StartListen s (CloseWait [Failure (''listen on '' @ address @ '': '' @ err)]) s"
| closing: "sv_closing s \<Longrightarrow> Start_step U t StartCheck s (CloseWait []) (close_listener t s)"
| serve: "\<not> sv_closing s \<Longrightarrow> Start_step U t StartCheck s (ServeBegin True) s"
| served: "sv_shutdownRequested s \<Longrightarrow> Start_step U t (StartServed r) s (Finished r) s"
| disconnect: "\<not> sv_shutdownRequested s \<Longrightarrow> Start_step U t (StartServed r) s (StartWait r) (hang_up s)"
| disconnected: "sv_clientsWg s = 0 \<Longrightarrow> Start_step U t (StartWait r) s (CloseWait r) s"

definition serve_return :: "bool \<Rightarrow> result \<Rightarrow> call" where
  "serve_return b r = (if b then StartServed r else Finished r)"

inductive Serve_step :: "unicode \<Rightarrow> nat \<Rightarrow> call \<Rightarrow> server \<Rightarrow> call \<Rightarrow> server \<Rightarrow> bool" for U t where
  invalid: "Validate U (sv_config s) = Some err \<Longrightarrow>
    Serve_step U t (ServeBegin b) s (serve_return b [Failure (''invalid server configuration: '' @ err)]) s"
| checked: "Validate U (sv_config s) = None \<Longrightarrow> Serve_step U t (ServeBegin b) s (ServeOpen b) s"
| opened: "env_ok E \<Longrightarrow> openPersistence U E dsk (sv_config s) (sv_ex s) = Some (None, e) \<Longrightarrow>
    Serve_step U t (ServeOpen b) s (ServeEnter b) (s\<lparr>sv_ex := e\<rparr>)"
| open_error: "env_ok E \<Longrightarrow> openPersistence U E dsk (sv_config s) (sv_ex s) = Some (Some err, e) \<Longrightarrow>
    Serve_step U t (ServeOpen b) s (serve_return b [OpenFailure err]) (s\<lparr>sv_ex := e\<rparr>)"
| twice: "sv_started s \<Longrightarrow>
    Serve_step U t (ServeEnter b) s (serve_return b [Failure ''server has already been started'']) (close_listener t s)"
| stopped: "\<not> sv_started s \<Longrightarrow> sv_closing s \<Longrightarrow> Serve_step U t (ServeEnter b) s (serve_return b []) (close_listener t s)"
| enter: "\<not> sv_started s \<Longrightarrow> \<not> sv_closing s \<Longrightarrow>
    Serve_step U t (ServeEnter b) s (ServeExpire b) (s\<lparr>sv_started := True, sv_listener := Some t\<rparr>)"
| expire: "Serve_step U t (ServeExpire b) s (ServeAccept b) (s\<lparr>sv_expireWg := Suc (sv_expireWg s)\<rparr>)"
| accept: "t \<in> sv_listening s \<Longrightarrow> Serve_step U t (ServeAccept b) s (ServeAdmit b) s"
| closed: "sv_closing s \<or> t \<notin> sv_listening s \<Longrightarrow> Serve_step U t (ServeAccept b) s (ServeLeave b []) s"
| temporary: "\<not> sv_closing s \<Longrightarrow> t \<in> sv_listening s \<Longrightarrow> Serve_step U t (ServeAccept b) s (ServeAccept b) s"
| accept_error: "\<not> sv_closing s \<Longrightarrow> t \<in> sv_listening s \<Longrightarrow> Serve_step U t (ServeAccept b) s (ServeFail b err) s"
| fail: "Serve_step U t (ServeFail b err) s (ServeLeave b [Failure (''accept client connection: '' @ err)])
    (hang_up (s\<lparr>sv_closing := True\<rparr>))"
| admit_closing: "sv_closing s \<Longrightarrow> Serve_step U t (ServeAdmit b) s (ServeLeave b []) s"
| full: "\<not> sv_closing s \<Longrightarrow> int (card (sv_active s)) \<ge> MaxConnections (sv_config s) \<Longrightarrow>
    Serve_step U t (ServeAdmit b) s (ServeAccept b) s"
| admit: "\<not> sv_closing s \<Longrightarrow> int (card (sv_active s)) < MaxConnections (sv_config s) \<Longrightarrow> c \<notin> sv_active s \<union> sv_leaving s \<Longrightarrow>
    Serve_step U t (ServeAdmit b) s (ServeAccept b) (s\<lparr>sv_active := insert c (sv_active s), sv_clientsWg := Suc (sv_clientsWg s)\<rparr>)"
| leave: "Serve_step U t (ServeLeave b r) s (serve_return b r) ((close_listener t s)\<lparr>sv_stopped := True, sv_serveDone := True\<rparr>)"

definition request_shutdown :: "server \<Rightarrow> server" where
  "request_shutdown s = s\<lparr>sv_shutdownRequested := True, sv_closing := True, sv_stopped := True\<rparr>"

inductive Shutdown_step :: "nat \<Rightarrow> call \<Rightarrow> server \<Rightarrow> call \<Rightarrow> server \<Rightarrow> bool" for t where
  unstarted: "\<not> sv_started s \<Longrightarrow> Shutdown_step t ShutdownBegin s (CloseWait []) (request_shutdown s)"
| checked: "sv_started s \<Longrightarrow> Shutdown_step t ShutdownBegin s (ShutdownListener (sv_listener s)) (request_shutdown s)"
| no_listener: "Shutdown_step t (ShutdownListener None) s (ShutdownServe []) s"
| listener: "err = None \<or> l \<in> sv_listening s \<Longrightarrow> Shutdown_step t (ShutdownListener (Some l)) s
    (ShutdownServe (failure (map_option ((@) ''close listener: '') err))) (close_listener l s)"
| serve_done: "sv_serveDone s \<Longrightarrow> Shutdown_step t (ShutdownServe r) s (ShutdownClients r) s"
| clients_done: "sv_clientsWg s = 0 \<Longrightarrow> Shutdown_step t (ShutdownClients r) s (CloseWait r) s"
| expired: "Shutdown_step t (ShutdownClients r) s (ShutdownExpired (r @ [Failure err])) (hang_up s)"
| clients_gone: "sv_clientsWg s = 0 \<Longrightarrow> Shutdown_step t (ShutdownExpired r) s (CloseWait r) s"

inductive Close_step :: "call \<Rightarrow> server \<Rightarrow> call \<Rightarrow> server \<Rightarrow> bool" where
  wait: "sv_expireWg s = 0 \<Longrightarrow> Close_step (CloseWait r) s (CloseLog r) s"
| log: "closePersistence (sv_ex s) = ((err, l), e) \<Longrightarrow> Close_step (CloseLog r) s (Finished (r @ failure err)) (s\<lparr>sv_ex := e\<rparr>)"

subsection \<open>The system\<close>

definition put_call :: "nat \<Rightarrow> call \<Rightarrow> server \<Rightarrow> server" where
  "put_call t p s = s\<lparr>sv_calls := (sv_calls s)(t \<mapsto> p)\<rparr>"

definition launch :: "nat \<Rightarrow> call \<Rightarrow> server \<Rightarrow> server" where
  "launch t p s = (put_call t p s)\<lparr>sv_launched := t # sv_launched s\<rparr>"

abbreviation call_step :: "unicode \<Rightarrow> nat \<Rightarrow> call \<Rightarrow> server \<Rightarrow> call \<Rightarrow> server \<Rightarrow> bool" where
  "call_step U t p s p' s' \<equiv> Start_step U t p s p' s' \<or> Serve_step U t p s p' s' \<or> Shutdown_step t p s p' s' \<or> Close_step p s p' s'"

text \<open>New calls, the steps of calls, and those of the handlers and of the expiry loop.\<close>

inductive lifecycle_step :: "unicode \<Rightarrow> server \<Rightarrow> server \<Rightarrow> bool" for U where
  start: "sv_calls s t = None \<Longrightarrow> lifecycle_step U s (launch t StartBegin s)"
| serve: "sv_calls s t = None \<Longrightarrow> lifecycle_step U s (launch t (ServeBegin False) (s\<lparr>sv_listening := insert t (sv_listening s)\<rparr>))"
| serve_nil: "sv_calls s t = None \<Longrightarrow> lifecycle_step U s (put_call t (Finished [Failure ''listener must not be nil'']) s)"
| shutdown: "sv_calls s t = None \<Longrightarrow> lifecycle_step U s (put_call t ShutdownBegin s)"
| shutdown_nil: "sv_calls s t = None \<Longrightarrow> lifecycle_step U s (put_call t (Finished [Failure ''shutdown context must not be nil'']) s)"
| call: "sv_calls s t = Some p \<Longrightarrow>
    call_step U t p s p' s' \<Longrightarrow> lifecycle_step U s (put_call t p' s')"
| request: "c \<in> sv_active s \<Longrightarrow> env_ok E \<Longrightarrow> call_executor U E (log_ops U) cmd (sv_ex s) = Some (r, e) \<Longrightarrow>
    lifecycle_step U s (s\<lparr>sv_ex := e\<rparr>)"
| leave: "c \<in> sv_active s \<Longrightarrow>
    lifecycle_step U s (s\<lparr>sv_active := sv_active s - {c}, sv_leaving := insert c (sv_leaving s), sv_hungup := insert c (sv_hungup s)\<rparr>)"
| handler_done: "c \<in> sv_leaving s \<Longrightarrow> lifecycle_step U s (s\<lparr>sv_leaving := sv_leaving s - {c}, sv_clientsWg := sv_clientsWg s - 1\<rparr>)"
| tick: "0 < sv_expireWg s \<Longrightarrow> env_ok E \<Longrightarrow> lifecycle_step U s (s\<lparr>sv_ex := snd (ActiveExpire E (log_ops U) (sv_ex s))\<rparr>)"
| expire_stop: "0 < sv_expireWg s \<Longrightarrow> sv_stopped s \<Longrightarrow> lifecycle_step U s (s\<lparr>sv_expireWg := sv_expireWg s - 1\<rparr>)"

inductive lifecycle_run :: "unicode \<Rightarrow> server \<Rightarrow> server \<Rightarrow> bool" for U s where
  here: "lifecycle_run U s s"
| step: "lifecycle_run U s s1 \<Longrightarrow> lifecycle_step U s1 s' \<Longrightarrow> lifecycle_run U s s'"

subsection \<open>The handlers and their limit\<close>

text \<open>A thread in the accept loop; there is one at most.\<close>

fun in_service :: "call \<Rightarrow> bool" where
  "in_service (ServeExpire b) = True"
| "in_service (ServeAccept b) = True"
| "in_service (ServeAdmit b) = True"
| "in_service (ServeFail b err) = True"
| "in_service (ServeLeave b r) = True"
| "in_service p = False"

lemma serve_return_simps [simp]: "\<not> in_service (serve_return b r)"
  by (simp add: serve_return_def)

definition handlers_inv :: "server \<Rightarrow> bool" where
  "handlers_inv s \<longleftrightarrow> finite (sv_active s) \<and> finite (sv_leaving s) \<and> sv_active s \<inter> sv_leaving s = {} \<and>
     sv_clientsWg s = card (sv_active s) + card (sv_leaving s) \<and> int (card (sv_active s)) \<le> max 0 (MaxConnections (sv_config s))"

definition loop_inv :: "server \<Rightarrow> bool" where
  "loop_inv s \<longleftrightarrow> (\<forall>t p. sv_calls s t = Some p \<longrightarrow> in_service p \<longrightarrow> sv_started s \<and> sv_listener s = Some t)"

lemmas server_effects = hang_up_def close_listener_def request_shutdown_def put_call_def launch_def

lemmas call_cases = Start_step.cases Serve_step.cases Shutdown_step.cases Close_step.cases

lemma handlers_inv_same:
  "handlers_inv s \<Longrightarrow> sv_active s' = sv_active s \<Longrightarrow> sv_leaving s' = sv_leaving s \<Longrightarrow> sv_clientsWg s' = sv_clientsWg s \<Longrightarrow>
    sv_config s' = sv_config s \<Longrightarrow> handlers_inv s'"
  by (simp add: handlers_inv_def)

lemma call_config:
  assumes "call_step U t p s p' s'"
  shows "sv_config s' = sv_config s" "sv_calls s' = sv_calls s" "sv_launched s' = sv_launched s" "sv_leaving s' = sv_leaving s"
    "sv_closing s \<Longrightarrow> sv_closing s'" "sv_started s \<Longrightarrow> sv_started s'" "sv_serveDone s \<Longrightarrow> sv_serveDone s'"
  using assms by (auto simp: server_effects elim!: call_cases)

lemma call_handlers:
  assumes "call_step U t p s p' s'"
  shows "sv_active s' = sv_active s \<and> sv_clientsWg s' = sv_clientsWg s \<or>
    (\<exists>b c. p = ServeAdmit b \<and> int (card (sv_active s)) < MaxConnections (sv_config s) \<and> c \<notin> sv_active s \<union> sv_leaving s \<and>
      sv_active s' = insert c (sv_active s) \<and> sv_clientsWg s' = Suc (sv_clientsWg s))"
  using assms by (auto simp: server_effects elim!: call_cases)

lemma call_handlers_inv:
  assumes "call_step U t p s p' s'" "handlers_inv s"
  shows "handlers_inv s'"
  using call_handlers[OF assms(1)]
proof (elim disjE exE conjE)
  assume "sv_active s' = sv_active s" "sv_clientsWg s' = sv_clientsWg s"
  with call_config[OF assms(1)] show ?thesis by (intro handlers_inv_same[OF assms(2)]) simp_all
next
  fix b c
  assume "int (card (sv_active s)) < MaxConnections (sv_config s)" "c \<notin> sv_active s \<union> sv_leaving s"
    "sv_active s' = insert c (sv_active s)" "sv_clientsWg s' = Suc (sv_clientsWg s)"
  with call_config[OF assms(1)] assms(2) show ?thesis by (simp add: handlers_inv_def)
qed

lemma call_loop:
  assumes "call_step U t p s p' s'"
  shows "sv_started s' = sv_started s \<and> sv_listener s' = sv_listener s \<and> (in_service p' \<longrightarrow> in_service p) \<or>
    \<not> sv_started s \<and> sv_started s' \<and> sv_listener s' = Some t"
  using assms by (auto simp: server_effects elim!: call_cases)

lemma call_loop_inv:
  assumes "call_step U t p s p' s'"
    "sv_calls s t = Some p" "loop_inv s"
  shows "loop_inv (put_call t p' s')"
  using call_loop[OF assms(1)] call_config(2)[OF assms(1)] assms(2,3) unfolding loop_inv_def put_call_def
  by (elim disjE) (force split: if_splits)+

lemma leave_handlers_inv:
  assumes "handlers_inv s" "c \<in> sv_active s"
  shows "handlers_inv (s\<lparr>sv_active := sv_active s - {c}, sv_leaving := insert c (sv_leaving s), sv_hungup := h\<rparr>)"
proof -
  have "c \<notin> sv_leaving s" "finite (sv_active s)" "finite (sv_leaving s)" using assms by (auto simp: handlers_inv_def)
  moreover have "card (sv_active s) = Suc (card (sv_active s - {c}))" using calculation(2) assms(2) by (metis card_Suc_Diff1)
  ultimately show ?thesis using assms(1) unfolding handlers_inv_def by (simp del: card_Diff_insert) auto
qed

lemma done_handlers_inv:
  assumes "handlers_inv s" "c \<in> sv_leaving s"
  shows "handlers_inv (s\<lparr>sv_leaving := sv_leaving s - {c}, sv_clientsWg := sv_clientsWg s - 1\<rparr>)"
proof -
  have "finite (sv_leaving s)" using assms by (auto simp: handlers_inv_def)
  then have "card (sv_leaving s) = Suc (card (sv_leaving s - {c}))" using assms(2) by (metis card_Suc_Diff1)
  then show ?thesis using assms(1) unfolding handlers_inv_def by (simp del: card_Diff_insert) auto
qed

lemma lifecycle_step_inv:
  assumes "lifecycle_step U s s'" "handlers_inv s" "loop_inv s"
  shows "handlers_inv s' \<and> loop_inv s' \<and> sv_config s' = sv_config s"
  using assms(1)
proof cases
  case (call t p p' s1)
  from call_handlers_inv[OF call(3) assms(2)] have "handlers_inv s'" by (rule handlers_inv_same) (simp_all add: call put_call_def)
  with call_loop_inv[OF call(3,2) assms(3)] call_config(1)[OF call(3)] show ?thesis by (simp add: call put_call_def)
next
  case (leave c)
  with leave_handlers_inv[OF assms(2) leave(2)] assms(3) show ?thesis by (simp add: loop_inv_def)
next
  case (handler_done c)
  with done_handlers_inv[OF assms(2) handler_done(2)] assms(3) show ?thesis by (simp add: loop_inv_def)
qed (use assms(2,3) in \<open>auto simp: handlers_inv_def loop_inv_def server_effects\<close>)

lemma lifecycle_run_inv:
  assumes "lifecycle_run U (NewServer cfg) s"
  shows "handlers_inv s \<and> loop_inv s \<and> sv_config s = WithDefaults cfg"
  using assms
proof (induction rule: lifecycle_run.induct)
  case here
  then show ?case by (simp add: handlers_inv_def loop_inv_def NewServer_def Let_def)
next
  case (step s1 s')
  then show ?case using lifecycle_step_inv[of U s1 s'] by simp
qed

end
