(* ===== verification/LifecycleCorrect.thy ===== *)
theory LifecycleCorrect
  imports Lifecycle
begin

text \<open>
  Clients of the goroutine server are served with the append-only file installed, if it is
  enabled and the server is started once: the log is closed only when no handler runs and none
  will. Every point of a call has its own invariant.
\<close>

subsection \<open>The invariant\<close>

text \<open>
  The points of \<open>Start\<close> and \<open>Serve\<close> before the accept loop; those of a call that may still serve or
  has served; and those in \<open>closePersistence\<close>.
\<close>

fun before_service :: "call \<Rightarrow> bool" where
  "before_service StartBegin = True"
| "before_service StartOpen = True"
| "before_service StartListen = True"
| "before_service StartCheck = True"
| "before_service (ServeBegin b) = True"
| "before_service (ServeOpen b) = True"
| "before_service (ServeEnter b) = True"
| "before_service p = False"

fun launcher :: "call \<Rightarrow> bool" where
  "launcher (StartServed r) = True"
| "launcher (StartWait r) = True"
| "launcher p \<longleftrightarrow> before_service p \<or> in_service p"

fun closes :: "call \<Rightarrow> bool" where
  "closes (CloseWait r) = True"
| "closes (CloseLog r) = True"
| "closes p = False"

lemma launcherI: "before_service p \<or> in_service p \<Longrightarrow> launcher p"
  by (cases p) simp_all

lemma serve_return_closes [simp]: "\<not> before_service (serve_return b r)" "\<not> closes (serve_return b r)"
  by (simp_all add: serve_return_def)

definition logged :: "server \<Rightarrow> bool" where
  "logged s \<longleftrightarrow> (AOFEnabled (sv_config s) \<longrightarrow> ex_journal (sv_ex s) \<noteq> None)"

text \<open>No handler runs and none will.\<close>

definition given_up :: "server \<Rightarrow> bool" where
  "given_up s \<longleftrightarrow> (\<exists>t p. sv_launched s = [t] \<and> sv_calls s t = Some p \<and> \<not> before_service p \<and> \<not> in_service p)"

definition over :: "server \<Rightarrow> bool" where
  "over s \<longleftrightarrow> sv_active s = {} \<and> sv_leaving s = {} \<and> (sv_serveDone s \<or> sv_closing s \<and> \<not> sv_started s \<or> given_up s)"

definition point_inv :: "server \<Rightarrow> nat \<Rightarrow> call \<Rightarrow> bool" where
  "point_inv s t p \<longleftrightarrow> (launcher p \<longrightarrow> sv_launched s = [t]) \<and> (before_service p \<longrightarrow> \<not> sv_started s \<and> \<not> sv_serveDone s) \<and>
     (in_service p \<longrightarrow> sv_started s \<and> \<not> sv_serveDone s \<and> logged s) \<and> (\<forall>b. p = ServeEnter b \<longrightarrow> logged s \<or> sv_closing s) \<and>
     (closes p \<longrightarrow> over s) \<and> (\<forall>r. p = ShutdownClients r \<or> p = ShutdownExpired r \<longrightarrow> sv_serveDone s)"

definition global_inv :: "unicode \<Rightarrow> server \<Rightarrow> bool" where
  "global_inv U s \<longleftrightarrow> serving (log_ops U) (sv_ex s) \<and> (\<not> sv_started s \<longrightarrow> sv_active s = {} \<and> sv_leaving s = {}) \<and>
     (sv_active s \<noteq> {} \<longrightarrow> logged s) \<and> (sv_serveDone s \<longrightarrow> sv_started s) \<and> (sv_launched s = [] \<longrightarrow> \<not> sv_started s)"

definition life_inv :: "unicode \<Rightarrow> server \<Rightarrow> bool" where
  "life_inv U s \<longleftrightarrow> global_inv U s \<and> (\<forall>t p. sv_calls s t = Some p \<longrightarrow> point_inv s t p)"

lemma call_flags:
  assumes "call_step U t p s p' s'"
  shows "sv_started s' = sv_started s \<or> sv_started s' \<and> \<not> sv_started s \<and> \<not> sv_closing s \<and> (\<exists>b. p = ServeEnter b \<and> in_service p')"
    "sv_serveDone s' = sv_serveDone s \<or> sv_serveDone s' \<and> (\<exists>b r. p = ServeLeave b r \<and> p' = serve_return b r)"
  using assms by (auto simp: server_effects elim!: call_cases)

lemma call_points:
  assumes "call_step U t p s p' s'"
  shows "before_service p' \<Longrightarrow> before_service p" "launcher p' \<Longrightarrow> launcher p"
    "in_service p' \<Longrightarrow> in_service p \<or> (\<exists>b. p = ServeEnter b \<and> sv_started s' \<and> \<not> sv_closing s \<and> sv_serveDone s' = sv_serveDone s \<and> sv_ex s' = sv_ex s)"
    "in_service p' \<Longrightarrow> sv_started s' = sv_started s \<or> (\<exists>b. p = ServeEnter b)"
  using assms by (auto simp: server_effects serve_return_def elim!: call_cases split: if_splits)

lemma openPersistence_journal:
  assumes "openPersistence U E dsk cfg e = Some (r, e')"
  shows "r = None \<Longrightarrow> AOFEnabled cfg \<Longrightarrow> ex_journal e' \<noteq> None" "ex_journal e \<noteq> None \<Longrightarrow> ex_journal e' \<noteq> None"
  using assms by (auto simp: openPersistence_def SetJournal_def split: if_splits option.splits prod.splits sum.splits)

lemma openPersistence_serving:
  assumes "openPersistence U E dsk cfg e = Some (r, e')" "serving J e" "env_ok E"
  shows "serving J e'"
  using openPersistence_returns[of e E U dsk cfg] assms by (auto simp: serving_def)

lemma closePersistence_serving:
  "closePersistence e = ((err, l), e') \<Longrightarrow> serving J e \<Longrightarrow> serving J e'"
  by (auto simp: closePersistence_def serving_def SetJournal_def split: option.splits prod.splits)

text \<open>What the steps do to the executor.\<close>

definition executor_change :: "unicode \<Rightarrow> call \<Rightarrow> server \<Rightarrow> call \<Rightarrow> server \<Rightarrow> bool" where
  "executor_change U p s p' s' \<longleftrightarrow> sv_ex s' = sv_ex s \<and> (\<forall>b. p' \<noteq> ServeEnter b) \<or>
    (\<exists>E dsk r. env_ok E \<and> openPersistence U E dsk (sv_config s) (sv_ex s) = Some (r, sv_ex s') \<and> (\<forall>b. p' = ServeEnter b \<longrightarrow> r = None)) \<or>
    (\<exists>r err l. p = CloseLog r \<and> closePersistence (sv_ex s) = ((err, l), sv_ex s') \<and> (\<forall>b. p' \<noteq> ServeEnter b))"

lemma executor_same: "sv_ex s' = sv_ex s \<Longrightarrow> (\<And>b. p' \<noteq> ServeEnter b) \<Longrightarrow> executor_change U p s p' s'"
  by (simp add: executor_change_def)

lemma executor_open:
  "env_ok E \<Longrightarrow> openPersistence U E dsk (sv_config s) (sv_ex s) = Some (r, e) \<Longrightarrow> (\<And>b. p' = ServeEnter b \<Longrightarrow> r = None) \<Longrightarrow>
    executor_change U p s p' (s\<lparr>sv_ex := e\<rparr>)"
  unfolding executor_change_def
  by (rule disjI2, rule disjI1, intro exI[of _ E] exI[of _ dsk] exI[of _ r]) simp

lemma executor_close:
  "closePersistence (sv_ex s) = ((err, l), e) \<Longrightarrow> executor_change U (CloseLog r) s (Finished r') (s\<lparr>sv_ex := e\<rparr>)"
  unfolding executor_change_def by (rule disjI2, rule disjI2, intro exI[of _ r] exI[of _ err] exI[of _ l]) simp

lemma serve_return_points [simp]: "serve_return b r \<noteq> ServeEnter b'" "serve_return b r \<noteq> ShutdownClients r'"
  "serve_return b r \<noteq> ShutdownExpired r'"
  by (simp_all add: serve_return_def)

lemma call_executor_change:
  assumes "call_step U t p s p' s'"
  shows "executor_change U p s p' s'"
  using assms
proof (elim disjE)
  assume "Start_step U t p s p' s'"
  then show ?thesis by cases (auto intro: executor_open executor_same simp: server_effects)
next
  assume "Serve_step U t p s p' s'"
  then show ?thesis by cases (auto intro: executor_open executor_same simp: server_effects)
next
  assume "Shutdown_step t p s p' s'"
  then show ?thesis by cases (auto intro: executor_same simp: server_effects)
next
  assume "Close_step p s p' s'"
  then show ?thesis by cases (auto intro: executor_same executor_close)
qed

lemma call_serving:
  assumes "call_step U t p s p' s'" "serving J (sv_ex s)"
  shows "serving J (sv_ex s')"
  using call_executor_change[OF assms(1)] assms(2) openPersistence_serving closePersistence_serving unfolding executor_change_def by metis

lemma call_logged:
  assumes "call_step U t p s p' s'"
  shows "logged s \<Longrightarrow> (\<And>r. p \<noteq> CloseLog r) \<Longrightarrow> logged s'" "p' = ServeEnter b \<Longrightarrow> logged s'"
  using call_executor_change[OF assms] call_config(1)[OF assms] openPersistence_journal unfolding logged_def executor_change_def by metis+

lemma call_closes:
  assumes "call_step U t p s p' s'" "closes p'"
  shows "\<not> before_service p' \<and> \<not> in_service p'" "closes p \<or> p = StartListen \<or> p = StartCheck \<or>
    (\<exists>r. (p = StartWait r \<or> p = ShutdownClients r \<or> p = ShutdownExpired r) \<and> sv_clientsWg s = 0) \<or>
    p = ShutdownBegin \<and> \<not> sv_started s \<and> \<not> sv_started s' \<and> sv_closing s'"
  using assms by (auto simp: server_effects elim!: call_cases)

lemma call_waits:
  assumes "call_step U t p s p' s'" "p' = ShutdownClients r \<or> p' = ShutdownExpired r"
  shows "sv_serveDone s' = sv_serveDone s" "sv_serveDone s \<or> (\<exists>r. p = ShutdownClients r)"
  using assms by (auto simp: server_effects serve_return_def elim!: call_cases split: if_splits)


subsection \<open>Steps of calls\<close>

lemma put_call_simps [simp]:
  "sv_active (put_call t p s) = sv_active s" "sv_leaving (put_call t p s) = sv_leaving s" "sv_closing (put_call t p s) = sv_closing s"
  "sv_started (put_call t p s) = sv_started s" "sv_serveDone (put_call t p s) = sv_serveDone s" "sv_ex (put_call t p s) = sv_ex s"
  "sv_config (put_call t p s) = sv_config s" "sv_launched (put_call t p s) = sv_launched s"
  "sv_calls (put_call t p s) = (sv_calls s)(t \<mapsto> p)" "logged (put_call t p s) = logged s"
  by (simp_all add: put_call_def logged_def)

lemma point_invD:
  assumes "point_inv s t p"
  shows "launcher p \<Longrightarrow> sv_launched s = [t]" "before_service p \<Longrightarrow> \<not> sv_started s" "before_service p \<Longrightarrow> \<not> sv_serveDone s"
    "in_service p \<Longrightarrow> sv_started s" "in_service p \<Longrightarrow> \<not> sv_serveDone s" "in_service p \<Longrightarrow> logged s"
    "p = ServeEnter b \<Longrightarrow> logged s \<or> sv_closing s" "closes p \<Longrightarrow> over s"
    "p = ShutdownClients r \<or> p = ShutdownExpired r \<Longrightarrow> sv_serveDone s"
  using assms unfolding point_inv_def by blast+

lemma over_point:
  assumes "over s" "point_inv s t p" "sv_calls s t = Some p"
  shows "\<not> in_service p" "before_service p \<Longrightarrow> sv_closing s"
proof -
  note inv = point_invD[OF assms(2)]
  have g: "\<not> before_service p \<and> \<not> in_service p" if "given_up s" "sv_launched s = [t]"
    using that assms(3) by (auto simp: given_up_def)
  show "\<not> in_service p" using assms(1) inv(1,4,5) g launcherI[of p] unfolding over_def by blast
  show "before_service p \<Longrightarrow> sv_closing s" using assms(1) inv(1,2,3) g launcherI[of p] unfolding over_def by blast
qed

lemma over_call:
  assumes step: "call_step U t p s p' s'" and call: "sv_calls s t = Some p" and inv: "point_inv s t p" and over: "over s"
  shows "over (put_call t p' s')"
proof -
  note kept = call_config[OF step]
  have p: "\<not> in_service p" by (rule over_point[OF over inv call])
  then have "sv_active s' = sv_active s" using call_handlers[OF step] by auto
  then have none: "sv_active s' = {}" "sv_leaving s' = {}" using over kept(4) by (simp_all add: over_def)
  consider "sv_serveDone s" | "sv_closing s" "\<not> sv_started s" | "given_up s" using over unfolding over_def by blast
  then show ?thesis
  proof cases
    case 1
    with none kept(7) show ?thesis by (simp add: over_def)
  next
    case 2
    with none kept(5) call_flags(1)[OF step] show ?thesis by (simp add: over_def)
  next
    case 3
    then obtain t0 q where q: "sv_launched s = [t0]" "sv_calls s t0 = Some q" "\<not> before_service q" "\<not> in_service q"
      unfolding given_up_def by blast
    have "\<not> before_service p' \<and> \<not> in_service p'" if "\<not> before_service p"
      using call_points(1,3)[OF step] that p by auto
    with q call have "given_up (put_call t p' s')" using kept(2,3) unfolding given_up_def by (cases "t0 = t") auto
    with none show ?thesis by (simp add: over_def)
  qed
qed

lemma point_other:
  assumes step: "call_step U t p s p' s'" and call: "sv_calls s t = Some p" and inv: "point_inv s t p"
    and other: "sv_calls s t' = Some q" "point_inv s t' q" "t' \<noteq> t"
  shows "point_inv (put_call t p' s') t' q"
proof -
  note kept = call_config[OF step] and i = point_invD[OF inv] and o = point_invD[OF other(2)]
  have alone: "\<not> launcher p" if "launcher q" using that i(1) o(1) other(3) by auto
  have flags: "sv_started s' = sv_started s" "sv_serveDone s' = sv_serveDone s" if "launcher q"
    using alone[OF that] call_flags[OF step] by auto
  have log: "logged s'" if "logged s" "\<not> over s"
    by (rule call_logged(1)[OF step that(1)]) (use i(8) that(2) in auto)
  have "logged s'" if "in_service q" using log over_point(1)[OF _ other(2,1)] o(6) that by blast
  moreover have "logged s' \<or> sv_closing s'" if "q = ServeEnter b" for b
    using log over_point(2)[OF _ other(2,1)] o(7)[OF that] that kept(5) by auto
  moreover have "over (put_call t p' s')" if "closes q" using over_call[OF step call inv o(8)[OF that]] .
  ultimately show ?thesis
    using o(1-5,9) flags launcherI[of q] kept(3,7) unfolding point_inv_def by simp
qed


lemma handlers_none: "handlers_inv s \<Longrightarrow> sv_clientsWg s = 0 \<Longrightarrow> sv_active s = {} \<and> sv_leaving s = {}"
  by (auto simp: handlers_inv_def)

lemma before_not_in: "before_service p \<Longrightarrow> \<not> in_service p"
  by (cases p) simp_all

lemma closing_over:
  assumes step: "call_step U t p s p' s'" and inv: "point_inv s t p" and global: "global_inv U s" and handlers: "handlers_inv s"
    and new: "closes p'" "\<not> closes p"
  shows "over (put_call t p' s')"
proof -
  note kept = call_config[OF step] and i = point_invD[OF inv] and c = call_closes[OF step new(1)]
  have unstarted: "\<not> sv_started s \<Longrightarrow> sv_active s = {} \<and> sv_leaving s = {}" using global by (simp add: global_inv_def)
  have quits: "given_up (put_call t p' s')" if "launcher p" using c(1) i(1)[OF that] kept(3) by (simp add: given_up_def)
  have same: "sv_active s' = sv_active s" if "\<not> in_service p" using call_handlers[OF step] that by auto
  from c(2) new(2) consider (before) "p = StartListen \<or> p = StartCheck" | (served) r where "p = StartWait r" "sv_clientsWg s = 0"
    | (waited) r where "p = ShutdownClients r \<or> p = ShutdownExpired r" "sv_clientsWg s = 0"
    | (stop) "p = ShutdownBegin" "\<not> sv_started s" "\<not> sv_started s'" "sv_closing s'" by blast
  then show ?thesis
  proof cases
    case before
    then have "before_service p" by auto
    with quits same unstarted i(2) kept(4) before_not_in[of p] launcherI[of p] show ?thesis by (simp add: over_def)
  next
    case served
    with quits same handlers_none[OF handlers] kept(4) show ?thesis by (simp add: over_def)
  next
    case waited
    then have "sv_serveDone s'" "\<not> in_service p" using i(9)[of r] kept(7) by auto
    with same handlers_none[OF handlers waited(2)] kept(4) show ?thesis by (simp add: over_def)
  next
    case stop
    with same unstarted kept(4) show ?thesis by (simp add: over_def)
  qed
qed

lemma point_self:
  assumes step: "call_step U t p s p' s'" and call: "sv_calls s t = Some p" and inv: "point_inv s t p"
    and global: "global_inv U s" and handlers: "handlers_inv s"
  shows "point_inv (put_call t p' s') t p'"
proof -
  note kept = call_config[OF step] and i = point_invD[OF inv] and pt = call_points[OF step] and fl = call_flags[OF step]
  have 1: "sv_launched s' = [t]" if "launcher p'" using i(1) pt(2) that kept(3) by simp
  have 2: "\<not> sv_started s'" "\<not> sv_serveDone s'" if "before_service p'"
    using i(2,3)[OF pt(1)[OF that]] fl before_not_in[OF that] before_not_in[OF pt(1)[OF that]] by auto
  have 3: "sv_started s'" "\<not> sv_serveDone s'" "logged s'" if s: "in_service p'"
  proof -
    from pt(3)[OF s] consider "in_service p" | b where "p = ServeEnter b" "sv_started s'" "\<not> sv_closing s" by blast
    then have "sv_started s' \<and> \<not> sv_serveDone s \<and> logged s"
    proof cases
      case 1
      with i(4,5,6) kept(6) show ?thesis by blast
    next
      case (2 b)
      with i(3,7) show ?thesis by auto
    qed
    moreover have "p \<noteq> CloseLog r" for r using pt(3)[OF s] by auto
    ultimately show "sv_started s'" "\<not> sv_serveDone s'" "logged s'" using fl(2) s call_logged(1)[OF step] by auto
  qed
  have 4: "over (put_call t p' s')" if "closes p'"
    using closing_over[OF step inv global handlers that] over_call[OF step call inv] i(8) by blast
  have 5: "sv_serveDone s'" if "p' = ShutdownClients r \<or> p' = ShutdownExpired r" for r
    using call_waits[OF step that] i(9) by auto
  show ?thesis using 1 2 3 4 5 call_logged(2)[OF step] unfolding point_inv_def by auto
qed

lemma global_call:
  assumes step: "call_step U t p s p' s'" and inv: "point_inv s t p" and global: "global_inv U s"
  shows "global_inv U (put_call t p' s')"
proof -
  note kept = call_config[OF step] and i = point_invD[OF inv] and fl = call_flags[OF step]
  have g: "serving (log_ops U) (sv_ex s)" "\<not> sv_started s \<Longrightarrow> sv_active s = {} \<and> sv_leaving s = {}" "sv_active s \<noteq> {} \<Longrightarrow> logged s"
    "sv_serveDone s \<Longrightarrow> sv_started s" "sv_launched s = [] \<Longrightarrow> \<not> sv_started s" using global by (auto simp: global_inv_def)
  have h: "sv_active s' = sv_active s \<or> in_service p" using call_handlers[OF step] by auto
  have "sv_active s' = {} \<and> sv_leaving s' = {}" if "\<not> sv_started s'" using that kept(4,6) g(2) h i(4) by auto
  moreover have "logged s'" if "sv_active s' \<noteq> {}"
  proof (rule call_logged(1)[OF step])
    show "logged s" using that h g(3) i(6) by auto
    show "p \<noteq> CloseLog r" for r using that h i(8) by (auto simp: over_def)
  qed
  moreover have "sv_started s'" if "sv_serveDone s'" using that fl(2) g(4) i(4) kept(6) by auto
  moreover have "\<not> sv_started s'" if "sv_launched s' = []" using that kept(3) g(5) fl(1) i(1) by auto
  ultimately show ?thesis using call_serving[OF step g(1)] unfolding global_inv_def by simp
qed

lemma life_call:
  assumes step: "call_step U t p s p' s'" and call: "sv_calls s t = Some p" and inv: "life_inv U s" "handlers_inv s"
  shows "life_inv U (put_call t p' s')"
proof -
  have i: "global_inv U s" "\<And>t p. sv_calls s t = Some p \<Longrightarrow> point_inv s t p" using inv(1) by (auto simp: life_inv_def)
  have "point_inv (put_call t p' s') t' q" if "sv_calls (put_call t p' s') t' = Some q" for t' q
  proof (cases "t' = t")
    case True
    with that point_self[OF step call i(2)[OF call] i(1) inv(2)] show ?thesis by simp
  next
    case False
    with that have "sv_calls s t' = Some q" using call_config(2)[OF step] by simp
    from point_other[OF step call i(2)[OF call] this i(2)[OF this] False] show ?thesis .
  qed
  with global_call[OF step i(2)[OF call] i(1)] show ?thesis by (simp add: life_inv_def)
qed


subsection \<open>The other steps\<close>

lemma life_invD:
  assumes "life_inv U s"
  shows "global_inv U s" "sv_calls s t = Some p \<Longrightarrow> point_inv s t p"
  using assms by (simp_all add: life_inv_def)

lemma life_inv_ex:
  assumes "life_inv U s" "serving (log_ops U) e" "ex_journal e = None \<longleftrightarrow> ex_journal (sv_ex s) = None"
  shows "life_inv U (s\<lparr>sv_ex := e\<rparr>)"
proof -
  have "logged (s\<lparr>sv_ex := e\<rparr>) = logged s" "over (s\<lparr>sv_ex := e\<rparr>) = over s"
    using assms(3) by (auto simp: logged_def over_def given_up_def)
  with assms(1,2) show ?thesis by (simp add: life_inv_def global_inv_def point_inv_def)
qed

text \<open>A call that is new and does not serve.\<close>

lemma life_new_call:
  assumes "life_inv U s" "sv_calls s t = None" "\<not> launcher p" "\<not> closes p" "\<And>r. p \<noteq> ShutdownClients r" "\<And>r. p \<noteq> ShutdownExpired r"
  shows "life_inv U (put_call t p s)"
proof -
  have over: "over (put_call t p s)" if "over s" using that assms(2) by (auto simp: over_def given_up_def)
  have "point_inv (put_call t p s) t' q" if "sv_calls (put_call t p s) t' = Some q" for t' q
  proof (cases "t' = t")
    case True
    with that assms(3-6) launcherI[of p] show ?thesis by (auto simp: point_inv_def)
  next
    case False
    with that life_invD(2)[OF assms(1), of t' q] over show ?thesis by (simp add: point_inv_def)
  qed
  with assms(1) show ?thesis by (simp add: life_inv_def global_inv_def)
qed

lemma life_launch:
  assumes "life_inv U s" "sv_calls s t = None" "sv_launched s = []" "p = StartBegin \<or> p = ServeBegin False"
  shows "life_inv U (launch t p (s\<lparr>sv_listening := l\<rparr>))"
proof -
  let ?s = "launch t p (s\<lparr>sv_listening := l\<rparr>)"
  note g = life_invD(1)[OF assms(1)]
  have flags: "\<not> sv_started s" "\<not> sv_serveDone s" "logged ?s = logged s"
    using g assms(3) by (auto simp: global_inv_def logged_def launch_def put_call_def)
  have over: "over ?s" if "over s" using that assms(3) flags by (simp add: over_def given_up_def launch_def put_call_def)
  have "point_inv ?s t' q" if "sv_calls ?s t' = Some q" for t' q
  proof (cases "t' = t")
    case True
    with that have "q = p" by (simp add: launch_def put_call_def)
    with True assms(3,4) flags(1,2) show ?thesis by (auto simp: point_inv_def launch_def put_call_def)
  next
    case False
    with that have "point_inv s t' q" using life_invD(2)[OF assms(1), of t' q] by (simp add: launch_def put_call_def)
    with over assms(3) flags(3) launcherI[of q] show ?thesis by (auto simp: point_inv_def launch_def put_call_def)
  qed
  moreover have "global_inv U ?s" using g flags by (simp add: global_inv_def launch_def put_call_def)
  ultimately show ?thesis by (simp add: life_inv_def)
qed

lemma life_handler:
  assumes "life_inv U s" "sv_active s \<noteq> {} \<or> sv_leaving s \<noteq> {}" "A \<subseteq> sv_active s"
  shows "life_inv U (s\<lparr>sv_active := A, sv_leaving := L, sv_hungup := h, sv_clientsWg := n\<rparr>)"
proof -
  let ?s = "s\<lparr>sv_active := A, sv_leaving := L, sv_hungup := h, sv_clientsWg := n\<rparr>"
  have "\<not> over s" using assms(2) by (auto simp: over_def)
  moreover have "logged ?s = logged s" by (simp add: logged_def)
  ultimately have "point_inv ?s t p" if "point_inv s t p" for t p using that by (simp add: point_inv_def)
  moreover have "global_inv U ?s"
    using life_invD(1)[OF assms(1)] assms(2,3) \<open>logged ?s = logged s\<close> by (auto simp: global_inv_def)
  ultimately show ?thesis using life_invD(2)[OF assms(1)] by (simp add: life_inv_def)
qed

lemma life_step:
  assumes "lifecycle_step U s s'" "life_inv U s" "handlers_inv s" "length (sv_launched s') \<le> 1"
  shows "life_inv U s'"
  using assms(1)
proof cases
  case (start t)
  with life_launch[OF assms(2) start(2), of StartBegin "sv_listening s"] assms(4) show ?thesis by (simp add: launch_def put_call_def)
next
  case (serve t)
  with life_launch[OF assms(2) serve(2), of "ServeBegin False" "insert t (sv_listening s)"] assms(4) show ?thesis
    by (simp add: launch_def put_call_def)
next
  case (call t p p' s1)
  with life_call[OF call(3,2) assms(2,3)] show ?thesis by simp
next
  case (request c E cmd r e)
  have "serving (log_ops U) (sv_ex s)" using life_invD(1)[OF assms(2)] by (simp add: global_inv_def)
  from call_executor_returns[OF request(3) this, of U cmd] request(4)
  have "serving (log_ops U) e" "ex_journal e = None \<longleftrightarrow> ex_journal (sv_ex s) = None" by simp_all
  with life_inv_ex[OF assms(2)] request(1) show ?thesis by simp
next
  case (leave c)
  with life_handler[OF assms(2), where A = "sv_active s - {c}" and L = "insert c (sv_leaving s)" and h = "insert c (sv_hungup s)"
      and n = "sv_clientsWg s"]
  show ?thesis by auto
next
  case (handler_done c)
  with life_handler[OF assms(2), where A = "sv_active s" and L = "sv_leaving s - {c}" and h = "sv_hungup s" and n = "sv_clientsWg s - 1"]
  show ?thesis by auto
next
  case (tick E)
  obtain n e where e: "ActiveExpire E (log_ops U) (sv_ex s) = (n, e)" by fastforce
  have s: "serving (log_ops U) (sv_ex s)" using life_invD(1)[OF assms(2)] by (simp add: global_inv_def)
  then have "frame_inv (sv_ex s) e" using ActiveExpire_inv(1)[OF _ tick(3) e] by (simp add: serving_def)
  then have "serving (log_ops U) e" "ex_journal e = None \<longleftrightarrow> ex_journal (sv_ex s) = None"
    using s by (simp_all add: frame_inv_def same_frame_def serving_def)
  with life_inv_ex[OF assms(2)] tick(1) e show ?thesis by simp
next
  case expire_stop
  with assms(2) show ?thesis by (simp add: life_inv_def global_inv_def point_inv_def logged_def over_def given_up_def)
qed (use life_new_call[OF assms(2)] in simp_all)

lemma lifecycle_run_life:
  assumes "lifecycle_run U (NewServer cfg) s" "length (sv_launched s) \<le> 1"
  shows "life_inv U s"
  using assms
proof (induction rule: lifecycle_run.induct)
  case here
  have "serving (log_ops U) (newExecutor NewStore (WithDefaults cfg))" by (simp add: serving_def NewStore_refines(1))
  then show ?case by (simp add: life_inv_def global_inv_def NewServer_def Let_def)
next
  case (step s1 s')
  have "length (sv_launched s1) \<le> length (sv_launched s')"
    using step.hyps(2)
  proof cases
    case (call t p p' s2)
    with call_config(3)[OF call(3)] show ?thesis by simp
  qed (simp_all add: launch_def put_call_def)
  with step.IH step.prems have "life_inv U s1" by simp
  with life_step[OF step.hyps(2)] lifecycle_run_inv[OF step.hyps(1)] step.prems show ?case by blast
qed


end
