(* ===== verification/LifecycleTheorems.thy ===== *)
theory LifecycleTheorems
  imports LifecycleCorrect Examples
begin

text \<open>Properties of the life of the goroutine server.\<close>

subsection \<open>An example\<close>

lemma run_call:
  "lifecycle_run U s0 s \<Longrightarrow> sv_calls s t = Some p \<Longrightarrow> call_step U t p s p' s' \<Longrightarrow> lifecycle_run U s0 (put_call t p' s')"
  by (rule lifecycle_run.step, assumption, rule lifecycle_step.call)

lemma example_opens:
  "ex_journal e = None \<Longrightarrow> \<exists>e'. openPersistence plain_unicode (wenv 0) (wdisk []) DefaultConfig e = Some (None, e') \<and> ex_journal e' \<noteq> None"
  using Open_works[OF wdisk_works wdisk_journal[of plain_unicode "[]"] default_facts(2,3), where E = "wenv 0" and s = "ex_store e"]
  by (auto simp: openPersistence_def default_facts SetJournal_def)

lemma example_env: "env_ok (wenv 0)"
  by (intro wenv_ok) (simp add: zero_time_def)

lemma NewServer_simps:
  "sv_calls (NewServer cfg) = Map.empty" "sv_config (NewServer cfg) = WithDefaults cfg" "sv_launched (NewServer cfg) = []"
  "\<not> sv_closing (NewServer cfg)" "\<not> sv_started (NewServer cfg)" "sv_active (NewServer cfg) = {}" "sv_leaving (NewServer cfg) = {}"
  "sv_listening (NewServer cfg) = {}" "sv_expireWg (NewServer cfg) = 0" "ex_journal (sv_ex (NewServer cfg)) = None"
  by (simp_all add: NewServer_def Let_def newExecutor_def NewExecutor_def SetMemoryLimit_def)

text \<open>\<open>Start\<close> up to the call of \<open>Serve\<close>.\<close>

lemma example_start:
  "\<exists>s. lifecycle_run plain_unicode (NewServer DefaultConfig) s \<and> sv_calls s = [0 \<mapsto> ServeBegin True] \<and> sv_config s = DefaultConfig \<and>
    sv_launched s = [0] \<and> \<not> sv_closing s \<and> \<not> sv_started s \<and> sv_active s = {} \<and> sv_leaving s = {} \<and> sv_listening s = {0} \<and>
    sv_expireWg s = 0 \<and> ex_journal (sv_ex s) \<noteq> None"
proof -
  let ?U = plain_unicode and ?s0 = "NewServer DefaultConfig"
  note new = NewServer_simps[of DefaultConfig]
  obtain e where e: "openPersistence ?U (wenv 0) (wdisk []) DefaultConfig (sv_ex ?s0) = Some (None, e)" "ex_journal e \<noteq> None"
    using example_opens[OF new(10)] by blast
  let ?s1 = "launch 0 StartBegin ?s0" let ?s2 = "put_call 0 StartOpen ?s1"
  let ?s3 = "put_call 0 StartListen (?s2\<lparr>sv_ex := e\<rparr>)"
  let ?s4 = "put_call 0 StartCheck (?s3\<lparr>sv_listening := insert 0 (sv_listening ?s3)\<rparr>)"
  let ?s5 = "put_call 0 (ServeBegin True) ?s4"
  note sim = launch_def put_call_def new
  have "lifecycle_run ?U ?s0 ?s1" by (rule lifecycle_run.step[OF lifecycle_run.here lifecycle_step.start]) (simp add: new)
  then have "lifecycle_run ?U ?s0 ?s2"
    by (rule run_call[where p = StartBegin]) (simp_all add: sim Start_step.checked Validate_DefaultConfig)
  then have "lifecycle_run ?U ?s0 ?s3"
    by (rule run_call[where p = StartOpen, OF _ _ disjI1[OF Start_step.opened[OF example_env]]]) (use e in \<open>simp_all add: sim\<close>)
  then have "lifecycle_run ?U ?s0 ?s4" by (rule run_call[where p = StartListen, OF _ _ disjI1[OF Start_step.listen]]) (simp add: sim)
  then have "lifecycle_run ?U ?s0 ?s5" by (rule run_call[where p = StartCheck, OF _ _ disjI1[OF Start_step.serve]]) (simp_all add: sim)
  then show ?thesis using e(2) by (intro exI[of _ ?s5]) (simp add: sim)
qed

text \<open>A client is admitted.\<close>

lemma example_client:
  "\<exists>s. lifecycle_run plain_unicode (NewServer DefaultConfig) s \<and> sv_launched s = [0] \<and> sv_active s = {7}"
proof -
  let ?U = plain_unicode and ?s0 = "NewServer DefaultConfig"
  obtain s where s: "lifecycle_run ?U ?s0 s" "sv_calls s = [0 \<mapsto> ServeBegin True]" "sv_config s = DefaultConfig" "sv_launched s = [0]"
    "\<not> sv_closing s" "\<not> sv_started s" "sv_active s = {}" "sv_leaving s = {}" "sv_listening s = {0}" "ex_journal (sv_ex s) \<noteq> None"
    using example_start by blast
  let ?s1 = "put_call 0 (ServeOpen True) s"
  let ?s2 = "put_call 0 (ServeEnter True) (?s1\<lparr>sv_ex := sv_ex s\<rparr>)"
  let ?s3 = "put_call 0 (ServeExpire True) (?s2\<lparr>sv_started := True, sv_listener := Some 0\<rparr>)"
  let ?s4 = "put_call 0 (ServeAccept True) (?s3\<lparr>sv_expireWg := Suc (sv_expireWg ?s3)\<rparr>)"
  let ?s5 = "put_call 0 (ServeAdmit True) ?s4"
  let ?s6 = "put_call 0 (ServeAccept True) (?s5\<lparr>sv_active := insert 7 (sv_active ?s5), sv_clientsWg := Suc (sv_clientsWg ?s5)\<rparr>)"
  note sim = put_call_def s(2-9)
  have serve: "lifecycle_run ?U ?s0 r \<Longrightarrow> sv_calls r 0 = Some p \<Longrightarrow> Serve_step ?U 0 p r p' r' \<Longrightarrow> lifecycle_run ?U ?s0 (put_call 0 p' r')" for r p p' r'
    using run_call[of ?U ?s0 r 0 p p' r'] by simp
  have o: "openPersistence ?U (wenv 0) (wdisk []) (sv_config ?s1) (sv_ex ?s1) = Some (None, sv_ex s)"
    using s(10) by (simp add: openPersistence_def)
  have "lifecycle_run ?U ?s0 ?s1" by (rule serve[OF s(1) _ Serve_step.checked]) (simp_all add: s(2,3) Validate_DefaultConfig)
  then have "lifecycle_run ?U ?s0 ?s2" by (rule serve[OF _ _ Serve_step.opened[OF example_env o]]) (simp add: put_call_def)
  then have "lifecycle_run ?U ?s0 ?s3" by (rule serve[OF _ _ Serve_step.enter]) (simp_all add: sim)
  then have "lifecycle_run ?U ?s0 ?s4" by (rule serve[OF _ _ Serve_step.expire]) (simp add: sim)
  then have "lifecycle_run ?U ?s0 ?s5" by (rule serve[OF _ _ Serve_step.accept]) (simp_all add: sim)
  then have "lifecycle_run ?U ?s0 ?s6" by (rule serve[OF _ _ Serve_step.admit]) (simp_all add: sim DefaultConfig_def)
  then show ?thesis by (intro exI[of _ ?s6]) (simp add: sim)
qed

subsection \<open>Properties\<close>

text \<open>
  C11: whatever calls of \<open>Start\<close>, \<open>Serve\<close> and \<open>Shutdown\<close> are made, and however they interleave
  with each other, with the handlers and with the expiry loop, the server never has more active
  connections than its limit, the wait group counts exactly the handlers that have not ended,
  and at most one thread is in the accept loop.
\<close>

theorem connection_limit:
  assumes "lifecycle_run U (NewServer cfg) s"
  shows "int (card (sv_active s)) \<le> max 0 (MaxConnections (WithDefaults cfg)) \<and>
    sv_clientsWg s = card (sv_active s \<union> sv_leaving s) \<and>
    (\<forall>t t' p p'. sv_calls s t = Some p \<and> in_service p \<and> sv_calls s t' = Some p' \<and> in_service p' \<longrightarrow> t = t')"
proof -
  have inv: "handlers_inv s" "loop_inv s" "sv_config s = WithDefaults cfg" using lifecycle_run_inv[OF assms] by simp_all
  then have "card (sv_active s \<union> sv_leaving s) = card (sv_active s) + card (sv_leaving s)"
    by (intro card_Un_disjoint) (simp_all add: handlers_inv_def)
  moreover have "t = t'" if "sv_calls s t = Some p \<and> in_service p \<and> sv_calls s t' = Some p' \<and> in_service p'" for t t' p p'
    using inv(2) that unfolding loop_inv_def by (metis option.inject)
  ultimately show ?thesis using inv(1,3) unfolding handlers_inv_def by auto
qed

theorem connection_limit_witness:
  "\<exists>s. lifecycle_run plain_unicode (NewServer DefaultConfig) s \<and> sv_active s = {7} \<and>
    int (card (sv_active s)) \<le> max 0 (MaxConnections (WithDefaults DefaultConfig)) \<and> sv_clientsWg s = card (sv_active s \<union> sv_leaving s)"
proof -
  obtain s where s: "lifecycle_run plain_unicode (NewServer DefaultConfig) s" "sv_active s = {7}" using example_client by blast
  from connection_limit[OF s(1)] s show ?thesis by blast
qed

text \<open>
  C10: a server that is started once serves its clients with the append-only file installed, if
  that is enabled, whatever calls of \<open>Shutdown\<close> interleave with it: as long as a handler may
  execute commands the executor has its journal, and when a call closes the journal, no handler
  is left.
\<close>

theorem journal_while_serving:
  assumes "lifecycle_run U (NewServer cfg) s" "length (sv_launched s) \<le> 1" "AOFEnabled cfg"
  shows "(sv_active s \<noteq> {} \<longrightarrow> ex_journal (sv_ex s) \<noteq> None) \<and>
    (\<forall>t r. sv_calls s t = Some (CloseLog r) \<longrightarrow> sv_active s = {} \<and> sv_leaving s = {})"
proof -
  have inv: "life_inv U s" by (rule lifecycle_run_life[OF assms(1,2)])
  have "AOFEnabled (sv_config s)" using lifecycle_run_inv[OF assms(1)] assms(3) by (simp add: WithDefaults_def)
  then have "sv_active s \<noteq> {} \<Longrightarrow> ex_journal (sv_ex s) \<noteq> None" using life_invD(1)[OF inv] by (simp add: global_inv_def logged_def)
  moreover have "sv_active s = {} \<and> sv_leaving s = {}" if "sv_calls s t = Some (CloseLog r)" for t r
    using point_invD(8)[OF life_invD(2)[OF inv that]] by (simp add: over_def)
  ultimately show ?thesis by blast
qed

theorem journal_while_serving_witness:
  "\<exists>s. lifecycle_run plain_unicode (NewServer DefaultConfig) s \<and> sv_active s = {7} \<and> ex_journal (sv_ex s) \<noteq> None"
proof -
  obtain s where s: "lifecycle_run plain_unicode (NewServer DefaultConfig) s" "sv_launched s = [0]" "sv_active s = {7}"
    using example_client by blast
  from journal_while_serving[OF s(1)] s default_facts(1) show ?thesis by auto
qed

subsection \<open>A log that stays open\<close>

text \<open>
  C37: both \<open>Start\<close> and \<open>Shutdown\<close> can return with the log left open.
  \<open>Shutdown\<close> can run between the last test of \<open>Start\<close> and the call of \<open>Serve\<close>: it closes the log
  that \<open>Start\<close> has opened, then \<open>Serve\<close> opens it again, finds the server closing, and both calls
  return without closing it.
\<close>

theorem shutdown_leaves_log_open:
  "\<exists>s r. lifecycle_run plain_unicode (NewServer DefaultConfig) s \<and> sv_calls s = [0 \<mapsto> Finished [], 1 \<mapsto> Finished r] \<and>
    sv_closing s \<and> ex_journal (sv_ex s) \<noteq> None"
proof -
  let ?U = plain_unicode and ?s0 = "NewServer DefaultConfig"
  obtain s where s: "lifecycle_run ?U ?s0 s" "sv_calls s = [0 \<mapsto> ServeBegin True]" "sv_config s = DefaultConfig"
    "\<not> sv_closing s" "\<not> sv_started s" "sv_expireWg s = 0" "ex_journal (sv_ex s) \<noteq> None"
    using example_start by blast
  obtain err l e where c: "closePersistence (sv_ex s) = ((err, l), e)" by (metis prod.exhaust)
  then have "ex_journal e = None" by (auto simp: closePersistence_def SetJournal_def split: option.splits prod.splits)
  then obtain e' where e': "openPersistence ?U (wenv 0) (wdisk []) DefaultConfig e = Some (None, e')" "ex_journal e' \<noteq> None"
    using example_opens by blast
  let ?s1 = "put_call 1 ShutdownBegin s"
  let ?s2 = "put_call 1 (CloseWait []) (request_shutdown ?s1)"
  let ?s3 = "put_call 1 (CloseLog []) ?s2"
  let ?s4 = "put_call 1 (Finished ([] @ failure err)) (?s3\<lparr>sv_ex := e\<rparr>)"
  let ?s5 = "put_call 0 (ServeOpen True) ?s4"
  let ?s6 = "put_call 0 (ServeEnter True) (?s5\<lparr>sv_ex := e'\<rparr>)"
  let ?s7 = "put_call 0 (serve_return True []) (close_listener 0 ?s6)"
  let ?s8 = "put_call 0 (Finished []) ?s7"
  note sim = put_call_def request_shutdown_def close_listener_def serve_return_def s(2-6)
  have run: "lifecycle_run ?U ?s0 (put_call t p' r')" if "lifecycle_run ?U ?s0 r" "sv_calls r t = Some p" "call_step ?U t p r p' r'"
    for t r p p' r' using run_call[OF that] .
  have "lifecycle_run ?U ?s0 ?s1" by (rule lifecycle_run.step[OF s(1) lifecycle_step.shutdown]) (simp add: s(2))
  then have "lifecycle_run ?U ?s0 ?s2" by (rule run[where p = ShutdownBegin]) (simp_all add: sim Shutdown_step.simps)
  then have "lifecycle_run ?U ?s0 ?s3" by (rule run[where p = "CloseWait []"]) (simp_all add: sim Close_step.simps)
  then have "lifecycle_run ?U ?s0 ?s4"
    by (rule run[where p = "CloseLog []", OF _ _ disjI2[OF disjI2[OF disjI2[OF Close_step.log]]]]) (use c in \<open>simp_all add: sim\<close>)
  then have "lifecycle_run ?U ?s0 ?s5"
    by (rule run[where p = "ServeBegin True", OF _ _ disjI2[OF disjI1[OF Serve_step.checked]]]) (simp_all add: sim Validate_DefaultConfig)
  then have "lifecycle_run ?U ?s0 ?s6"
    by (rule run[where p = "ServeOpen True", OF _ _ disjI2[OF disjI1[OF Serve_step.opened[OF example_env]]]]) (use e' in \<open>simp_all add: sim\<close>)
  then have "lifecycle_run ?U ?s0 ?s7"
    by (rule run[where p = "ServeEnter True", OF _ _ disjI2[OF disjI1[OF Serve_step.stopped]]]) (simp_all add: sim)
  then have "lifecycle_run ?U ?s0 ?s8"
    by (rule run[where p = "StartServed []", OF _ _ disjI1[OF Start_step.served]]) (simp_all add: sim)
  then show ?thesis using e'(2) by (intro exI[of _ ?s8] exI[of _ "[] @ failure err"]) (auto simp: sim)
qed


end
