(* ===== verification/Spec2Isabelle.thy ===== *)
theory Spec2Isabelle
  imports Dispatch ConfigTheorems WireTheorems StoreTheorems ExecutorTheorems JournalTheorems NetworkTheorems LifecycleTheorems
begin

text \<open>
  Carrot is an in-memory key-value server that speaks the Redis protocol. A client's bytes are
  decoded into values (\<open>internal/protocol/resp\<close>) and parsed into commands (\<open>internal/command\<close>); an
  executor admits them under the memory limit, writes mutations to an append-only file
  (\<open>internal/aof\<close>) and applies them to a sharded store (\<open>internal/storage\<close>), whose keys may have
  deadlines. Two servers share this: one goroutine per client (\<open>internal/server\<close>,
  \<open>internal/client\<close>) and one event loop over epoll (\<open>internal/reactor\<close>). On start the append-only file
  is replayed.

  \<^bold>\<open>Conventions.\<close> Definitions bear the names of the source; where several types have a method of
  the same name, the type is put before it (\<open>conn_Flush\<close>, \<open>client_Flush\<close>). A struct is a record and a
  method takes and returns it. Errors are values: a sum with the error on the left, or an option
  where only an error is returned. \<open>int64\<close> is \<^typ>\<open>int\<close> with \<open>wrap64\<close> where the source may wrap
  around; bit masks of epoll are 32-bit words. Times are nanoseconds. What the program does not determine is a
  parameter: readings of the clock, random draws and the order of map iterations (record \<open>env\<close>, with
  \<open>env_ok\<close>: the clock does not go back), Unicode tables (\<open>unicode\<close>, of which \<open>plain_unicode\<close> is an instance),
  and the outcome of every call to the operating system.

  \<^bold>\<open>Theories.\<close>
  \<^item> \<open>Prelude\<close>, \<open>GoStd\<close>, \<open>Bufio\<close>: shared facts; \<open>strconv\<close>, \<open>strings\<close>, \<open>time\<close> and \<open>bufio.Writer\<close> as far as the
    sources use them. The locale \<open>byte_sink\<close> says what a writer under a buffered writer promises; it is
    interpreted for the record buffer, the file, both response buffers and the connection.
  \<^item> \<open>Config\<close>: \<open>config.go\<close>, with \<open>net.ParseIP\<close> written out.
  \<^item> \<open>ListValue\<close>, \<open>KeyIndex\<close>: the circular buffer of \<open>list.go\<close> and the key index of \<open>memory.go\<close>, with the
    locales \<open>deque\<close> and \<open>key_set\<close> as their contracts.
  \<^item> \<open>Store\<close>, \<open>StoreList\<close>, \<open>Maintenance\<close>: the store of \<open>storage.go\<close>, \<open>list.go\<close> and \<open>memory.go\<close>; \<open>KvSpec\<close> is
    its abstract specification, a map from keys to values with deadlines, and \<open>StoreRuns\<close> shows that every sequence of
    calls refines it (locale \<open>simulation\<close>). An operation is one step since the source holds the lock of the shard.
  \<^item> \<open>Resp\<close>, \<open>RespCorrect\<close>, \<open>RespStream\<close>, \<open>Records\<close>: encoder and decoder; round trip, limits,
    truncated input, and input that arrives in pieces. The decoder recurses on the nesting depth, which the source bounds by 64.
  \<^item> \<open>Command\<close>, \<open>CommandCorrect\<close>, \<open>CommandEffects\<close>, \<open>CommandTypes\<close>: parser and handlers, which storage
    call each makes, and the type of the replies.
  \<^item> \<open>Executor\<close>, \<open>ExecutorCorrect\<close>, \<open>SystemLive\<close>, \<open>Dispatch\<close>, \<open>Requests\<close>: \<open>executor.go\<close>. Clients, write loop, expiry
    and rewrite are the step relation \<open>system_step\<close>; \<open>dispatch_step\<close> adds the capacity of the queue, senders that block
    at it, the idle timer and the mutex of the dispatcher; \<open>call_executor\<close> is one client's blocking call. The
    eviction loop is a \<open>partial_function\<close> and proved to return.
  \<^item> \<open>Aof\<close>, \<open>AofCorrect\<close>, \<open>AofLive\<close>, \<open>Replay\<close>, \<open>Recovery\<close>, \<open>Opening\<close>: \<open>aof.go\<close>. A file is its bytes,
    its position, how much was synced, and the outcome of each future call. Appending with rollback,
    rewriting, closing, opening and replaying; opening returns for any bytes.
  \<^item> \<open>Durability\<close>, \<open>JournalContract\<close>, \<open>AofJournal\<close>, \<open>Server\<close>: the locale \<open>journal_contract\<close> states what the executor
    needs of its journal, the append-only file is shown to fulfil it (\<open>aof\<close>), and a run of the server keeps
    journal and store together.
  \<^item> \<open>Reply\<close>, \<open>ClientHandler\<close>: bounded replies, \<open>client.go\<close> and \<open>handleClient\<close>. The locale
    \<open>command_executor\<close> (in \<open>Requests\<close>) is what a connection needs of the executor.
  \<^item> \<open>Lifecycle\<close>, \<open>LifecycleCorrect\<close>: \<open>Start\<close>, \<open>Serve\<close>, \<open>Shutdown\<close>, handlers and expiry loop of
    \<open>server.go\<close> as concurrent threads; a step is one critical section or one blocking call.
  \<^item> \<open>Poller\<close>, \<open>Connection\<close>, \<open>ConnectionCorrect\<close>, \<open>EventLoop\<close>, \<open>EventLoopCorrect\<close>, \<open>ReactorServer\<close>: the
    reactor over a model of the kernel. \<open>active_executor\<close> extends \<open>command_executor\<close> by the expiration that
    the loop triggers.
  \<^item> \<open>Examples\<close> has the concrete environments and runs of the witnesses. The theorems are in
    \<open>ConfigTheorems\<close>, \<open>WireTheorems\<close>, \<open>StoreTheorems\<close>, \<open>ExecutorTheorems\<close>, \<open>JournalTheorems\<close>,
    \<open>NetworkTheorems\<close>, \<open>LifecycleTheorems\<close> and, where they span all parts, here.

  \<^bold>\<open>Results.\<close> Restarting after a crash replays every complete record that the crash has left, at least those
  that were synced, and recovers the contents of the store up to expired keys (C1); the commands have to be
  within the limits of the decoder (\<open>replayable\<close>) and the journal \<open>settled\<close> with respect to deadlines that have passed.
  The store behaves like its specification (C2), queued requests are
  answered once and in order (C3), all of them unless the write loop deadlocks (C5), appends are atomic (C4). Clients of both
  servers get the replies to their requests in order, and the two servers agree however the input is cut (C6, C7). The
  event loop and the reactor leak no descriptor and stay within their bounds (C8, C9), and the
  goroutine server serves with its journal installed and within its limit (C10, C11). The
  other theorems are about the single components: round trips and limits of the protocol, replay and
  rewrite, admission and eviction, expiration, snapshots, and sizes in the configuration. Four theorems show
  defects of the program (C37 to C40): \<open>shutdown_leaves_log_open\<close>, \<open>write_loop_deadlock\<close>,
  \<open>long_record_blocks_restart\<close> and \<open>replay_revives_expired\<close>.

  \<^bold>\<open>Bounds.\<close> No fuel is used. Loops that read input recurse on what is left; those that wait for the
  kernel recurse on lists of given results, and an exhausted list is a call that would block, so that every finite
  behaviour is covered. The event loop recurses on \<open>stop_polls\<close>, the number of looks at the stop
  channel that find it open, which is arbitrary.

  \<^bold>\<open>Not modelled.\<close> CPU profiling and the two \<open>main\<close> functions (flags and signals); the stubs for other
  systems than Linux; log output; accessors of addresses; \<open>Client.Read\<close> and \<open>RewriteAOF\<close>, which no server
  calls; the interleaving of shard locks inside one batch or one expiry cycle; \<open>Temporary\<close> accept errors are
  retried without the pause. Goroutines are scheduled in any order, but memory is sequentially consistent.
\<close>

text \<open>
  C1: crash recovery. A server starts from a disk that holds a journal (cut short in the
  middle of a record or not), then clients, the expiration loop, the write loop and the sync loop take
  any steps in any order. If no append has failed beyond repair, the file then holds exactly the
  records of some canonical commands. A crash, possibly during a further append of the records of
  \<open>ds\<close>, leaves any first \<open>n\<close> bytes of the file with these records, among them at least the bytes
  that were synced. Provided that every command is \<open>replayable\<close>, that is, within the limits of the decoder (fewer than 1024
  arguments, each at most 1 MiB, and 4 MiB for the whole request), a restart replays
  exactly the commands whose records are complete and cuts off the rest. These are all commands of the
  file unless unsynced bytes were lost. If they are the commands of the file and none of \<open>ds\<close>, the contents
  of the store are those before the crash, except that keys may be missing whose deadline has
  passed at the end of the recovery and keys may be present whose deadline has passed before it;
  this provided that the journal is \<open>settled\<close>: no command depends on a key to which an earlier one
  gave a deadline that has passed meanwhile.
\<close>

theorem crash_recovery:
  assumes "started U E0 dsk cfg e" "journal_disk U cs dsk" "follows E0 E"
    "runs U E (start_system e) s" "ex_journal (sys_ex s) = Some l" "l_failed l = None"
  shows "\<exists>cs'. f_data (l_file l) = records cs' \<and> list_all (canonical U) cs' \<and>
    (\<forall>ds n f r0 r1 E'. crashed_file l ds n f \<and> list_all replayable cs' \<and> clock E (sys_ex s) 0 \<le> r0 \<and>
       replay_window r0 r1 E' \<and> settled U r1 cs' \<longrightarrow>
       (\<exists>m f' s'. whole_records (cs' @ ds) n m \<and> replay U E' EOF f NewStore = Some ((None, f'), s') \<and>
          f_data f' = records (take m (cs' @ ds)) \<and> s' = ex_store (replayed U E' (take m (cs' @ ds))) \<and>
          (length (f_data (l_file l)) \<le> n \<longrightarrow> length cs' \<le> m) \<and>
          (m = length cs' \<longrightarrow> recovers r0 r1 (abs_store (ex_store (sys_ex s))) (abs_store s'))))"
proof -
  obtain h where h: "log_recs U l (commands h)" "tracks U (clock E (sys_ex s) 0) (ex_store (sys_ex s)) h"
    using run_tracks[OF assms(1-4)] assms(5) by (metis option.inject)
  show ?thesis
    by (intro exI[of _ "commands h"] conjI allI impI restart_recovers[OF h(1) assms(6) h(2)] settled_quiet[OF h(2)])
      (use h(1) assms(6) in \<open>auto simp: log_recs_def\<close>)
qed

theorem crash_recovery_witness:
  "\<exists>e s l f f' s'. started plain_unicode (wenv 0) (wdisk []) DefaultConfig e \<and>
     runs plain_unicode (wenv 0) (start_system e) s \<and>
     ex_journal (sys_ex s) = Some l \<and> f_data (l_file l) = records [wset] \<and>
     f_data f = records [wset] @ take 9 (records [wset]) \<and> f_data f' = records [wset] \<and>
     replay plain_unicode (wenv 5) EOF f NewStore = Some ((None, f'), s') \<and>
     recovers 5 5 (abs_store (ex_store (sys_ex s))) (abs_store s')"
proof -
  let ?U = plain_unicode
  obtain e s l where r: "started ?U (wenv 0) (wdisk []) DefaultConfig e" "runs ?U (wenv 0) (start_system e) s"
    "ex_journal (sys_ex s) = Some l" "healthy l" "f_data (l_file l) = records [wset]" using wrun by blast
  let ?f = "\<lparr>f_data = f_data (l_file l) @ take 9 (records [wset]), f_pos = 0, f_synced = 0, f_calls = 0, f_faults = \<lambda>n. (0, None)\<rparr>"
  have d: "journal_disk ?U [] (wdisk [])" by (intro wdisk_journal) simp_all
  have w: "follows (wenv 0) (wenv 0)" "replay_window 5 5 (wenv 5)"
    by (auto intro!: wenv_follows wenv_window simp: zero_time_def)
  let ?n = "length (records [wset]) + 9"
  have "log_inv l" using run_tracks[OF r(1) d w(1) r(2)] r(3) by (auto simp: log_recs_def)
  then have c: "crashed_file l [wset] ?n ?f" using wset_facts(3) r(5) by (simp add: crashed_file_def sound_file_def log_inv_def)
  have t: "settled ?U 5 [wset]" by (simp add: settled_def list_all_iff)
  have m: "m = 1" if "whole_records ([wset] @ [wset]) ?n m" "1 \<le> m" for m
  proof -
    have "m = 1 \<or> m = 2" using that by (auto simp: whole_records_def)
    with that(1) show ?thesis by (auto simp: whole_records_def wset_length)
  qed
  obtain cs' where "f_data (l_file l) = records cs'"
    and cs: "\<forall>ds n f r0 r1 E'. crashed_file l ds n f \<and> list_all replayable cs' \<and> clock (wenv 0) (sys_ex s) 0 \<le> r0 \<and>
       replay_window r0 r1 E' \<and> settled ?U r1 cs' \<longrightarrow>
       (\<exists>m f' s'. whole_records (cs' @ ds) n m \<and> replay ?U E' EOF f NewStore = Some ((None, f'), s') \<and>
          f_data f' = records (take m (cs' @ ds)) \<and> s' = ex_store (replayed ?U E' (take m (cs' @ ds))) \<and>
          (length (f_data (l_file l)) \<le> n \<longrightarrow> length cs' \<le> m) \<and>
          (m = length cs' \<longrightarrow> recovers r0 r1 (abs_store (ex_store (sys_ex s))) (abs_store s')))"
    using crash_recovery[OF r(1) d w(1) r(2,3)] r(4) by (auto simp: healthy_def)
  then have "cs' = [wset]" using r(5) by (intro records_inj) simp
  with cs[rule_format, of "[wset]" ?n ?f 5 5 "wenv 5"] c w(2) t wset_facts(3) r(5)
  obtain m f' s' where "whole_records ([wset] @ [wset]) ?n m" "1 \<le> m"
    and s': "replay ?U (wenv 5) EOF ?f NewStore = Some ((None, f'), s')" "f_data f' = records (take m ([wset] @ [wset]))"
      "m = 1 \<longrightarrow> recovers 5 5 (abs_store (ex_store (sys_ex s))) (abs_store s')" by auto
  then have "m = 1" by (intro m)
  with s' r(1-3,5) show ?thesis
    by (intro exI[of _ e] exI[of _ s] exI[of _ l] exI[of _ ?f] exI[of _ f'] exI[of _ s']) simp
qed

text \<open>
  C3: the write queue is a queue. In every state of a running server the mutations that were
  answered and then those that wait, and likewise the rewrites that were started and those that
  wait, are in the order in which the requests came; every request that was accepted is in
  exactly one of these places, exactly once; the queue stays within its bound, and whenever it is
  not empty the write loop is active.
\<close>

theorem requests_in_order:
  assumes "started U E0 dsk cfg e" "journal_disk U cs dsk" "follows E0 E" "runs U E (start_system e) s"
    "mutations = map fst (sys_answers s) @ queued_mutations (writeQueue (sys_ex s))"
    "rewrites = sys_started s @ queued_rewrites (writeQueue (sys_ex s))"
  shows "sorted_wrt (<) mutations \<and> sorted_wrt (<) rewrites \<and>
    set mutations \<union> set rewrites = {..<ex_requests (sys_ex s)} \<and> set mutations \<inter> set rewrites = {} \<and>
    length (writeQueue (sys_ex s)) \<le> queue_room \<and> (writeQueue (sys_ex s) \<noteq> [] \<longrightarrow> dispatching (sys_ex s))"
proof -
  have "env_ok E0" "env_ok E" using assms(3) by (simp_all add: follows_def)
  then have "system_inv (log_ops U) s" using system_inv_run[OF assms(4)] started_inv[OF assms(1,2)] by blast
  with assms(5,6) show ?thesis by (simp add: system_inv_def Let_def)
qed

theorem requests_in_order_witness:
  "\<exists>e s. started plain_unicode (wenv 0) (wdisk []) DefaultConfig e \<and> runs plain_unicode (wenv 0) (start_system e) s \<and>
     ex_requests (sys_ex s) = 1 \<and> set (map fst (sys_answers s)) \<union> set (sys_started s) = {0}"
proof -
  obtain e s where r: "started plain_unicode (wenv 0) (wdisk []) DefaultConfig e"
    "runs plain_unicode (wenv 0) (start_system e) s" "writeQueue (sys_ex s) = []" "ex_requests (sys_ex s) = 1" using wrun by blast
  have "journal_disk plain_unicode [] (wdisk [])" by (intro wdisk_journal) simp_all
  moreover have "follows (wenv 0) (wenv 0)" by (intro wenv_follows) (simp_all add: zero_time_def)
  ultimately have "set (map fst (sys_answers s)) \<union> set (sys_started s) = {..<1}"
    using requests_in_order[OF r(1) _ _ r(2) refl refl] unfolding r(3,4) by simp
  with r show ?thesis by (auto simp: lessThan_Suc)
qed

text \<open>
  C5: no request is stuck but by the deadlock of the write loop. Take any state that clients, write loop, expiration
  and sync loop can reach, with the capacity of the queue and the mutex of the dispatcher respected: unless the
  loop waits for the mutex while a client that holds it waits at the full queue, the queue can be emptied from
  there without further requests; then no sender is blocked and every request has its answer, each mutation its
  reply and each rewrite its start, the request of a blocked sender included. The excluded state needs 1025 requests at a time.
\<close>

theorem queue_drains:
  assumes "started U E0 dsk cfg e" "journal_disk U cs dsk" "follows E0 E" "dispatch_runs U E (start_dispatch e) d"
    "\<not> write_deadlock d"
  shows "\<exists>d'. dispatch_runs U E d d' \<and> writeQueue (sys_ex (dp_sys d')) = [] \<and> dp_sender d' = None \<and>
    set (map fst (sys_answers (dp_sys d'))) \<union> set (sys_started (dp_sys d')) =
      {..<ex_requests (sys_ex (dp_sys d)) + (if dp_sender d = None then 0 else 1)}"
proof -
  have E: "env_ok E0" "env_ok E" using assms(3) by (simp_all add: follows_def)
  have inv: "dispatch_inv U (start_dispatch e)"
    by (rule dispatch_inv_start[OF started_inv[OF assms(1,2) E(1)] started_batched(2)[OF assms(1,2)]])
  obtain d' where d': "dispatch_runs U E d d'" "writeQueue (sys_ex (dp_sys d')) = []" "dp_sender d' = None"
    "ex_requests (sys_ex (dp_sys d')) = ex_requests (sys_ex (dp_sys d)) + (if dp_sender d = None then 0 else 1)"
    using dispatch_drains[OF dispatch_inv_run[OF assms(4) E(2) inv] E(2) assms(5)] by blast
  have "dispatch_inv U d'" by (rule dispatch_inv_run[OF rtranclp_trans[OF assms(4) d'(1)] E(2) inv])
  then have "set (map fst (sys_answers (dp_sys d'))) \<union> set (sys_started (dp_sys d')) = {..<ex_requests (sys_ex (dp_sys d'))}"
    using d'(2) by (simp add: dispatch_inv_def system_inv_def Let_def)
  with d' show ?thesis by (intro exI[of _ d'] conjI) simp_all
qed

theorem queue_drains_witness:
  "\<exists>e d d'. started plain_unicode (wenv 0) (wdisk []) DefaultConfig e \<and>
     dispatch_runs plain_unicode (wenv 0) (start_dispatch e) d \<and> ex_requests (sys_ex (dp_sys d)) = 70 \<and> sys_answers (dp_sys d) = [] \<and>
     dispatch_runs plain_unicode (wenv 0) d d' \<and> set (map fst (sys_answers (dp_sys d'))) \<union> set (sys_started (dp_sys d')) = {..<70}"
proof -
  let ?U = plain_unicode and ?E = "wenv 0"
  have j: "journal_disk ?U [] (wdisk [])" by (intro wdisk_journal) simp_all
  have f: "follows ?E ?E" by (intro wenv_follows) (simp_all add: zero_time_def)
  obtain e where e: "started ?U ?E (wdisk []) DefaultConfig e" using wrun by blast
  have b: "batched (log_ops ?U) e" "writeQueue e = []" "ex_requests e = 0"
    using started_batched[OF e j] by simp_all
  obtain d where d: "dispatch_runs ?U ?E (start_dispatch e) d" "dp_sender d = None" "\<not> dp_locking d"
    "sys_answers (dp_sys d) = []" "ex_requests (sys_ex (dp_sys d)) = 70"
    using fills[OF b wset_facts(5), of 70 ?E] by auto
  then have "\<not> write_deadlock d" by (simp add: write_deadlock_def)
  from queue_drains[OF e j f d(1) this] d(2,5) obtain d' where "dispatch_runs ?U ?E d d'"
    "set (map fst (sys_answers (dp_sys d'))) \<union> set (sys_started (dp_sys d')) = {..<70}" by auto
  with e d show ?thesis by blast
qed



text \<open>
  C2: for any sequence of calls on a new store, the store invariant holds at the end, the
  replies and the final contents are those of the specification, and the memory counter is
  the wrapped sum of the sizes of all stored entries.
\<close>

theorem store_run_refines:
  assumes "list_all call_ok calls" "run_all run_call calls NewStore = (rs, s)"
  shows "store_inv s \<and> spec_all call_spec calls Map.empty (rs, abs_store s) \<and>
    UsedMemory s = wrap64 (total_memory s)"
  using st.run[OF NewStore_refines(1) assms] NewStore_refines(2) store_inv_UsedMemory by auto

theorem store_run_refines_witness:
  "let calls = [(wclk, CSet ''k'' ''v'' 0), (wclk, CPush ''l'' [''a'', ''b''] True False),
      (wclk, CGet ''k''), (wclk, CPop ''l'' True 1), (wclk, CLen ''k'')];
      s = snd (run_all run_call calls NewStore)
   in fst (run_all run_call calls NewStore) =
        [Done, Count (Inr 2), Text (Inr (Some ''v'')), Items (Inr [''b'']), Count (Inl ErrWrongType)] \<and>
      store_inv s \<and> UsedMemory s = wrap64 (total_memory s)"
proof -
  let ?calls = "[(wclk, CSet ''k'' ''v'' 0), (wclk, CPush ''l'' [''a'', ''b''] True False),
      (wclk, CGet ''k''), (wclk, CPop ''l'' True 1), (wclk, CLen ''k'')]"
  have "fst (run_all run_call ?calls NewStore) =
      [Done, Count (Inr 2), Text (Inr (Some ''v'')), Items (Inr [''b'']), Count (Inl ErrWrongType)]"
    by (simp add: store_eval shards_eval)
  moreover have "list_all call_ok ?calls" by (simp add: call_ok_def wclk_ok)
  ultimately show ?thesis
    unfolding Let_def using store_run_refines[OF _ prod.collapse[symmetric], of ?calls] by blast
qed

end
